(* ===== verification/Prelude.thy ===== *)
theory Prelude
  imports Main "HOL-Library.Word" "HOL-Library.Monad_Syntax"
begin

text \<open>
  Shared vocabulary of the development: the machine integers and byte strings of
  the Rust sources, \<open>Result\<close>, little-endian encodings, bounds-checked slices and
  readers, UTF-8 and ASCII predicates, the capacity-bounded containers the kernel
  uses, and the two interfaces several components implement: a byte \<open>codec\<close> and a
  \<open>machine\<close> with an invariant.

  \<open>usize\<close> values are natural numbers; where the width of an integer matters it is a
  word. A Rust \<open>str\<close> is a \<^typ>\<open>string\<close> whose characters are the bytes of its UTF-8
  form, so \<open>length\<close> counts bytes as \<open>str::len\<close> does.
\<close>

unbundle bit_operations_syntax

type_synonym u8 = "8 word"
type_synonym u16 = "16 word"
type_synonym u32 = "32 word"
type_synonym u64 = "64 word"
type_synonym bytes = "u8 list"
type_synonym str = string

named_theorems codec_simps \<open>encoders, decoders and readers to unfold in round-trip proofs\<close>
named_theorems read_fields \<open>reading back a field that was just written\<close>
named_theorems read_dests \<open>what a successful read says about the input\<close>

section \<open>Results\<close>

datatype ('a, 'e) result = Ok 'a | Err 'e

primrec result_bind :: "('a, 'e) result \<Rightarrow> ('a \<Rightarrow> ('b, 'e) result) \<Rightarrow> ('b, 'e) result" where
  "result_bind (Ok x) f = f x"
| "result_bind (Err e) f = Err e"

primrec is_ok :: "('a, 'e) result \<Rightarrow> bool" where
  "is_ok (Ok x) = True"
| "is_ok (Err e) = False"

text \<open>\<open>Result::ok\<close>.\<close>

primrec ok :: "('a, 'e) result \<Rightarrow> 'a option" where
  "ok (Ok x) = Some x"
| "ok (Err e) = None"

definition ok_or :: "'a option \<Rightarrow> 'e \<Rightarrow> ('a, 'e) result" where
  "ok_or x e = (case x of Some v \<Rightarrow> Ok v | None \<Rightarrow> Err e)"

lemma result_bind_eq_Ok [simp]:
  "result_bind r f = Ok y \<longleftrightarrow> (\<exists>x. r = Ok x \<and> f x = Ok y)"
  by (cases r) auto

lemma ok_eq_Some [simp]: "ok r = Some x \<longleftrightarrow> r = Ok x"
  by (cases r) auto

lemma ok_or_eq_Ok [simp]: "ok_or x e = Ok v \<longleftrightarrow> x = Some v"
  by (simp add: ok_or_def split: option.splits)

lemma ok_or_Some [simp]: "ok_or (Some v) e = Ok v"
  by (simp add: ok_or_def)

lemma ok_or_None [simp]: "ok_or None e = Err e"
  by (simp add: ok_or_def)

lemma is_ok_iff: "is_ok r \<longleftrightarrow> (\<exists>x. r = Ok x)"
  by (cases r) auto

section \<open>Little-endian integers\<close>

fun to_le :: "nat \<Rightarrow> nat \<Rightarrow> bytes" where
  "to_le 0 x = []"
| "to_le (Suc n) x = of_nat (x mod 256) # to_le n (x div 256)"

fun from_le :: "bytes \<Rightarrow> nat" where
  "from_le [] = 0"
| "from_le (b # bs) = unat b + 256 * from_le bs"

lemma length_to_le [simp]: "length (to_le n x) = n"
  by (induction n arbitrary: x) auto

lemma unat_u8_of_nat_mod [simp]: "unat (of_nat (x mod 256) :: u8) = x mod 256"
  by (simp add: unat_of_nat)

lemma u8_less_256 [simp]: "unat (b :: u8) < 256"
  using unsigned_less [of b] by simp

lemma from_le_to_le [simp]: "from_le (to_le n x) = x mod 256 ^ n"
proof (induction n arbitrary: x)
  case (Suc n)
  have "x mod (256 * 256 ^ n) = 256 * (x div 256 mod 256 ^ n) + x mod 256"
    by (rule mod_mult2_eq)
  with Suc show ?case by simp
qed simp

lemma from_le_bound: "from_le bs < 256 ^ length bs"
proof (induction bs)
  case (Cons b bs)
  have "unat b < 256" by (rule u8_less_256)
  moreover have "256 * from_le bs + 256 \<le> 256 * 256 ^ length bs"
    using Cons by simp
  ultimately have "unat b + 256 * from_le bs < 256 * 256 ^ length bs" by linarith
  then show ?case by simp
qed simp

lemma to_le_from_le [simp]: "length bs = n \<Longrightarrow> to_le n (from_le bs) = bs"
proof (induction bs arbitrary: n)
  case (Cons b bs)
  then have "(unat b + 256 * from_le bs) mod 256 = unat b"
    and "(unat b + 256 * from_le bs) div 256 = from_le bs"
    using u8_less_256 [of b] by auto
  with Cons show ?case by auto
qed simp

lemma to_le_inject: "x < 256 ^ n \<Longrightarrow> y < 256 ^ n \<Longrightarrow> to_le n x = to_le n y \<longleftrightarrow> x = y"
  using from_le_to_le [of n x] from_le_to_le [of n y] by (metis mod_less)

text \<open>\<open>uN::to_le_bytes\<close> and \<open>uN::from_le_bytes\<close>, for the widths the sources use.\<close>

definition le_enc :: "'w::len word \<Rightarrow> bytes" where
  "le_enc w = to_le (LENGTH('w) div 8) (unat w)"

definition le_dec :: "bytes \<Rightarrow> 'w::len word" where
  "le_dec bs = of_nat (from_le bs)"

lemma length_le_enc [simp]: "length (le_enc (w :: 'w::len word)) = LENGTH('w) div 8"
  by (simp add: le_enc_def)

lemma pow_256: "(256 :: nat) ^ n = 2 ^ (8 * n)"
  by (simp add: power_mult)

lemma le_dec_enc:
  assumes "8 dvd LENGTH('w::len)"
  shows "le_dec (le_enc w) = (w :: 'w word)"
proof -
  have "unat w < 256 ^ (LENGTH('w) div 8)"
    using assms unsigned_less [of w] by (simp add: pow_256)
  then show ?thesis by (simp add: le_dec_def le_enc_def)
qed

lemma le_enc_dec:
  assumes "8 dvd LENGTH('w::len)" and "length bs = LENGTH('w) div 8"
  shows "le_enc (le_dec bs :: 'w word) = bs"
proof -
  have "from_le bs < 2 ^ LENGTH('w)"
    using from_le_bound [of bs] assms by (simp add: pow_256)
  then have "unat (le_dec bs :: 'w word) = from_le bs"
    by (simp add: le_dec_def unat_of_nat)
  with assms(2) show ?thesis by (simp add: le_enc_def)
qed

lemma le_dec_enc_sizes [simp]:
  "le_dec (le_enc (a :: u8)) = a" "le_dec (le_enc (b :: u16)) = b"
  "le_dec (le_enc (c :: u32)) = c" "le_dec (le_enc (d :: u64)) = d"
  by (simp_all add: le_dec_enc)

lemma le_enc_dec_sizes [simp]:
  "length bs = 2 \<Longrightarrow> le_enc (le_dec bs :: u16) = bs"
  "length bs = 4 \<Longrightarrow> le_enc (le_dec bs :: u32) = bs"
  "length bs = 8 \<Longrightarrow> le_enc (le_dec bs :: u64) = bs"
  by (simp_all add: le_enc_dec)

lemma le_enc_inject_sizes [simp]:
  "le_enc (b :: u16) = le_enc b' \<longleftrightarrow> b = b'" "le_enc (c :: u32) = le_enc c' \<longleftrightarrow> c = c'"
  "le_enc (d :: u64) = le_enc d' \<longleftrightarrow> d = d'"
  by (metis le_dec_enc_sizes)+

section \<open>Slices and readers\<close>

text \<open>\<open>s.get(i..j)\<close>: \<open>None\<close> unless the range lies inside the slice.\<close>

definition slice_get :: "'a list \<Rightarrow> nat \<Rightarrow> nat \<Rightarrow> 'a list option" where
  "slice_get s i j = (if i \<le> j \<and> j \<le> length s then Some (take (j - i) (drop i s)) else None)"

text \<open>\<open>s.get(i)\<close>.\<close>

definition index_get :: "'a list \<Rightarrow> nat \<Rightarrow> 'a option" where
  "index_get s i = (if i < length s then Some (s ! i) else None)"

type_synonym 'a reader = "bytes \<Rightarrow> ('a \<times> bytes) option"

text \<open>\<open>Reader::take\<close>: the next \<open>n\<close> bytes and the rest.\<close>

definition rd_take :: "nat \<Rightarrow> bytes reader" where
  "rd_take n b = (if length b < n then None else Some (take n b, drop n b))"

definition rd_u8 :: "u8 reader" where
  "rd_u8 b = (case b of [] \<Rightarrow> None | x # r \<Rightarrow> Some (x, r))"

definition rd_int :: "'w::len word reader" where
  "rd_int b = do { (x, r) \<leftarrow> rd_take (LENGTH('w) div 8) b; Some (le_dec x, r) }"

definition rd_u16 :: "u16 reader" where "rd_u16 = rd_int"
definition rd_u32 :: "u32 reader" where "rd_u32 = rd_int"
definition rd_u64 :: "u64 reader" where "rd_u64 = rd_int"

text \<open>Reading \<open>n\<close> items in a row.\<close>

fun rd_many :: "nat \<Rightarrow> 'a reader \<Rightarrow> 'a list reader" where
  "rd_many 0 rd b = Some ([], b)"
| "rd_many (Suc n) rd b = do { (x, r) \<leftarrow> rd b; (xs, r') \<leftarrow> rd_many n rd r; Some (x # xs, r') }"

lemma slice_get_eq_Some:
  "slice_get s i j = Some t \<longleftrightarrow> i \<le> j \<and> j \<le> length s \<and> t = take (j - i) (drop i s)"
  by (auto simp: slice_get_def)

lemma slice_get_length: "slice_get s i j = Some t \<Longrightarrow> length t = j - i"
  by (auto simp: slice_get_def split: if_splits)

lemma slice_get_append_left [simp]:
  "length a = i \<Longrightarrow> slice_get (a @ s) i j = (if i \<le> j then slice_get s 0 (j - i) else None)"
  by (auto simp: slice_get_def)

lemma slice_get_0 [simp]: "slice_get s 0 n = (if n \<le> length s then Some (take n s) else None)"
  by (simp add: slice_get_def)

lemma rd_take_append [read_fields]: "length a = n \<Longrightarrow> rd_take n (a @ r) = Some (a, r)"
  by (simp add: rd_take_def)

lemma rd_take_all [read_fields]: "length a = n \<Longrightarrow> rd_take n a = Some (a, [])"
  by (simp add: rd_take_def)

lemma rd_take_SomeD [read_dests]: "rd_take n b = Some (a, r) \<Longrightarrow> b = a @ r \<and> length a = n"
  by (auto simp: rd_take_def split: if_splits)

lemma rd_u8_Cons [read_fields]: "rd_u8 (x # r) = Some (x, r)"
  by (simp add: rd_u8_def)

lemma rd_u8_SomeD [read_dests]: "rd_u8 b = Some (x, r) \<Longrightarrow> b = x # r"
  by (simp add: rd_u8_def split: list.splits)

lemma rd_ints_append [read_fields]:
  "rd_u16 (le_enc x @ r) = Some (x, r)" "rd_u32 (le_enc y @ r) = Some (y, r)"
  "rd_u64 (le_enc z @ r) = Some (z, r)"
  by (simp_all add: rd_u16_def rd_u32_def rd_u64_def rd_int_def rd_take_append)

lemma rd_int_SomeD:
  assumes "rd_int b = Some (x :: 'w::len word, r)" and "8 dvd LENGTH('w)"
  shows "b = le_enc x @ r"
proof -
  from assms(1) obtain a where a: "rd_take (LENGTH('w) div 8) b = Some (a, r)" and x: "x = le_dec a"
    by (auto simp: rd_int_def bind_eq_Some_conv)
  from rd_take_SomeD [OF a] show ?thesis
    by (simp add: x le_enc_dec [OF assms(2)])
qed

lemma rd_ints_SomeD [read_dests]:
  "rd_u16 b = Some (x, r) \<Longrightarrow> b = le_enc x @ r" "rd_u32 b = Some (y, r) \<Longrightarrow> b = le_enc y @ r"
  "rd_u64 b = Some (z, r) \<Longrightarrow> b = le_enc z @ r"
  by (simp_all add: rd_u16_def rd_u32_def rd_u64_def rd_int_SomeD)

lemma rd_many_append:
  assumes "\<And>x r. x \<in> set xs \<Longrightarrow> rd (wr x @ r) = Some (x, r)" and "length xs = n"
  shows "rd_many n rd (concat (map wr xs) @ r) = Some (xs, r)"
  using assms by (induction xs arbitrary: n) auto

lemma rd_many_SomeD:
  assumes "\<And>b x r. rd b = Some (x, r) \<Longrightarrow> b = wr x @ r"
  shows "rd_many n rd b = Some (xs, r) \<Longrightarrow> b = concat (map wr xs) @ r \<and> length xs = n"
proof (induction n arbitrary: b xs)
  case (Suc n)
  then obtain x b' xs' where x: "rd b = Some (x, b')"
    and xs': "rd_many n rd b' = Some (xs', r)" and xs: "xs = x # xs'"
    by (auto simp: bind_eq_Some_conv)
  from assms [OF x] Suc.IH [OF xs'] xs show ?case by simp
qed auto

text \<open>\<open>slice::chunks(n)\<close> for \<open>n > 0\<close>.\<close>

function chunks :: "nat \<Rightarrow> 'a list \<Rightarrow> 'a list list" where
  "chunks n xs = (if n = 0 \<or> xs = [] then [] else take n xs # chunks n (drop n xs))"
  by pat_completeness auto
termination
  by (relation "measure (\<lambda>(n, xs). length xs)") auto

declare chunks.simps [simp del]

lemma chunks_Nil [simp]: "chunks n [] = []"
  by (simp add: chunks.simps)

lemma chunks_step: "0 < n \<Longrightarrow> xs \<noteq> [] \<Longrightarrow> chunks n xs = take n xs # chunks n (drop n xs)"
  by (simp add: chunks.simps [of n xs])

lemma concat_chunks [simp]: "0 < n \<Longrightarrow> concat (chunks n xs) = xs"
proof (induction n xs rule: chunks.induct)
  case (1 n xs)
  then show ?case by (cases "xs = []") (simp_all add: chunks_step)
qed

lemma chunks_length_le: "c \<in> set (chunks n xs) \<Longrightarrow> length c \<le> n \<and> c \<noteq> []"
proof (induction n xs rule: chunks.induct)
  case (1 n xs)
  then show ?case by (cases "n = 0 \<or> xs = []") (auto simp: chunks.simps [of n xs])
qed

lemma chunks_eq_Nil [simp]: "0 < n \<Longrightarrow> chunks n xs = [] \<longleftrightarrow> xs = []"
  by (cases "xs = []") (simp_all add: chunks_step)

text \<open>Every chunk but the last is full: chunk \<open>i\<close> starts at offset \<open>i * n\<close>.\<close>

lemma chunks_nth:
  "0 < n \<Longrightarrow> i < length (chunks n xs) \<Longrightarrow> chunks n xs ! i = take n (drop (i * n) xs)"
proof (induction n xs arbitrary: i rule: chunks.induct)
  case (1 n xs)
  then show ?case
    by (cases "xs = []"; cases i) (simp_all add: chunks_step add.commute)
qed

lemma length_chunks: "0 < n \<Longrightarrow> length (chunks n xs) = (length xs + n - 1) div n"
proof (induction n xs rule: chunks.induct)
  case (1 n xs)
  show ?case
  proof (cases "xs = []")
    case False
    with 1 have "length (chunks n xs) = Suc ((length xs - n + n - 1) div n)" by (simp add: chunks_step)
    also have "\<dots> = (length xs + n - 1) div n"
    proof (cases "length xs \<le> n")
      case True
      obtain m where m: "length xs = Suc m" using False by (cases xs) auto
      have "length xs + n - 1 = m + n" using m by simp
      moreover have "m div n = 0" using m True by simp
      ultimately have "(length xs + n - 1) div n = 1" using 1(2) by (simp only: div_add_self2)
      moreover have "length xs - n + n - 1 = n - 1" using True by simp
      moreover have "(n - 1) div n = 0" using 1(2) by simp
      ultimately show ?thesis by (simp only:)
    next
      case False
      then have "length xs + n - 1 = (length xs - n + n - 1) + n" by simp
      moreover have "(a + n) div n = Suc (a div n)" for a using 1(2) div_add_self2 [of n a] by simp
      ultimately show ?thesis by (simp only:)
    qed
    finally show ?thesis .
  qed (use 1(2) in simp)
qed

text \<open>Adjacent slices join.\<close>

lemma slice_get_join:
  assumes "slice_get s i j = Some t" and "slice_get s j k = Some u"
  shows "slice_get s i k = Some (t @ u)"
proof -
  from assms have "i \<le> j" "j \<le> k" "k \<le> length s" "t = take (j - i) (drop i s)" "u = take (k - j) (drop j s)"
    by (auto simp: slice_get_eq_Some)
  moreover from this have "take (k - i) (drop i s) = take (j - i) (drop i s) @ take (k - j) (drop j s)"
    using take_add [of "j - i" "k - j" "drop i s"] by simp
  ultimately show ?thesis by (simp add: slice_get_eq_Some)
qed

lemma slice_get_all: "slice_get s 0 n = Some t \<Longrightarrow> length s = n \<Longrightarrow> t = s"
  by (auto simp: slice_get_eq_Some)

lemma index_get_slice: "index_get s i = Some x \<Longrightarrow> slice_get s i (Suc i) = Some [x]"
  using Cons_nth_drop_Suc [of i s, symmetric] by (simp add: index_get_def slice_get_def split: if_splits)

section \<open>Strings\<close>

definition byte_of_char :: "char \<Rightarrow> u8" where
  "byte_of_char c = of_nat (of_char c)"

definition char_of_byte :: "u8 \<Rightarrow> char" where
  "char_of_byte b = char_of (unat b)"

text \<open>\<open>str::as_bytes\<close>, and byte-string literals \<open>b"..."\<close>.\<close>

definition as_bytes :: "str \<Rightarrow> bytes" where
  "as_bytes s = map byte_of_char s"

lemma char_of_byte_of_char [simp]: "char_of_byte (byte_of_char c) = c"
proof -
  have "(of_char c :: nat) < 256" by (metis mod_less_divisor of_char_mod_256 zero_less_numeral)
  then show ?thesis by (simp add: char_of_byte_def byte_of_char_def unat_of_nat)
qed

lemma byte_of_char_of_byte [simp]: "byte_of_char (char_of_byte b) = b"
  by (simp add: char_of_byte_def byte_of_char_def)

lemma length_as_bytes [simp]: "length (as_bytes s) = length s"
  by (simp add: as_bytes_def)

lemma inj_byte_of_char: "inj byte_of_char"
  by (metis char_of_byte_of_char injI)

lemma as_bytes_inject [simp]: "as_bytes s = as_bytes t \<longleftrightarrow> s = t"
  by (simp add: as_bytes_def inj_map_eq_map [OF inj_byte_of_char])

definition utf8_cont :: "u8 \<Rightarrow> bool" where
  "utf8_cont b \<longleftrightarrow> 0x80 \<le> b \<and> b \<le> 0xBF"

text \<open>
  The well-formed byte sequences \<open>core::str::from_utf8\<close> accepts (Unicode table 3-7):
  no overlong forms, no surrogates, nothing above U+10FFFF.
\<close>

fun utf8_valid :: "bytes \<Rightarrow> bool" where
  "utf8_valid [] = True"
| "utf8_valid (a # r) =
    (if a < 0x80 then utf8_valid r
     else if a < 0xC2 then False
     else if a \<le> 0xDF then
       (case r of b # r' \<Rightarrow> utf8_cont b \<and> utf8_valid r' | _ \<Rightarrow> False)
     else if a \<le> 0xEF then
       (case r of b # c # r' \<Rightarrow>
          (if a = 0xE0 then 0xA0 \<le> b \<and> b \<le> 0xBF
           else if a = 0xED then 0x80 \<le> b \<and> b \<le> 0x9F
           else utf8_cont b) \<and> utf8_cont c \<and> utf8_valid r'
        | _ \<Rightarrow> False)
     else if a \<le> 0xF4 then
       (case r of b # c # d # r' \<Rightarrow>
          (if a = 0xF0 then 0x90 \<le> b \<and> b \<le> 0xBF
           else if a = 0xF4 then 0x80 \<le> b \<and> b \<le> 0x8F
           else utf8_cont b) \<and> utf8_cont c \<and> utf8_cont d \<and> utf8_valid r'
        | _ \<Rightarrow> False)
     else False)"

declare utf8_valid.simps(2) [simp del]

text \<open>A Rust \<open>str\<close> is always well-formed UTF-8.\<close>

definition valid_str :: "str \<Rightarrow> bool" where
  "valid_str s \<longleftrightarrow> utf8_valid (as_bytes s)"

definition from_utf8 :: "bytes \<Rightarrow> str option" where
  "from_utf8 b = (if utf8_valid b then Some (map char_of_byte b) else None)"

lemma from_utf8_as_bytes [simp]: "valid_str s \<Longrightarrow> from_utf8 (as_bytes s) = Some s"
  by (simp add: valid_str_def from_utf8_def as_bytes_def comp_def)

lemma as_bytes_map_char [simp]: "as_bytes (map char_of_byte b) = b"
  by (simp add: as_bytes_def comp_def)

lemma from_utf8_SomeD [read_dests]: "from_utf8 b = Some s \<Longrightarrow> b = as_bytes s \<and> valid_str s"
  by (auto simp: from_utf8_def valid_str_def split: if_splits)

lemma utf8_valid_ascii: "\<forall>b \<in> set bs. b < 0x80 \<Longrightarrow> utf8_valid bs"
  by (induction bs) (auto simp: utf8_valid.simps(2))

text \<open>\<open>u8::is_ascii_*\<close> on the characters of a \<open>str\<close>.\<close>

definition is_ascii_digit :: "char \<Rightarrow> bool" where
  "is_ascii_digit c \<longleftrightarrow> 48 \<le> (of_char c :: nat) \<and> (of_char c :: nat) \<le> 57"

definition is_ascii_lowercase :: "char \<Rightarrow> bool" where
  "is_ascii_lowercase c \<longleftrightarrow> 97 \<le> (of_char c :: nat) \<and> (of_char c :: nat) \<le> 122"

definition is_ascii_uppercase :: "char \<Rightarrow> bool" where
  "is_ascii_uppercase c \<longleftrightarrow> 65 \<le> (of_char c :: nat) \<and> (of_char c :: nat) \<le> 90"

definition is_ascii_alphanumeric :: "char \<Rightarrow> bool" where
  "is_ascii_alphanumeric c \<longleftrightarrow> is_ascii_digit c \<or> is_ascii_lowercase c \<or> is_ascii_uppercase c"

definition is_ascii_graphic :: "char \<Rightarrow> bool" where
  "is_ascii_graphic c \<longleftrightarrow> 33 \<le> (of_char c :: nat) \<and> (of_char c :: nat) \<le> 126"

lemma byte_of_char_ascii: "(of_char c :: nat) < 128 \<Longrightarrow> byte_of_char c < 0x80"
  by (simp add: byte_of_char_def word_less_nat_alt unat_of_nat)

lemma ascii_valid_str: "\<forall>c \<in> set s. (of_char c :: nat) < 128 \<Longrightarrow> valid_str s"
  unfolding valid_str_def by (rule utf8_valid_ascii) (auto simp: as_bytes_def intro: byte_of_char_ascii)

lemma ascii_classes_less_128:
  "is_ascii_digit c \<Longrightarrow> (of_char c :: nat) < 128"
  "is_ascii_lowercase c \<Longrightarrow> (of_char c :: nat) < 128"
  "is_ascii_alphanumeric c \<Longrightarrow> (of_char c :: nat) < 128"
  "is_ascii_graphic c \<Longrightarrow> (of_char c :: nat) < 128"
  by (auto simp: is_ascii_digit_def is_ascii_lowercase_def is_ascii_uppercase_def
      is_ascii_alphanumeric_def is_ascii_graphic_def)

text \<open>Decimal and two-digit hexadecimal output of \<open>write!\<close>.\<close>

definition digit :: "nat \<Rightarrow> char" where
  "digit d = (if d < 10 then char_of (48 + d) else char_of (87 + d))"

fun dec :: "nat \<Rightarrow> str" where
  "dec n = (if n < 10 then [digit n] else dec (n div 10) @ [digit (n mod 10)])"

declare dec.simps [simp del]

definition hex2 :: "u8 \<Rightarrow> str" where
  "hex2 b = [digit (unat b div 16), digit (unat b mod 16)]"

text \<open>
  \<open>write!\<close> into a string of capacity \<open>cap\<close>: the pieces are appended in turn, and the
  first one that does not fit stops the output (the error is ignored by the callers).
\<close>

fun write_pieces :: "nat \<Rightarrow> str \<Rightarrow> str list \<Rightarrow> str" where
  "write_pieces cap out [] = out"
| "write_pieces cap out (p # ps) =
     (if length out + length p \<le> cap then write_pieces cap (out @ p) ps else out)"

lemma write_pieces_length: "length out \<le> cap \<Longrightarrow> length (write_pieces cap out ps) \<le> cap"
  by (induction cap out ps rule: write_pieces.induct) auto

section \<open>Capacity-bounded containers\<close>

text \<open>
  The kernel's fixed-capacity vectors, deques and strings are lists; the capacity is an
  argument of the operations that can fail because of it.
\<close>

definition bounded_push :: "nat \<Rightarrow> 'a list \<Rightarrow> 'a \<Rightarrow> 'a list option" where
  "bounded_push cap xs x = (if length xs < cap then Some (xs @ [x]) else None)"

definition bounded_str :: "nat \<Rightarrow> str \<Rightarrow> str option" where
  "bounded_str cap s = (if length s \<le> cap then Some s else None)"

lemma bounded_push_SomeD:
  "bounded_push cap xs x = Some ys \<Longrightarrow> ys = xs @ [x] \<and> length ys \<le> cap"
  by (auto simp: bounded_push_def split: if_splits)

lemma bounded_str_SomeD: "bounded_str cap s = Some t \<Longrightarrow> t = s \<and> length t \<le> cap"
  by (auto simp: bounded_str_def split: if_splits)

text \<open>\<open>iter().position(p)\<close> and \<open>iter().find(p)\<close>.\<close>

fun position :: "('a \<Rightarrow> bool) \<Rightarrow> 'a list \<Rightarrow> nat option" where
  "position p [] = None"
| "position p (x # xs) = (if p x then Some 0 else map_option Suc (position p xs))"

lemma position_SomeD:
  "position p xs = Some i \<Longrightarrow> i < length xs \<and> p (xs ! i) \<and> (\<forall>j < i. \<not> p (xs ! j))"
proof (induction xs arbitrary: i)
  case (Cons x xs)
  show ?case
  proof (cases "p x")
    case False
    with Cons.prems obtain k where "position p xs = Some k" and "i = Suc k" by auto
    with Cons.IH [of k] False show ?thesis by (auto simp: less_Suc_eq_0_disj)
  qed (use Cons.prems in auto)
qed simp

lemma position_NoneD: "position p xs = None \<longleftrightarrow> (\<forall>x \<in> set xs. \<not> p x)"
  by (induction xs) auto

lemma find_SomeD: "List.find p xs = Some x \<Longrightarrow> x \<in> set xs \<and> p x"
  by (auto simp: find_Some_iff)

section \<open>Interfaces\<close>

text \<open>
  A strict codec: what was encoded decodes to itself, and only canonical encodings
  decode. Its clients are the signature checks, which digest the encoding of a value and
  rely on one value having one encoding.
\<close>

locale codec =
  fixes enc :: "'a \<Rightarrow> bytes" and dec :: "bytes \<Rightarrow> 'a option" and wf :: "'a \<Rightarrow> bool"
  assumes dec_enc: "wf x \<Longrightarrow> dec (enc x) = Some x"
    and enc_dec: "dec b = Some x \<Longrightarrow> enc x = b"
    and wf_dec: "dec b = Some x \<Longrightarrow> wf x"
begin

lemma dec_iff: "dec b = Some x \<longleftrightarrow> wf x \<and> enc x = b"
  using dec_enc enc_dec wf_dec by blast

lemma enc_inject: "wf x \<Longrightarrow> wf y \<Longrightarrow> enc x = enc y \<longleftrightarrow> x = y"
  using dec_enc by (metis option.inject)

lemma dec_not_malleable: "dec b = Some x \<Longrightarrow> dec c = Some x \<Longrightarrow> b = c"
  using enc_dec by blast

end

text \<open>A state machine driven by a list of operations, with an inductive invariant.\<close>

locale machine =
  fixes step :: "'s \<Rightarrow> 'op \<Rightarrow> 's" and inv :: "'s \<Rightarrow> bool"
  assumes inv_step: "inv s \<Longrightarrow> inv (step s op)"
begin

lemma inv_run: "inv s \<Longrightarrow> inv (foldl step s ops)"
  by (induction ops arbitrary: s) (auto intro: inv_step)

end

text \<open>
  A machine whose states only move up in an order (a decision that stays, a counter that
  grows).
\<close>

locale monotone_machine = machine +
  fixes le :: "'s \<Rightarrow> 's \<Rightarrow> bool"
  assumes le_refl: "le s s" and le_trans: "le s t \<Longrightarrow> le t u \<Longrightarrow> le s u"
    and le_step: "inv s \<Longrightarrow> le s (step s op)"
begin

lemma le_run: "inv s \<Longrightarrow> le s (foldl step s ops)"
proof (induction ops arbitrary: s)
  case (Cons op ops)
  then have "le (step s op) (foldl step (step s op) ops)" by (auto intro: inv_step)
  with Cons.prems show ?case by (auto intro: le_trans le_step)
qed (simp add: le_refl)

end

end
