(* ===== verification/Frame.thy ===== *)
theory Frame
  imports Prelude
begin

text \<open>
  The frame layer of the host link: \<open>link/src/lib.rs\<close> (CRC-32, \<open>encode_with_flags\<close> and
  the streaming \<open>Decoder\<close>) and the receive loop \<open>poll\<close> of \<open>src/link.rs\<close> that drives it.
  The decoder keeps the source's fixed buffer with its fill level and the number of bytes
  of the frame handed out last; \<open>live\<close> is its abstraction to the unread input. Shown: the
  decoder is sound (a returned frame was encoded in the input), frames survive any
  chunking of the stream, it never gets stuck full, and the checksum detects every
  corruption confined to one byte.
\<close>

section \<open>Constants and checksum\<close>

definition MAGIC :: bytes where "MAGIC = as_bytes ''CDK1''"
definition MAX_PAYLOAD :: nat where "MAX_PAYLOAD = 1024"
definition HEADER :: nat where "HEADER = 8"
definition TRAILER :: nat where "TRAILER = 4"
definition MAX_FRAME :: nat where "MAX_FRAME = HEADER + MAX_PAYLOAD + TRAILER"

text \<open>Frame kinds and the fragment flag.\<close>

definition HELLO :: u8 where "HELLO = 1"
definition PING :: u8 where "PING = 2"
definition PONG :: u8 where "PONG = 3"
definition DATA :: u8 where "DATA = 4"
definition HANDSHAKE :: u8 where "HANDSHAKE = 5"
definition SEALED :: u8 where "SEALED = 6"
definition FLAG_MORE :: u8 where "FLAG_MORE = 1"

datatype frame_error = PayloadTooLarge | BufferTooSmall

lemmas frame_consts = MAX_PAYLOAD_def HEADER_def TRAILER_def MAX_FRAME_def

lemma MAGIC_eq [code]: "MAGIC = [0x43, 0x44, 0x4B, 0x31]"
  by (simp add: MAGIC_def as_bytes_def byte_of_char_def)

lemma length_MAGIC [simp]: "length MAGIC = 4"
  by (simp add: MAGIC_eq)

text \<open>One iteration of the inner loop, one byte, and the whole checksum.\<close>

definition crc32_bit :: "u32 \<Rightarrow> u32" where
  "crc32_bit crc = (let mask = - (crc AND 1) in drop_bit 1 crc XOR (0xEDB88320 AND mask))"

definition crc32_byte :: "u32 \<Rightarrow> u8 \<Rightarrow> u32" where
  "crc32_byte crc b = (crc32_bit ^^ 8) (crc XOR ucast b)"

definition crc32 :: "bytes \<Rightarrow> u32" where
  "crc32 data = NOT (foldl crc32_byte 0xFFFFFFFF data)"

section \<open>Encoding\<close>

text \<open>
  The encoder writes into a caller-supplied buffer; the model returns the buffer as it is
  left together with the result.
\<close>

definition frame_body :: "u8 \<Rightarrow> u8 \<Rightarrow> bytes \<Rightarrow> bytes" where
  "frame_body kind flags payload =
     [kind, flags] @ le_enc (of_nat (length payload) :: u16) @ payload"

definition frame_bytes :: "u8 \<Rightarrow> u8 \<Rightarrow> bytes \<Rightarrow> bytes" where
  "frame_bytes kind flags payload =
     MAGIC @ frame_body kind flags payload @ le_enc (crc32 (frame_body kind flags payload))"

definition encode_with_flags ::
    "u8 \<Rightarrow> u8 \<Rightarrow> bytes \<Rightarrow> bytes \<Rightarrow> (nat, frame_error) result \<times> bytes" where
  "encode_with_flags kind flags payload out =
     (if length payload > MAX_PAYLOAD then (Err PayloadTooLarge, out)
      else let total = HEADER + length payload + TRAILER in
        if length out < total then (Err BufferTooSmall, out)
        else (Ok total, frame_bytes kind flags payload @ drop total out))"

definition encode :: "u8 \<Rightarrow> bytes \<Rightarrow> bytes \<Rightarrow> (nat, frame_error) result \<times> bytes" where
  "encode kind payload out = encode_with_flags kind 0 payload out"

section \<open>The streaming decoder\<close>

record frame =
  f_kind :: u8
  f_flags :: u8
  f_payload :: bytes

record decoder_stats =
  frames :: nat
  crc_errors :: nat
  skipped :: nat
  oversized :: nat

record decoder =
  buf :: bytes
  len :: nat
  pending :: nat
  stats :: decoder_stats

definition decoder_new :: decoder where
  "decoder_new = \<lparr>buf = replicate MAX_FRAME 0, len = 0, pending = 0,
     stats = \<lparr>frames = 0, crc_errors = 0, skipped = 0, oversized = 0\<rparr>\<rparr>"

text \<open>\<open>copy_within(n..len, 0)\<close> moves the unread bytes down; the tail keeps stale bytes.\<close>

definition drop_front :: "nat \<Rightarrow> decoder \<Rightarrow> decoder" where
  "drop_front n d =
     (let m = len d - n in
      d\<lparr>buf := take m (drop n (buf d)) @ drop m (buf d), len := m\<rparr>)"

definition settle :: "decoder \<Rightarrow> decoder" where
  "settle d = (if pending d > 0 then drop_front (pending d) (d\<lparr>pending := 0\<rparr>) else d)"

definition push :: "bytes \<Rightarrow> decoder \<Rightarrow> nat \<times> decoder" where
  "push bs d =
     (let d = settle d;
          n = min (length bs) (length (buf d) - len d) in
      (n, d\<lparr>buf := take (len d) (buf d) @ take n bs @ drop (len d + n) (buf d),
            len := len d + n\<rparr>))"

definition magic_at :: "decoder \<Rightarrow> nat \<Rightarrow> bool" where
  "magic_at d i =
     (let tail = take (len d - i) (drop i (buf d)); k = min (length tail) 4 in
      take k tail = take k MAGIC)"

text \<open>Align on a magic: \<open>None\<close> when no byte of the buffer can start one.\<close>

definition align :: "decoder \<Rightarrow> decoder option \<times> decoder" where
  "align d =
     (case List.find (magic_at d) [0..<len d] of
        Some i \<Rightarrow>
          (if i = 0 then (Some d, d)
           else let d' = drop_front i (d\<lparr>stats := (stats d)\<lparr>skipped := skipped (stats d) + i\<rparr>\<rparr>)
                in (Some d', d'))
      | None \<Rightarrow>
          (None, d\<lparr>stats := (stats d)\<lparr>skipped := skipped (stats d) + len d\<rparr>, len := 0\<rparr>))"

definition header_plen :: "decoder \<Rightarrow> nat" where
  "header_plen d = unat (le_dec [buf d ! 6, buf d ! 7] :: u16)"

definition stored_crc :: "decoder \<Rightarrow> nat \<Rightarrow> u32" where
  "stored_crc d plen =
     le_dec [buf d ! (8 + plen), buf d ! (9 + plen), buf d ! (10 + plen), buf d ! (11 + plen)]"

definition actual_crc :: "decoder \<Rightarrow> nat \<Rightarrow> u32" where
  "actual_crc d plen = crc32 (take (4 + plen) (drop 4 (buf d)))"

definition take_frame :: "decoder \<Rightarrow> nat \<Rightarrow> frame option \<times> decoder" where
  "take_frame d plen =
     (Some \<lparr>f_kind = buf d ! 4, f_flags = buf d ! 5,
            f_payload = take plen (drop HEADER (buf d))\<rparr>,
      d\<lparr>stats := (stats d)\<lparr>frames := frames (stats d) + 1\<rparr>,
        pending := HEADER + plen + TRAILER\<rparr>)"

definition skip_oversized :: "decoder \<Rightarrow> decoder" where
  "skip_oversized d =
     drop_front 1 (d\<lparr>stats := (stats d)\<lparr>oversized := oversized (stats d) + 1\<rparr>\<rparr>)"

definition skip_bad_crc :: "decoder \<Rightarrow> decoder" where
  "skip_bad_crc d =
     drop_front 1 (d\<lparr>stats := (stats d)\<lparr>crc_errors := crc_errors (stats d) + 1\<rparr>\<rparr>)"

lemma len_drop_front [simp]: "len (drop_front n d) = len d - n"
  by (simp add: drop_front_def Let_def)

lemma pending_drop_front [simp]: "pending (drop_front n d) = pending d"
  by (simp add: drop_front_def Let_def)

lemma align_len: "align d = (Some d', d'') \<Longrightarrow> len d' \<le> len d"
  by (auto simp: align_def Let_def split: option.splits if_splits)

text \<open>One iteration of the loop: go on with another state, or return.\<close>

datatype loop_outcome = Continue decoder | Return "frame option" decoder

definition frame_step :: "decoder \<Rightarrow> loop_outcome" where
  "frame_step d0 =
     (case align d0 of
        (None, d) \<Rightarrow> Return None d
      | (Some d, _) \<Rightarrow>
          if len d < HEADER then Return None d
          else let plen = header_plen d in
            if plen > MAX_PAYLOAD then Continue (skip_oversized d)
            else if len d < HEADER + plen + TRAILER then Return None d
            else if stored_crc d plen \<noteq> actual_crc d plen then Continue (skip_bad_crc d)
            else (case take_frame d plen of (f, d') \<Rightarrow> Return f d'))"

lemma frame_step_Continue_len: "frame_step d = Continue d' \<Longrightarrow> len d' < len d"
  by (auto simp: frame_step_def Let_def skip_oversized_def skip_bad_crc_def HEADER_def
      take_frame_def split: prod.splits option.splits if_splits dest!: align_len)

function next_frame_loop :: "decoder \<Rightarrow> frame option \<times> decoder" where
  "next_frame_loop d =
     (case frame_step d of Continue d' \<Rightarrow> next_frame_loop d' | Return f d' \<Rightarrow> (f, d'))"
  by pat_completeness auto
termination
  by (relation "measure len") (auto dest: frame_step_Continue_len)

declare next_frame_loop.simps [simp del]

definition next_frame :: "decoder \<Rightarrow> frame option \<times> decoder" where
  "next_frame d = next_frame_loop (settle d)"

text \<open>
  The receive loop: \<open>drain\<close> hands out frames until none is complete, \<open>poll_bytes\<close> is the
  callback of \<open>poll\<close> on one piece of device input, \<open>poll_all\<close> runs it over the pieces the
  device delivers.
\<close>

lemma frame_step_Return_len:
  "frame_step d = Return f d' \<Longrightarrow>
     len d' \<le> len d \<and> (if f = None then pending d' = pending d else 0 < pending d' \<and> pending d' \<le> len d')"
  by (auto simp: frame_step_def Let_def take_frame_def align_def frame_consts
      split: prod.splits option.splits if_splits)

lemma frame_step_Continue_pending: "frame_step d = Continue d' \<Longrightarrow> pending d' = pending d"
  by (auto simp: frame_step_def Let_def take_frame_def align_def skip_oversized_def skip_bad_crc_def
      split: prod.splits option.splits if_splits)

lemma next_frame_loop_len:
  "next_frame_loop d = (f, d') \<Longrightarrow>
     len d' \<le> len d \<and> (if f = None then pending d' = pending d else 0 < pending d' \<and> pending d' \<le> len d')"
proof (induction d rule: next_frame_loop.induct)
  case (1 d)
  show ?case
  proof (cases "frame_step d")
    case (Continue e)
    with 1(2) have "next_frame_loop e = (f, d')" by (simp add: next_frame_loop.simps [of d])
    from 1(1) [OF Continue this] show ?thesis
      using frame_step_Continue_len [OF Continue] frame_step_Continue_pending [OF Continue] by auto
  next
    case (Return g e)
    with 1(2) have "frame_step d = Return f d'" by (auto simp: next_frame_loop.simps [of d])
    then show ?thesis by (rule frame_step_Return_len)
  qed
qed

lemma len_settle: "len (settle d) = len d - pending d" "pending (settle d) = 0"
  by (auto simp: settle_def)

lemma next_frame_Some_decreases:
  assumes "next_frame d = (Some f, d')"
  shows "len d' - pending d' < len d - pending d"
proof -
  from assms have "next_frame_loop (settle d) = (Some f, d')" by (simp add: next_frame_def)
  from next_frame_loop_len [OF this]
  have "len d' \<le> len d - pending d" "0 < pending d'" "pending d' \<le> len d'"
    by (auto simp: len_settle)
  then show ?thesis by linarith
qed

function drain :: "decoder \<Rightarrow> frame list \<times> decoder" where
  "drain d =
     (case next_frame d of
        (None, d') \<Rightarrow> ([], d')
      | (Some f, d') \<Rightarrow> (case drain d' of (fs, d'') \<Rightarrow> (f # fs, d'')))"
  by pat_completeness auto
termination
  by (relation "measure (\<lambda>d. len d - pending d)") (auto dest!: next_frame_Some_decreases [OF sym])

declare drain.simps [simp del]

partial_function (option) poll_bytes :: "decoder \<Rightarrow> bytes \<Rightarrow> (frame list \<times> decoder) option" where
  "poll_bytes d bs =
     (if bs = [] then Some ([], d)
      else let p = push bs d; r = drain (snd p) in
        do { (gs, d') \<leftarrow> poll_bytes (snd r) (drop (fst p) bs); Some (fst r @ gs, d') })"

fun poll_all :: "decoder \<Rightarrow> bytes list \<Rightarrow> (frame list \<times> decoder) option" where
  "poll_all d [] = Some ([], d)"
| "poll_all d (bs # pieces) =
     do { (fs, d') \<leftarrow> poll_bytes d bs; (gs, d'') \<leftarrow> poll_all d' pieces; Some (fs @ gs, d'') }"

section \<open>The decoder as a scan of the unread bytes\<close>

text \<open>
  Reference definition on byte lists: skip to a possible magic, then wait for more bytes,
  skip one byte and look again, or deliver the frame (which stays at the front).
\<close>

definition used :: "decoder \<Rightarrow> bytes" where
  "used d = take (len d) (buf d)"

definition live :: "decoder \<Rightarrow> bytes" where
  "live d = drop (pending d) (used d)"

definition decoder_inv :: "decoder \<Rightarrow> bool" where
  "decoder_inv d \<longleftrightarrow> length (buf d) = MAX_FRAME \<and> len d \<le> MAX_FRAME \<and> pending d \<le> len d"

definition magic_prefix :: "bytes \<Rightarrow> bool" where
  "magic_prefix b = (let k = min (length b) 4 in take k b = take k MAGIC)"

definition plen_of :: "bytes \<Rightarrow> nat" where
  "plen_of b = unat (le_dec [b ! 6, b ! 7] :: u16)"

definition crc_ok :: "bytes \<Rightarrow> bool" where
  "crc_ok b \<longleftrightarrow>
     (le_dec (take 4 (drop (8 + plen_of b) b)) :: u32) = crc32 (take (4 + plen_of b) (drop 4 b))"

definition frame_of :: "bytes \<Rightarrow> frame" where
  "frame_of b = \<lparr>f_kind = b ! 4, f_flags = b ! 5, f_payload = take (plen_of b) (drop HEADER b)\<rparr>"

function scan :: "bytes \<Rightarrow> frame option \<times> bytes" where
  "scan b0 =
     (case List.find (\<lambda>i. magic_prefix (drop i b0)) [0..<length b0] of
        None \<Rightarrow> (None, [])
      | Some i \<Rightarrow> let b = drop i b0 in
          if length b < HEADER then (None, b)
          else if plen_of b > MAX_PAYLOAD then scan (tl b)
          else if length b < HEADER + plen_of b + TRAILER then (None, b)
          else if \<not> crc_ok b then scan (tl b)
          else (Some (frame_of b), b))"
  by pat_completeness auto
termination
  by (relation "measure length") (auto simp: HEADER_def)

declare scan.simps [simp del]

lemma length_used: "decoder_inv d \<Longrightarrow> length (used d) = len d"
  by (simp add: used_def decoder_inv_def)

lemma used_nth: "i < len d \<Longrightarrow> used d ! i = buf d ! i"
  by (simp add: used_def)

lemma used_update [simp]:
  "used (d\<lparr>stats := s\<rparr>) = used d" "used (d\<lparr>pending := p\<rparr>) = used d"
  by (simp_all add: used_def)

lemma drop_front_inv:
  assumes "decoder_inv d" and "n \<le> len d" and "pending d \<le> len d - n"
  shows "decoder_inv (drop_front n d)" and "used (drop_front n d) = drop n (used d)"
proof -
  from assms have "length (take (len d - n) (drop n (buf d)) @ drop (len d - n) (buf d)) = MAX_FRAME"
    by (auto simp: decoder_inv_def min_def)
  with assms show "decoder_inv (drop_front n d)"
    by (auto simp: decoder_inv_def drop_front_def Let_def)
  from assms show "used (drop_front n d) = drop n (used d)"
    by (simp add: used_def drop_front_def Let_def decoder_inv_def drop_take min_def)
qed

lemma settle_inv:
  assumes "decoder_inv d"
  shows "decoder_inv (settle d)" and "used (settle d) = live d" and "pending (settle d) = 0"
proof -
  let ?e = "d\<lparr>pending := 0\<rparr>"
  have e: "decoder_inv ?e" and "pending d \<le> len ?e" and "pending ?e \<le> len ?e - pending d"
    using assms by (auto simp: decoder_inv_def)
  from drop_front_inv [OF this] show "decoder_inv (settle d)" and "used (settle d) = live d"
    using assms by (auto simp: settle_def live_def)
  show "pending (settle d) = 0" by (simp add: len_settle)
qed

lemma magic_at_used: "magic_at d = (\<lambda>i. magic_prefix (drop i (used d)))"
  by (simp add: fun_eq_iff magic_at_def magic_prefix_def used_def drop_take)


lemma align_None:
  assumes "align d = (None, d')"
  shows "List.find (\<lambda>i. magic_prefix (drop i (used d))) [0..<len d] = None"
    and "used d' = []" and "decoder_inv d \<Longrightarrow> pending d = 0 \<Longrightarrow> decoder_inv d' \<and> pending d' = 0"
  using assms by (auto simp: align_def magic_at_used Let_def used_def decoder_inv_def
      split: option.splits if_splits)

lemma align_Some:
  assumes inv: "decoder_inv d" "pending d = 0" and al: "align d = (Some d', d'')"
  obtains i where "List.find (\<lambda>i. magic_prefix (drop i (used d))) [0..<len d] = Some i"
    and "used d' = drop i (used d)" and "decoder_inv d'" and "pending d' = 0"
proof -
  from al obtain i where i: "List.find (\<lambda>i. magic_prefix (drop i (used d))) [0..<len d] = Some i"
    by (auto simp: align_def magic_at_used split: option.splits)
  then have "i < len d" by (auto dest: find_SomeD)
  let ?e = "d\<lparr>stats := (stats d)\<lparr>skipped := skipped (stats d) + i\<rparr>\<rparr>"
  have e: "decoder_inv ?e" "i \<le> len ?e" "pending ?e \<le> len ?e - i"
    using inv \<open>i < len d\<close> by (auto simp: decoder_inv_def)
  have d': "d' = (if i = 0 then d else drop_front i ?e)"
    using al i by (auto simp: align_def magic_at_used Let_def split: if_splits)
  have "used d' = drop i (used d)" "decoder_inv d'" "pending d' = 0"
    using inv drop_front_inv [OF e] by (auto simp: d')
  with i show thesis by (rule that)
qed

lemma header_plen_used: "8 \<le> len d \<Longrightarrow> header_plen d = plen_of (used d)"
  by (simp add: header_plen_def plen_of_def used_nth)

lemma crc_fields_used:
  assumes "decoder_inv d" and "HEADER + plen + TRAILER \<le> len d" and "plen = plen_of (used d)"
  shows "stored_crc d plen = actual_crc d plen \<longleftrightarrow> crc_ok (used d)"
proof -
  have "length (used d) = len d" using assms(1) by (rule length_used)
  then have "take 4 (drop (8 + plen) (used d)) =
      [used d ! (8 + plen), used d ! (9 + plen), used d ! (10 + plen), used d ! (11 + plen)]"
    using assms(2) by (auto simp: list_eq_iff_nth_eq frame_consts less_Suc_eq numeral_eq_Suc)
  moreover have "take (4 + plen) (drop 4 (used d)) = take (4 + plen) (drop 4 (buf d))"
    using assms(2) by (simp add: used_def drop_take frame_consts min_def)
  ultimately show ?thesis
    using assms(2,3) by (simp add: crc_ok_def stored_crc_def actual_crc_def used_nth frame_consts)
qed

lemma take_frame_used:
  assumes "HEADER + plen + TRAILER \<le> len d" and "plen = plen_of (used d)"
  shows "fst (take_frame d plen) = Some (frame_of (used d))"
proof -
  have "take plen (drop HEADER (used d)) = take plen (drop HEADER (buf d))"
    using assms(1) by (simp add: used_def drop_take frame_consts min_def)
  with assms show ?thesis by (simp add: take_frame_def frame_of_def used_nth frame_consts)
qed

lemma take_frame_inv:
  assumes "decoder_inv d" and "HEADER + plen + TRAILER \<le> len d" and "plen = plen_of (used d)"
  shows "\<exists>d'. take_frame d plen = (Some (frame_of (used d)), d') \<and> decoder_inv d' \<and>
    used d' = used d \<and> pending d' = HEADER + length (f_payload (frame_of (used d))) + TRAILER"
proof -
  have "length (f_payload (frame_of (used d))) = plen"
    using assms by (simp add: frame_of_def length_used)
  moreover have "take_frame d plen = (Some (frame_of (used d)), snd (take_frame d plen))"
    using take_frame_used [OF assms(2,3)] by (simp add: prod_eq_iff)
  ultimately show ?thesis
    using assms by (auto simp: take_frame_def decoder_inv_def used_def)
qed

lemma skip_inv:
  assumes "decoder_inv d" and "pending d = 0" and "HEADER \<le> len d"
  shows "decoder_inv (skip_oversized d)" "pending (skip_oversized d) = 0"
    "used (skip_oversized d) = tl (used d)"
    "decoder_inv (skip_bad_crc d)" "pending (skip_bad_crc d) = 0"
    "used (skip_bad_crc d) = tl (used d)"
proof -
  let ?a = "d\<lparr>stats := (stats d)\<lparr>oversized := oversized (stats d) + 1\<rparr>\<rparr>"
  let ?b = "d\<lparr>stats := (stats d)\<lparr>crc_errors := crc_errors (stats d) + 1\<rparr>\<rparr>"
  have "decoder_inv ?a" "1 \<le> len ?a" "pending ?a \<le> len ?a - 1"
    and "decoder_inv ?b" "1 \<le> len ?b" "pending ?b \<le> len ?b - 1"
    using assms by (auto simp: decoder_inv_def HEADER_def)
  with assms(2) show "decoder_inv (skip_oversized d)" "pending (skip_oversized d) = 0"
    "used (skip_oversized d) = tl (used d)"
    "decoder_inv (skip_bad_crc d)" "pending (skip_bad_crc d) = 0"
    "used (skip_bad_crc d) = tl (used d)"
    by (simp_all add: skip_oversized_def skip_bad_crc_def drop_front_inv drop_Suc)
qed

text \<open>The simulation: one loop iteration is one unfolding of the reference scan.\<close>

lemma frame_step_scan:
  assumes inv: "decoder_inv d" "pending d = 0"
  shows "case frame_step d of
      Continue d' \<Rightarrow> decoder_inv d' \<and> pending d' = 0 \<and> scan (used d) = scan (used d')
    | Return f d' \<Rightarrow> decoder_inv d' \<and> scan (used d) = (f, used d') \<and>
        pending d' = (case f of None \<Rightarrow> 0 | Some g \<Rightarrow> HEADER + length (f_payload g) + TRAILER)"
proof (cases "align d")
  case (Pair a d0)
  show ?thesis
  proof (cases a)
    case None
    with Pair have "align d = (None, d0)" by simp
    from align_None [OF this] inv show ?thesis
      using Pair None by (simp add: frame_step_def scan.simps [of "used d"] length_used)
  next
    case (Some d1)
    with Pair have al: "align d = (Some d1, d0)" by simp
    obtain i where i: "List.find (\<lambda>i. magic_prefix (drop i (used d))) [0..<len d] = Some i"
      and used: "used d1 = drop i (used d)" and inv1: "decoder_inv d1" "pending d1 = 0"
      by (rule align_Some [OF inv al])
    have sc: "scan (used d) =
        (if len d1 < HEADER then (None, used d1)
         else if plen_of (used d1) > MAX_PAYLOAD then scan (tl (used d1))
         else if len d1 < HEADER + plen_of (used d1) + TRAILER then (None, used d1)
         else if \<not> crc_ok (used d1) then scan (tl (used d1))
         else (Some (frame_of (used d1)), used d1))"
      using i inv by (simp add: scan.simps [of "used d"] length_used used [symmetric]
          length_used [OF inv1(1)] Let_def)
    have st: "frame_step d =
        (if len d1 < HEADER then Return None d1
         else let plen = header_plen d1 in
           if plen > MAX_PAYLOAD then Continue (skip_oversized d1)
           else if len d1 < HEADER + plen + TRAILER then Return None d1
           else if stored_crc d1 plen \<noteq> actual_crc d1 plen then Continue (skip_bad_crc d1)
           else (case take_frame d1 plen of (f, d') \<Rightarrow> Return f d'))"
      by (simp add: frame_step_def al)
    show ?thesis
    proof (cases "len d1 < HEADER")
      case True
      then show ?thesis using inv1 by (simp add: sc st)
    next
      case False
      then have pl: "header_plen d1 = plen_of (used d1)"
        by (simp add: header_plen_used HEADER_def)
      let ?plen = "plen_of (used d1)"
      show ?thesis
      proof (cases "HEADER + ?plen + TRAILER \<le> len d1")
        case True
        from take_frame_inv [OF inv1(1) True refl] crc_fields_used [OF inv1(1) True refl]
        show ?thesis
          using False True inv1 skip_inv [OF inv1] by (auto simp: sc st pl Let_def)
      qed (use False inv1 skip_inv [OF inv1] in \<open>auto simp: sc st pl Let_def\<close>)
    qed
  qed
qed

lemma next_frame_loop_scan:
  assumes "decoder_inv d" and "pending d = 0" and "next_frame_loop d = (f, d')"
  shows "decoder_inv d' \<and> scan (used d) = (f, used d') \<and>
    pending d' = (case f of None \<Rightarrow> 0 | Some g \<Rightarrow> HEADER + length (f_payload g) + TRAILER)"
  using assms
proof (induction d rule: next_frame_loop.induct)
  case (1 d)
  note st = frame_step_scan [OF 1(2,3)]
  show ?case
  proof (cases "frame_step d")
    case (Continue e)
    with 1(4) have "next_frame_loop e = (f, d')" by (simp add: next_frame_loop.simps [of d])
    with 1(1) [OF Continue] st Continue show ?thesis by simp
  next
    case (Return g e)
    with 1(4) have "g = f" "e = d'" by (auto simp: next_frame_loop.simps [of d])
    with st Return show ?thesis by auto
  qed
qed

lemma next_frame_scan:
  assumes "decoder_inv d" and "next_frame d = (f, d')"
  shows "decoder_inv d'" and "scan (live d) = (f, used d')"
    and "pending d' = (case f of None \<Rightarrow> 0 | Some g \<Rightarrow> HEADER + length (f_payload g) + TRAILER)"
  using next_frame_loop_scan [OF settle_inv(1,3) [OF assms(1)]] assms(2)
  by (simp_all add: next_frame_def settle_inv(2) [OF assms(1)])

lemma push_live:
  assumes inv: "decoder_inv d" and p: "push bs d = (n, d')"
  shows "decoder_inv d'" and "live d' = live d @ take n bs" and "pending d' = 0"
    and "n = min (length bs) (MAX_FRAME - length (live d))"
proof -
  let ?e = "settle d"
  note e = settle_inv [OF inv]
  have ln: "len ?e = length (live d)" using e(1,2) length_used [of ?e] by simp
  have buf: "length (buf ?e) = MAX_FRAME" and le: "len ?e \<le> MAX_FRAME"
    using e(1) by (auto simp: decoder_inv_def)
  have n: "n = min (length bs) (MAX_FRAME - len ?e)"
    and d': "d' = ?e\<lparr>buf := take (len ?e) (buf ?e) @ take n bs @ drop (len ?e + n) (buf ?e),
      len := len ?e + n\<rparr>"
    using p by (auto simp: push_def Let_def buf)
  show "decoder_inv d'" using e buf le by (auto simp: d' n decoder_inv_def min_def)
  show "pending d' = 0" using e by (simp add: d')
  then show "live d' = live d @ take n bs"
    using e(2) [symmetric] buf le by (simp add: live_def used_def d' n min_def)
  show "n = min (length bs) (MAX_FRAME - length (live d))" by (simp add: n ln)
qed

section \<open>What a scan finds\<close>

lemma find_upt_Suc:
  "List.find P [0..<Suc n] = (if P 0 then Some 0 else map_option Suc (List.find (\<lambda>i. P (Suc i)) [0..<n]))"
proof -
  have "List.find P (map Suc xs) = map_option Suc (List.find (\<lambda>i. P (Suc i)) xs)" for xs
    by (induction xs) simp_all
  then show ?thesis by (simp add: upt_conv_Cons map_Suc_upt [symmetric] del: upt_Suc map_Suc_upt)
qed

lemma scan_Nil [simp]: "scan [] = (None, [])"
  by (simp add: scan.simps)

lemma scan_Cons:
  "scan (x # b) = (let c = x # b in
     if \<not> magic_prefix c then scan b
     else if length c < HEADER then (None, c)
     else if plen_of c > MAX_PAYLOAD then scan b
     else if length c < HEADER + plen_of c + TRAILER then (None, c)
     else if \<not> crc_ok c then scan b
     else (Some (frame_of c), c))"
proof (cases "magic_prefix (x # b)")
  case True
  then show ?thesis
    by (simp add: scan.simps [of "x # b"] find_upt_Suc Let_def del: upt_Suc)
next
  case False
  then show ?thesis
    by (simp add: scan.simps [of "x # b"] scan.simps [of b] find_upt_Suc option.case_eq_if
        option.map_sel Let_def del: upt_Suc)
qed

lemma magic_prefix_append: "magic_prefix (c @ b) \<Longrightarrow> magic_prefix c"
proof -
  assume "magic_prefix (c @ b)"
  then have "take (min (length c) 4) (take (min (length (c @ b)) 4) (c @ b)) =
      take (min (length c) 4) (take (min (length (c @ b)) 4) MAGIC)"
    by (simp add: magic_prefix_def Let_def)
  then show ?thesis by (simp add: magic_prefix_def Let_def min_def split: if_splits)
qed

lemma magic_prefix_append_long: "4 \<le> length c \<Longrightarrow> magic_prefix (c @ b) = magic_prefix c"
  by (simp add: magic_prefix_def Let_def)

lemma plen_of_append: "HEADER \<le> length c \<Longrightarrow> plen_of (c @ b) = plen_of c"
  by (simp add: plen_of_def nth_append HEADER_def)

lemma crc_ok_append:
  "HEADER + plen_of c + TRAILER \<le> length c \<Longrightarrow> crc_ok (c @ b) = crc_ok c"
  by (simp add: crc_ok_def plen_of_append frame_consts)

lemma frame_of_append:
  "HEADER + plen_of c + TRAILER \<le> length c \<Longrightarrow> frame_of (c @ b) = frame_of c"
  by (simp add: frame_of_def plen_of_append frame_consts nth_append)

lemma scan_append_None: "scan a = (None, r) \<Longrightarrow> scan (a @ b) = scan (r @ b)"
proof (induction a)
  case (Cons x a)
  let ?c = "x # a"
  have app: "?c @ b = x # (a @ b)" by simp
  show ?case
  proof (cases "scan ?c = scan a")
    case True
    then have r: "scan (a @ b) = scan (r @ b)" using Cons by simp
    show ?thesis
    proof (cases "r = ?c")
      case False
      with Cons(2) have "scan (x # (a @ b)) = scan (a @ b)"
        using magic_prefix_append [of ?c b] plen_of_append [of ?c b] crc_ok_append [of ?c b]
        by (auto simp: scan_Cons Let_def HEADER_def split: if_splits)
      with r show ?thesis by simp
    qed simp
  next
    case False
    with Cons(2) have "r = ?c" by (auto simp: scan_Cons Let_def split: if_splits)
    then show ?thesis by simp
  qed
qed simp

lemma scan_append_Some: "scan a = (Some f, r) \<Longrightarrow> scan (a @ b) = (Some f, r @ b)"
proof (induction a)
  case (Cons x a)
  let ?c = "x # a"
  show ?case
    using Cons magic_prefix_append [of ?c b] magic_prefix_append_long [of ?c b]
      plen_of_append [of ?c b] crc_ok_append [of ?c b] frame_of_append [of ?c b]
    by (auto simp: scan_Cons Let_def HEADER_def split: if_splits)
qed simp

lemma scan_idem: "scan a = (None, r) \<Longrightarrow> scan r = (None, r)"
  using scan_append_None [of a r "[]"] by simp

lemma scan_rest_suffix: "scan b = (f, r) \<Longrightarrow> \<exists>pre. b = pre @ r"
proof (induction b)
  case (Cons x b)
  then show ?case
    by (auto simp: scan_Cons Let_def split: if_splits intro: exI [of _ "x # _"])
qed simp

text \<open>A drained decoder has room for at least one more byte.\<close>

lemma scan_None_length: "scan b = (None, r) \<Longrightarrow> length r < MAX_FRAME"
  by (induction b) (auto simp: scan_Cons Let_def frame_consts split: if_splits)

lemma length_frame_bytes [simp]:
  "length (frame_bytes k fl p) = HEADER + length p + TRAILER"
  by (simp add: frame_bytes_def frame_body_def frame_consts length_le_enc)

lemma length_2_conv: "length xs = 2 \<Longrightarrow> \<exists>a b. xs = [a, b]"
  by (cases xs; cases "tl xs") auto

text \<open>The bytes of a frame, field by field, and the converse.\<close>

lemma frame_bytes_fields:
  assumes "length p \<le> MAX_PAYLOAD" and "b = frame_bytes k fl p @ rest"
  shows "magic_prefix b" and "plen_of b = length p" and "crc_ok b"
    and "frame_of b = \<lparr>f_kind = k, f_flags = fl, f_payload = p\<rparr>"
proof -
  let ?l = "le_enc (of_nat (length p) :: u16)"
  have ll: "length ?l = 2" by (simp add: length_le_enc)
  then obtain l0 l1 where l: "?l = [l0, l1]"
    using length_2_conv by blast
  have u: "unat (of_nat (length p) :: u16) = length p"
    using assms(1) by (simp add: MAX_PAYLOAD_def unat_of_nat)
  have b: "b = [0x43, 0x44, 0x4B, 0x31, k, fl, l0, l1] @ p @
      le_enc (crc32 (frame_body k fl p)) @ rest"
    by (simp add: assms(2) frame_bytes_def frame_body_def l MAGIC_eq)
  show "magic_prefix b" by (simp add: b magic_prefix_def MAGIC_eq Let_def)
  show pl: "plen_of b = length p"
    using u arg_cong [OF l, of "\<lambda>x. unat (le_dec x :: u16)"] by (simp add: b plen_of_def)
  show "frame_of b = \<lparr>f_kind = k, f_flags = fl, f_payload = p\<rparr>"
    by (simp add: frame_of_def pl HEADER_def) (simp add: b)
  have "drop 4 b = frame_body k fl p @ le_enc (crc32 (frame_body k fl p)) @ rest"
    "length (frame_body k fl p) = 4 + length p"
    by (simp_all add: b frame_body_def l)
  then have "take (4 + length p) (drop 4 b) = frame_body k fl p" by simp
  moreover have "drop (8 + length p) b = drop (length p) (drop 8 b)" by (simp add: add.commute)
  then have "take 4 (drop (8 + length p) b) = le_enc (crc32 (frame_body k fl p))"
    by (simp add: b length_le_enc)
  ultimately show "crc_ok b" by (simp add: crc_ok_def pl le_dec_enc_sizes)
qed

lemma frame_bytes_complete:
  assumes "magic_prefix b" and "HEADER + plen_of b + TRAILER \<le> length b" and "crc_ok b"
  shows "\<exists>rest. b = frame_bytes (f_kind (frame_of b)) (f_flags (frame_of b)) (f_payload (frame_of b)) @ rest"
proof -
  define n where "n = plen_of b"
  have len: "12 + n \<le> length b" using assms(2) by (simp add: n_def frame_consts)
  define p where "p = take n (drop 8 b)"
  have lp: "length p = n" using len by (simp add: p_def)
  have pp: "take n (drop 8 b) = p" by (simp add: p_def)
  have m: "take 4 b = MAGIC" using assms(1) len by (simp add: magic_prefix_def Let_def)
  have hd: "take 4 (drop 4 b) = [b ! 4, b ! 5, b ! 6, b ! 7]"
    using len by (auto simp: list_eq_iff_nth_eq less_Suc_eq numeral_eq_Suc)
  have "[b ! 6, b ! 7] = le_enc (le_dec [b ! 6, b ! 7] :: u16)"
    by (simp add: le_enc_dec_sizes)
  also have "(le_dec [b ! 6, b ! 7] :: u16) = of_nat n" by (simp add: n_def plen_of_def)
  finally have l: "[b ! 6, b ! 7] = le_enc (of_nat (length p) :: u16)" by (simp add: lp)
  have body: "take (4 + n) (drop 4 b) = frame_body (b ! 4) (b ! 5) p"
    by (simp add: take_add hd frame_body_def l [symmetric] pp)
  have "le_enc (crc32 (take (4 + n) (drop 4 b))) = take 4 (drop (8 + n) b)"
    using assms(3) len le_enc_dec_sizes(2) [of "take 4 (drop (8 + n) b)"]
    by (simp add: crc_ok_def n_def [symmetric])
  then have "take (12 + n) b = frame_bytes (b ! 4) (b ! 5) p"
    using m body take_add [of "4 + n" 4 "drop 4 b"] take_add [of 4 "8 + n" b]
    by (simp add: frame_bytes_def add.commute add.left_commute)
  then have "b = frame_bytes (b ! 4) (b ! 5) p @ drop (12 + n) b"
    by (metis append_take_drop_id)
  then show ?thesis by (auto simp: frame_of_def n_def [symmetric] p_def HEADER_def)
qed

lemma scan_frame_bytes:
  assumes "length p \<le> MAX_PAYLOAD"
  shows "scan (frame_bytes k fl p @ rest) =
    (Some \<lparr>f_kind = k, f_flags = fl, f_payload = p\<rparr>, frame_bytes k fl p @ rest)"
proof -
  define b where "b = frame_bytes k fl p @ rest"
  note f = frame_bytes_fields [OF assms b_def]
  have "HEADER + plen_of b + TRAILER \<le> length b" by (simp add: f(2)) (simp add: b_def)
  moreover obtain x b' where "b = x # b'" by (cases b) (use calculation in \<open>auto simp: HEADER_def\<close>)
  ultimately have "scan b = (Some \<lparr>f_kind = k, f_flags = fl, f_payload = p\<rparr>, b)"
    using f assms by (auto simp: scan_Cons Let_def HEADER_def)
  then show ?thesis by (simp add: b_def)
qed

lemma scan_sound:
  "scan b = (Some f, r) \<Longrightarrow>
     length (f_payload f) \<le> MAX_PAYLOAD \<and>
     (\<exists>rest. r = frame_bytes (f_kind f) (f_flags f) (f_payload f) @ rest)"
proof (induction b)
  case (Cons x b)
  show ?case
  proof (cases "scan (x # b) = scan b")
    case False
    then have "f = frame_of (x # b)" "r = x # b" "plen_of (x # b) \<le> MAX_PAYLOAD"
      "magic_prefix (x # b)" "HEADER + plen_of (x # b) + TRAILER \<le> length (x # b)" "crc_ok (x # b)"
      using Cons(2) by (auto simp: scan_Cons Let_def split: if_splits)
    then show ?thesis using frame_bytes_complete [of "x # b"] by (simp add: frame_of_def)
  qed (use Cons in simp)
qed simp

lemma scan_Some_decreases:
  assumes "scan b = (Some f, r)"
  shows "length r - (HEADER + length (f_payload f) + TRAILER) < length b"
  using scan_sound [OF assms] scan_rest_suffix [OF assms] by (auto simp: frame_consts)

section \<open>The whole stream\<close>

text \<open>
  Reference reading of a byte stream without buffer limit: deliver frames as long as a scan
  finds one; the second component is what remains unread.
\<close>

function deframe :: "bytes \<Rightarrow> frame list \<times> bytes" where
  "deframe b =
     (case scan b of
        (None, r) \<Rightarrow> ([], r)
      | (Some f, r) \<Rightarrow>
          (case deframe (drop (HEADER + length (f_payload f) + TRAILER) r) of
             (fs, r') \<Rightarrow> (f # fs, r')))"
  by pat_completeness auto
termination
  by (relation "measure length") (auto dest!: scan_Some_decreases [OF sym])

declare deframe.simps [simp del]

text \<open>Reading in two pieces gives what reading at once gives.\<close>

lemma deframe_append:
  "deframe a = (fs, r) \<Longrightarrow> deframe (r @ b) = (gs, r') \<Longrightarrow> deframe (a @ b) = (fs @ gs, r')"
proof (induction a arbitrary: fs rule: deframe.induct)
  case (1 a)
  obtain fo c where sc: "scan a = (fo, c)" by fastforce
  show ?case
  proof (cases fo)
    case None
    with sc 1(2) have "fs = []" "r = c" by (auto simp: deframe.simps [of a])
    moreover have "scan (a @ b) = scan (c @ b)" using sc None by (simp add: scan_append_None)
    ultimately show ?thesis
      using 1(3) by (simp add: deframe.simps [of "a @ b"] deframe.simps [of "c @ b"])
  next
    case (Some f)
    let ?n = "HEADER + length (f_payload f) + TRAILER"
    obtain fs' where d: "deframe (drop ?n c) = (fs', r)" and fs: "fs = f # fs'"
      using sc Some 1(2) by (auto simp: deframe.simps [of a] split: prod.splits)
    have "deframe (drop ?n c @ b) = (fs' @ gs, r')"
      using 1(1) [OF sc [symmetric] Some d 1(3)] by simp
    moreover have "?n \<le> length c" using scan_sound sc Some by fastforce
    ultimately show ?thesis
      using scan_append_Some [of a f c b] sc Some fs by (simp add: deframe.simps [of "a @ b"])
  qed
qed

lemma deframe_frame_bytes:
  assumes "\<forall>f \<in> set fs. length (f_payload f) \<le> MAX_PAYLOAD"
  shows "deframe (concat (map (\<lambda>f. frame_bytes (f_kind f) (f_flags f) (f_payload f)) fs)) = (fs, [])"
  using assms
  by (induction fs) (simp_all add: deframe.simps [of "_ @ _"] deframe.simps [of "[]"] scan_frame_bytes)

lemma deframe_sound:
  "deframe b = (fs, r) \<Longrightarrow> \<exists>gaps tail. length gaps = length fs \<and>
     b = concat (map2 (\<lambda>g f. g @ frame_bytes (f_kind f) (f_flags f) (f_payload f)) gaps fs) @ tail @ r"
proof (induction b arbitrary: fs rule: deframe.induct)
  case (1 b)
  obtain fo c where sc: "scan b = (fo, c)" by fastforce
  then obtain pre where b: "b = pre @ c" using scan_rest_suffix by blast
  show ?case
  proof (cases fo)
    case None
    with sc 1(2) have "fs = []" "r = c" by (auto simp: deframe.simps [of b])
    with b show ?thesis by auto
  next
    case (Some f)
    let ?e = "\<lambda>f. frame_bytes (f_kind f) (f_flags f) (f_payload f)"
    let ?n = "HEADER + length (f_payload f) + TRAILER"
    obtain fs' where d: "deframe (drop ?n c) = (fs', r)" and fs: "fs = f # fs'"
      using sc Some 1(2) by (auto simp: deframe.simps [of b] split: prod.splits)
    obtain rest where c: "c = ?e f @ rest" using scan_sound sc Some by blast
    from 1(1) [OF sc [symmetric] Some d] obtain gaps tail where
      "length gaps = length fs'" "drop ?n c = concat (map2 (\<lambda>g f. g @ ?e f) gaps fs') @ tail @ r"
      by auto
    then show ?thesis
      by (intro exI [of _ "pre # gaps"] exI [of _ tail]) (simp add: b c fs)
  qed
qed

section \<open>Draining and polling\<close>

text \<open>A drained decoder: nothing complete is left in it.\<close>

definition drained :: "decoder \<Rightarrow> bool" where
  "drained d \<longleftrightarrow> decoder_inv d \<and> scan (live d) = (None, live d)"

lemma live_pending_0: "pending d = 0 \<Longrightarrow> live d = used d"
  by (simp add: live_def)

lemma drained_deframe: "drained d \<Longrightarrow> deframe (live d) = ([], live d)"
  by (simp add: drained_def deframe.simps [of "live d"])

lemma drained_new: "drained decoder_new" "live decoder_new = []"
  by (simp_all add: drained_def decoder_inv_def decoder_new_def live_def used_def)

lemma drain_deframe:
  "decoder_inv d \<Longrightarrow> drain d = (fs, d') \<Longrightarrow> drained d' \<and> deframe (live d) = (fs, live d')"
proof (induction d arbitrary: fs rule: drain.induct)
  case (1 d)
  obtain fo e where nf: "next_frame d = (fo, e)" by fastforce
  note n = next_frame_scan [OF 1(2) nf]
  show ?case
  proof (cases fo)
    case None
    with nf 1(3) have "fs = []" "d' = e" by (auto simp: drain.simps [of d])
    with n None scan_idem [of "live d"] show ?thesis
      by (simp add: drained_def live_pending_0 deframe.simps [of "live d"])
  next
    case (Some f)
    obtain fs' where dr: "drain e = (fs', d')" and fs: "fs = f # fs'"
      using nf Some 1(3) by (auto simp: drain.simps [of d] split: prod.splits)
    have "live e = drop (HEADER + length (f_payload f) + TRAILER) (used e)"
      using n(3) Some by (simp add: live_def)
    with 1(1) [OF nf [symmetric] Some n(1) dr] n(2) Some fs show ?thesis
      by (simp add: deframe.simps [of "live d"])
  qed
qed

lemma poll_bytes_deframe:
  "drained d \<Longrightarrow> \<exists>fs d'. poll_bytes d bs = Some (fs, d') \<and> drained d' \<and>
     deframe (live d @ bs) = (fs, live d')"
proof (induction bs arbitrary: d rule: length_induct)
  case (1 bs)
  show ?case
  proof (cases "bs = []")
    case True
    with 1(2) show ?thesis by (simp add: poll_bytes.simps drained_deframe)
  next
    case False
    from 1(2) have inv: "decoder_inv d" and room: "length (live d) < MAX_FRAME"
      using scan_None_length by (auto simp: drained_def)
    obtain n e where p: "push bs d = (n, e)" by fastforce
    obtain fs e' where dr: "drain e = (fs, e')" by fastforce
    note pl = push_live [OF inv p]
    from drain_deframe [OF pl(1) dr] pl(2)
    have e': "drained e'" and d1: "deframe (live d @ take n bs) = (fs, live e')" by simp_all
    have "0 < n" using False room pl(4) by simp
    then have "length (drop n bs) < length bs" using False by simp
    with 1(1) e' obtain gs d' where r: "poll_bytes e' (drop n bs) = Some (gs, d')" "drained d'"
      "deframe (live e' @ drop n bs) = (gs, live d')" by blast
    have "deframe (live d @ bs) = (fs @ gs, live d')"
      using deframe_append [OF d1 r(3)] by simp
    with False p dr r show ?thesis by (simp add: poll_bytes.simps [of d bs])
  qed
qed

lemma poll_all_deframe:
  "drained d \<Longrightarrow> \<exists>fs d'. poll_all d pieces = Some (fs, d') \<and> drained d' \<and>
     deframe (live d @ concat pieces) = (fs, live d')"
proof (induction pieces arbitrary: d)
  case (Cons bs pieces)
  from poll_bytes_deframe [OF Cons(2), of bs] obtain fs e where
    e: "poll_bytes d bs = Some (fs, e)" "drained e" "deframe (live d @ bs) = (fs, live e)" by blast
  from Cons(1) [OF e(2)] obtain gs d' where
    d': "poll_all e pieces = Some (gs, d')" "drained d'" "deframe (live e @ concat pieces) = (gs, live d')"
    by blast
  have "deframe (live d @ concat (bs # pieces)) = (fs @ gs, live d')"
    using deframe_append [OF e(3) d'(3)] by simp
  with e d' show ?case by simp
qed (simp add: drained_deframe)

section \<open>Error detection of the checksum\<close>

text \<open>
  One step of the shift register is injective because the polynomial has its top bit set:
  the bit shifted out can be read off the result.
\<close>

lemma crc32_bit_alt: "crc32_bit c = drop_bit 1 c XOR (if bit c 0 then 0xEDB88320 else 0)"
proof -
  have "- (c AND 1) = (if bit c 0 then - 1 else 0)"
    by (simp add: and_one_eq bit_0 mod_2_eq_odd)
  then show ?thesis by (simp add: crc32_bit_def Let_def)
qed

lemma crc32_bit_bit:
  "bit (crc32_bit c) n \<longleftrightarrow> bit c (Suc n) \<noteq> (bit c 0 \<and> bit (0xEDB88320 :: u32) n)"
  by (cases "bit c 0") (simp_all add: crc32_bit_alt bit_xor_iff bit_drop_bit_eq)

lemma inj_crc32_bit: "inj crc32_bit"
proof (rule injI, rule bit_word_eqI)
  fix c d n
  assume eq: "crc32_bit c = crc32_bit d" and n: "n < LENGTH(32)"
  have "\<not> bit c 32" "\<not> bit d 32" by (auto dest: bit_imp_le_length)
  moreover have "bit (0xEDB88320 :: u32) 31" by (simp add: bit_numeral_word_iff)
  ultimately have 0: "bit c 0 = bit d 0"
    using crc32_bit_bit [of c 31] crc32_bit_bit [of d 31] eq by simp
  show "bit c n = bit d n"
  proof (cases n)
    case (Suc m)
    then show ?thesis using crc32_bit_bit [of c m] crc32_bit_bit [of d m] eq 0 by auto
  qed (simp add: 0)
qed

lemma crc32_byte_eq_iff: "crc32_byte c a = crc32_byte d b \<longleftrightarrow> c XOR ucast a = d XOR ucast b"
  by (simp add: crc32_byte_def inj_eq [OF inj_fn [OF inj_crc32_bit]])

lemma crc32_byte_inject:
  "crc32_byte c b = crc32_byte d b \<longleftrightarrow> c = d" "crc32_byte c a = crc32_byte c b \<longleftrightarrow> a = b"
proof -
  have xor: "(x :: u32) XOR z = y XOR z \<longleftrightarrow> x = y" "z XOR x = z XOR y \<longleftrightarrow> x = y" for x y z
    by (auto simp: bit_eq_iff bit_xor_iff)
  have "(ucast a :: u32) = ucast b \<longleftrightarrow> a = b" by transfer simp
  then show "crc32_byte c b = crc32_byte d b \<longleftrightarrow> c = d" "crc32_byte c a = crc32_byte c b \<longleftrightarrow> a = b"
    by (simp_all add: crc32_byte_eq_iff xor)
qed

lemma crc32_foldl_inject: "foldl crc32_byte c xs = foldl crc32_byte d xs \<longleftrightarrow> c = d"
  by (induction xs arbitrary: c d) (auto simp: crc32_byte_inject)

lemma crc32_one_byte:
  assumes "i < length c" and "crc32 (c[i := y]) = crc32 c"
  shows "c ! i = y"
proof -
  have "crc32 (take i c @ y # drop (Suc i) c) = crc32 (take i c @ c ! i # drop (Suc i) c)"
    using assms by (simp add: upd_conv_take_nth_drop id_take_nth_drop [symmetric])
  then show ?thesis by (simp add: crc32_def crc32_foldl_inject crc32_byte_inject)
qed

lemma list_update_same_nth: "i < length xs \<Longrightarrow> xs[i := y] = xs \<Longrightarrow> xs ! i = y"
  by (metis nth_list_update_eq)

lemma frame_bytes_update:
  assumes eq: "frame_bytes k' fl' p' = (frame_bytes k fl p)[i := y]" and i: "i < length (frame_bytes k fl p)"
  shows "frame_bytes k fl p ! i = y"
proof -
  define c c' where "c = frame_body k fl p" and "c' = frame_body k' fl' p'"
  have "length (frame_bytes k' fl' p') = length (frame_bytes k fl p)" by (simp add: eq del: length_frame_bytes)
  then have lc: "length c' = length c" by (simp add: c_def c'_def frame_body_def)
  have e: "MAGIC @ c' @ le_enc (crc32 c') = (MAGIC @ c @ le_enc (crc32 c))[i := y]"
    using eq by (simp add: frame_bytes_def c_def c'_def)
  have F: "frame_bytes k fl p = MAGIC @ c @ le_enc (crc32 c)" by (simp add: frame_bytes_def c_def)
  consider "i < 4" | "4 \<le> i" "i - 4 < length c" | "4 \<le> i" "length c \<le> i - 4" by linarith
  then show ?thesis
  proof cases
    case 1
    then have "MAGIC[i := y] = MAGIC" using e by (simp add: list_update_append)
    with 1 list_update_same_nth [of i MAGIC y] show ?thesis by (simp add: F nth_append)
  next
    case 2
    then have "c' = c[i - 4 := y] \<and> crc32 c' = crc32 c" using e lc by (auto simp: list_update_append)
    with 2 crc32_one_byte [of "i - 4" c y] show ?thesis by (auto simp: F nth_append)
  next
    case 3
    let ?t = "le_enc (crc32 c)" and ?j = "i - 4 - length c"
    have "?t[?j := y] = ?t" using 3 e lc by (auto simp: list_update_append)
    moreover have "?j < length ?t" using i 3 by (simp add: F)
    ultimately show ?thesis
      using 3 list_update_same_nth [of ?j ?t y] by (simp add: F nth_append)
  qed
qed

section \<open>The decoder as a machine\<close>

text \<open>The two calls a user makes, and the bytes the statistics account for.\<close>

datatype decoder_op = Push bytes | NextFrame

primrec decoder_step :: "decoder \<Rightarrow> decoder_op \<Rightarrow> decoder" where
  "decoder_step d (Push bs) = snd (push bs d)"
| "decoder_step d NextFrame = snd (next_frame d)"

definition stats_le :: "decoder \<Rightarrow> decoder \<Rightarrow> bool" where
  "stats_le d d' \<longleftrightarrow> frames (stats d) \<le> frames (stats d') \<and> crc_errors (stats d) \<le> crc_errors (stats d')
     \<and> skipped (stats d) \<le> skipped (stats d') \<and> oversized (stats d) \<le> oversized (stats d')"

definition lost :: "decoder \<Rightarrow> nat" where
  "lost d = crc_errors (stats d) + skipped (stats d) + oversized (stats d)"

lemma stats_drop_front [simp]: "stats (drop_front n d) = stats d"
  by (simp add: drop_front_def Let_def)

lemma stats_settle [simp]: "stats (settle d) = stats d"
  by (simp add: settle_def)

lemma frame_step_stats:
  "(case frame_step d of
      Continue d' \<Rightarrow> stats_le d d' \<and> len d' + lost d' = len d + lost d
    | Return f d' \<Rightarrow> stats_le d d' \<and> len d' + lost d' = len d + lost d \<and>
        frames (stats d') = frames (stats d) + (if f = None then 0 else 1))"
proof -
  have "align d = (a, d') \<Longrightarrow> stats_le d d' \<and> len d' + lost d' = len d + lost d \<and>
      frames (stats d') = frames (stats d) \<and> (\<forall>e. a = Some e \<longrightarrow> e = d')" for a d'
    by (auto simp: align_def stats_le_def lost_def Let_def dest!: find_SomeD
        split: option.splits if_splits)
  then show ?thesis
    by (fastforce simp: frame_step_def Let_def skip_oversized_def skip_bad_crc_def take_frame_def
        stats_le_def lost_def HEADER_def split: prod.splits option.splits if_splits)
qed

lemma next_frame_loop_stats:
  "next_frame_loop d = (f, d') \<Longrightarrow> stats_le d d' \<and> len d' + lost d' = len d + lost d"
proof (induction d rule: next_frame_loop.induct)
  case (1 d)
  show ?case
  proof (cases "frame_step d")
    case (Continue e)
    with 1(2) have "next_frame_loop e = (f, d')" by (simp add: next_frame_loop.simps [of d])
    from 1(1) [OF Continue this] show ?thesis
      using frame_step_stats [of d] Continue by (auto simp: stats_le_def)
  next
    case (Return g e)
    with 1(2) have "e = d'" by (auto simp: next_frame_loop.simps [of d])
    then show ?thesis using frame_step_stats [of d] Return by simp
  qed
qed

interpretation dec: monotone_machine decoder_step decoder_inv stats_le
proof unfold_locales
  fix d :: decoder and op
  assume inv: "decoder_inv d"
  show "decoder_inv (decoder_step d op)"
    by (cases op) (auto intro: push_live(1) [OF inv] next_frame_scan(1) [OF inv] prod.collapse [symmetric])
  show "stats_le d (decoder_step d op)"
  proof (cases op)
    case (Push bs)
    then show ?thesis by (simp add: stats_le_def push_def Let_def)
  next
    case NextFrame
    obtain f d' where "next_frame d = (f, d')" by fastforce
    with next_frame_loop_stats [of "settle d" f d'] NextFrame show ?thesis
      by (simp add: next_frame_def stats_le_def)
  qed
qed (auto simp: stats_le_def)

section \<open>Properties\<close>

lemma encode_with_flags_Ok:
  assumes "encode_with_flags k fl p out = (Ok n, out')"
  shows "length p \<le> MAX_PAYLOAD" and "take n out' = frame_bytes k fl p"
  using assms by (auto simp: encode_with_flags_def Let_def split: if_splits)

text \<open>
  C5: However the device splits the byte stream, the receive loop terminates and delivers
  exactly the frames of the unlimited reference reading of the concatenated input, keeping
  only an incomplete tail that leaves room in the fixed buffer.
\<close>

theorem poll_any_chunking:
  "\<exists>d. poll_all decoder_new pieces = Some (fst (deframe (concat pieces)), d) \<and>
       live d = snd (deframe (concat pieces)) \<and> length (live d) < MAX_FRAME"
proof -
  obtain fs d where "poll_all decoder_new pieces = Some (fs, d)" "drained d"
    "deframe (concat pieces) = (fs, live d)"
    using poll_all_deframe [OF drained_new(1), of pieces] by (auto simp: drained_new)
  then show ?thesis using scan_None_length by (auto simp: drained_def)
qed

text \<open>
  C6: Frames written by \<open>encode_with_flags\<close> one after the other arrive unchanged, in order
  and completely, however the stream is split, and nothing is left in the decoder.
\<close>

theorem encode_poll_round_trip:
  assumes "list_all2 (\<lambda>f w. \<exists>out n out'. encode_with_flags (f_kind f) (f_flags f) (f_payload f) out =
      (Ok n, out') \<and> w = take n out') fs ws"
    and "concat pieces = concat ws"
  shows "\<exists>d. poll_all decoder_new pieces = Some (fs, d) \<and> live d = []"
proof -
  have "ws = map (\<lambda>f. frame_bytes (f_kind f) (f_flags f) (f_payload f)) fs \<and>
      (\<forall>f \<in> set fs. length (f_payload f) \<le> MAX_PAYLOAD)"
    using assms(1) by (induction rule: list_all2_induct) (auto dest: encode_with_flags_Ok)
  with assms(2) have "deframe (concat pieces) = (fs, [])" by (simp add: deframe_frame_bytes)
  with poll_all_deframe [OF drained_new(1), of pieces] show ?thesis by (auto simp: drained_new)
qed

theorem encode_poll_round_trip_witness:
  "\<exists>d. poll_all decoder_new (map (\<lambda>b. [b]) (frame_bytes 4 1 [7, 8])) =
     Some ([\<lparr>f_kind = 4, f_flags = 1, f_payload = [7, 8]\<rparr>], d) \<and> live d = []"
proof (rule encode_poll_round_trip)
  have "encode_with_flags 4 1 [7, 8] (replicate 14 0) = (Ok 14, frame_bytes 4 1 [7, 8])"
    by (simp add: encode_with_flags_def frame_consts Let_def)
  then show "list_all2 (\<lambda>f w. \<exists>out n out'. encode_with_flags (f_kind f) (f_flags f) (f_payload f) out =
      (Ok n, out') \<and> w = take n out') [\<lparr>f_kind = 4, f_flags = 1, f_payload = [7, 8]\<rparr>] [frame_bytes 4 1 [7, 8]]"
    by (fastforce simp: frame_consts)
qed (simp add: concat_map_singleton)

text \<open>
  C7: Every frame the receive loop delivers is literally present in the input as an encoded
  frame, in the order of delivery and without overlap; the decoder makes nothing up out of
  garbage, stale buffer bytes or pieces of other frames.
\<close>

theorem poll_sound:
  assumes "poll_all decoder_new pieces = Some (fs, d)"
  shows "\<exists>gaps tail. length gaps = length fs \<and> concat pieces =
    concat (map2 (\<lambda>g f. g @ frame_bytes (f_kind f) (f_flags f) (f_payload f)) gaps fs) @ tail @ live d"
proof -
  have "deframe (concat pieces) = (fs, live d)"
    using assms poll_all_deframe [OF drained_new(1), of pieces] by (auto simp: drained_new)
  then show ?thesis by (rule deframe_sound)
qed

theorem poll_sound_witness:
  "\<exists>fs d gaps tail. poll_all decoder_new [[0], frame_bytes 2 0 [9]] = Some (fs, d) \<and> length gaps = length fs \<and>
     [0] @ frame_bytes 2 0 [9] =
       concat (map2 (\<lambda>g f. g @ frame_bytes (f_kind f) (f_flags f) (f_payload f)) gaps fs) @ tail @ live d"
  using poll_sound [of "[[0], frame_bytes 2 0 [9]]"]
    poll_all_deframe [OF drained_new(1), of "[[0], frame_bytes 2 0 [9]]"] by fastforce

text \<open>
  C8: One call of \<open>next_frame\<close> on the fixed buffer implements the reference scan of the
  unread bytes, result and remaining bytes alike, and keeps the buffer invariant.
\<close>

theorem next_frame_refines_scan:
  assumes "decoder_inv d" and "next_frame d = (f, d')"
  shows "decoder_inv d' \<and> scan (live d) = (f, used d') \<and>
    live d' = (case f of None \<Rightarrow> used d' | Some g \<Rightarrow> drop (HEADER + length (f_payload g) + TRAILER) (used d'))"
  using next_frame_scan [OF assms] by (auto simp: live_def split: option.splits)

theorem next_frame_refines_scan_witness:
  "\<exists>f d'. next_frame decoder_new = (f, d') \<and> decoder_inv d' \<and> scan (live decoder_new) = (f, used d')"
proof -
  obtain f d' where "next_frame decoder_new = (f, d')" by fastforce
  moreover have "decoder_inv decoder_new" using drained_new by (simp add: drained_def)
  ultimately show ?thesis using next_frame_refines_scan by blast
qed

text \<open>
  Bytes are accounted for: what a call of \<open>next_frame\<close> removes from the unread input
  is either the frame it delivers later dropped by \<open>pending\<close>, or counted in exactly one of
  the skipped, CRC and oversized counters; in any sequence of calls no counter ever falls.
\<close>

theorem decoder_accounts_bytes:
  "len (snd (next_frame d)) + lost (snd (next_frame d)) = len (settle d) + lost d \<and>
   stats_le decoder_new (foldl decoder_step decoder_new ops) \<and>
   decoder_inv (foldl decoder_step decoder_new ops)"
proof -
  obtain f d' where "next_frame d = (f, d')" by fastforce
  with next_frame_loop_stats [of "settle d" f d']
  have "len (snd (next_frame d)) + lost (snd (next_frame d)) = len (settle d) + lost d"
    by (simp add: next_frame_def lost_def)
  moreover have "decoder_inv decoder_new" using drained_new by (simp add: drained_def)
  ultimately show ?thesis using dec.le_run dec.inv_run by blast
qed

text \<open>
  C9: The checksum detects every error confined to one byte: changing any single byte of an
  encoded frame (magic, header, payload or trailer) never gives another encoded frame.
\<close>

theorem frame_detects_byte_error:
  assumes "i < length (frame_bytes k fl p)" and "frame_bytes k fl p ! i \<noteq> y"
  shows "(frame_bytes k fl p)[i := y] \<noteq> frame_bytes k' fl' p'"
  using frame_bytes_update [OF _ assms(1)] assms(2) by metis

theorem frame_detects_byte_error_witness:
  "(frame_bytes 2 0 [1, 2])[4 := 3] \<noteq> frame_bytes 3 0 [1, 2]"
  by (rule frame_detects_byte_error) (simp_all add: frame_consts, simp add: frame_bytes_def frame_body_def MAGIC_eq)

end
