(* ===== verification/SecureChannel.thy ===== *)
theory SecureChannel
  imports Frame "HOL-Library.Sublist"
begin

text \<open>
  The post-quantum secure channel of \<open>link/src/secure.rs\<close>: hybrid identities and
  signatures, the three-message handshake, the sealed session with its sequence numbers,
  and the fragmentation of handshake messages. The cryptographic libraries are the
  parameter \<open>prims\<close>; what the protocol needs of them is named in \<open>kem_correct\<close>,
  \<open>dh_commutes\<close> and \<open>aead_correct\<close>. Shown: both ends derive matching keys, the client
  accepts only transcripts the server signed, the receiver delivers a prefix of what was
  sealed, no nonce is used twice, and fragmented messages reassemble.
\<close>

section \<open>Lengths and errors\<close>

definition PROTOCOL :: bytes where "PROTOCOL = as_bytes ''CDK-LINK-v1''"
definition VERSION :: u8 where "VERSION = 1"
definition NONCE_LEN :: nat where "NONCE_LEN = 32"
definition X25519_LEN :: nat where "X25519_LEN = 32"
definition KEM_EK_LEN :: nat where "KEM_EK_LEN = 1184"
definition KEM_CT_LEN :: nat where "KEM_CT_LEN = 1088"
definition ED_PUB_LEN :: nat where "ED_PUB_LEN = 32"
definition ML_PUB_LEN :: nat where "ML_PUB_LEN = 1952"
definition ED_SIG_LEN :: nat where "ED_SIG_LEN = 64"
definition ML_SIG_LEN :: nat where "ML_SIG_LEN = 3309"
definition IDENTITY_LEN :: nat where "IDENTITY_LEN = ED_PUB_LEN + ML_PUB_LEN"
definition SIG_LEN :: nat where "SIG_LEN = ED_SIG_LEN + ML_SIG_LEN"
definition CH_LEN :: nat where "CH_LEN = 1 + NONCE_LEN + X25519_LEN + KEM_EK_LEN"
definition SH_UNSIGNED :: nat where "SH_UNSIGNED = NONCE_LEN + X25519_LEN + KEM_CT_LEN + IDENTITY_LEN"
definition SH_LEN :: nat where "SH_LEN = SH_UNSIGNED + SIG_LEN"
definition CF_LEN :: nat where "CF_LEN = IDENTITY_LEN + SIG_LEN"
definition SEAL_OVERHEAD :: nat where "SEAL_OVERHEAD = 8 + 16"
definition MAX_PLAINTEXT :: nat where "MAX_PLAINTEXT = MAX_PAYLOAD - SEAL_OVERHEAD"

lemmas secure_lens = NONCE_LEN_def X25519_LEN_def KEM_EK_LEN_def KEM_CT_LEN_def ED_PUB_LEN_def
  ML_PUB_LEN_def ED_SIG_LEN_def ML_SIG_LEN_def IDENTITY_LEN_def SIG_LEN_def CH_LEN_def
  SH_UNSIGNED_def SH_LEN_def CF_LEN_def SEAL_OVERHEAD_def

lemma MAX_PLAINTEXT_eq: "MAX_PLAINTEXT = 1000"
  by (simp add: MAX_PLAINTEXT_def MAX_PAYLOAD_def SEAL_OVERHEAD_def)

datatype hs_error = BadLength | BadVersion | BadKey | ServerAuth | ClientAuth

datatype seal_error = SealTooLarge | SealBufferTooSmall | SealSequence | SealAuth | SealExhausted

section \<open>The cryptographic libraries\<close>

text \<open>
  SHA-256, HKDF (salt, input key, info), X25519 (public key of a secret; shared secret),
  ML-KEM-768 (public key of a seed; encapsulation, which rejects malformed keys;
  decapsulation), verification, public keys and signing (from the seeds) of the two
  signature halves, and the AEAD (key, nonce, associated data, text).
\<close>

record prims =
  sha256 :: "bytes \<Rightarrow> bytes"
  hkdf :: "bytes \<Rightarrow> bytes \<Rightarrow> bytes \<Rightarrow> bytes"
  x25519_pub :: "bytes \<Rightarrow> bytes"
  x25519_dh :: "bytes \<Rightarrow> bytes \<Rightarrow> bytes"
  kem_ek :: "bytes \<Rightarrow> bytes"
  kem_encaps :: "bytes \<Rightarrow> bytes \<Rightarrow> (bytes \<times> bytes) option"
  kem_decaps :: "bytes \<Rightarrow> bytes \<Rightarrow> bytes"
  ed_verify :: "bytes \<Rightarrow> bytes \<Rightarrow> bytes \<Rightarrow> bool"
  ml_verify :: "bytes \<Rightarrow> bytes \<Rightarrow> bytes \<Rightarrow> bytes \<Rightarrow> bool"
  ed_public :: "bytes \<Rightarrow> bytes"
  ml_public :: "bytes \<Rightarrow> bytes"
  ed_sign :: "bytes \<Rightarrow> bytes \<Rightarrow> bytes"
  ml_sign :: "bytes \<Rightarrow> bytes \<Rightarrow> bytes \<Rightarrow> bytes"
  aead_encrypt :: "bytes \<Rightarrow> bytes \<Rightarrow> bytes \<Rightarrow> bytes \<Rightarrow> (bytes \<times> bytes) option"
  aead_decrypt :: "bytes \<Rightarrow> bytes \<Rightarrow> bytes \<Rightarrow> bytes \<Rightarrow> bytes \<Rightarrow> bytes option"

section \<open>Identities and signatures\<close>

record identity =
  id_ed :: bytes
  id_ml :: bytes

record signature =
  sig_ed :: bytes
  sig_ml :: bytes

definition identity_wf :: "identity \<Rightarrow> bool" where
  "identity_wf i \<longleftrightarrow> length (id_ed i) = ED_PUB_LEN \<and> length (id_ml i) = ML_PUB_LEN"

definition signature_wf :: "signature \<Rightarrow> bool" where
  "signature_wf s \<longleftrightarrow> length (sig_ed s) = ED_SIG_LEN \<and> length (sig_ml s) = ML_SIG_LEN"

definition identity_from_bytes :: "bytes \<Rightarrow> identity option" where
  "identity_from_bytes b =
     (if length b \<noteq> IDENTITY_LEN then None
      else Some \<lparr>id_ed = take ED_PUB_LEN b, id_ml = drop ED_PUB_LEN b\<rparr>)"

text \<open>\<open>write_to\<close> fills the front of the buffer it is given.\<close>

definition identity_write_to :: "identity \<Rightarrow> bytes \<Rightarrow> bytes" where
  "identity_write_to i out = id_ed i @ id_ml i @ drop IDENTITY_LEN out"

definition identity_id :: "prims \<Rightarrow> identity \<Rightarrow> bytes" where
  "identity_id P i = take 16 (sha256 P (as_bytes ''CDK-ISSUER-v1'' @ id_ed i @ id_ml i))"

definition signature_from_bytes :: "bytes \<Rightarrow> signature" where
  "signature_from_bytes b =
     \<lparr>sig_ed = take ED_SIG_LEN b, sig_ml = take (SIG_LEN - ED_SIG_LEN) (drop ED_SIG_LEN b)\<rparr>"

definition signature_from_slice :: "bytes \<Rightarrow> signature option" where
  "signature_from_slice b = (if length b = SIG_LEN then Some (signature_from_bytes b) else None)"

definition signature_write_to :: "signature \<Rightarrow> bytes \<Rightarrow> bytes" where
  "signature_write_to s out = sig_ed s @ sig_ml s @ drop SIG_LEN out"

text \<open>Hybrid signatures: both halves must verify.\<close>

definition CONTEXT :: bytes where "CONTEXT = as_bytes ''CDK-LINK-v1''"

record keypair =
  kp_ed :: bytes
  kp_ml :: bytes
  kp_public :: identity

definition keypair_from_seeds :: "prims \<Rightarrow> bytes \<Rightarrow> bytes \<Rightarrow> keypair" where
  "keypair_from_seeds P ed_seed ml_seed =
     \<lparr>kp_ed = ed_seed, kp_ml = ml_seed,
      kp_public = \<lparr>id_ed = ed_public P ed_seed, id_ml = ml_public P ml_seed\<rparr>\<rparr>"

definition sign_with :: "prims \<Rightarrow> keypair \<Rightarrow> bytes \<Rightarrow> bytes \<Rightarrow> signature" where
  "sign_with P kp d context = \<lparr>sig_ed = ed_sign P (kp_ed kp) d, sig_ml = ml_sign P (kp_ml kp) d context\<rparr>"

definition sign :: "prims \<Rightarrow> keypair \<Rightarrow> bytes \<Rightarrow> signature" where
  "sign P kp d = sign_with P kp d CONTEXT"

definition verify_with :: "prims \<Rightarrow> identity \<Rightarrow> bytes \<Rightarrow> signature \<Rightarrow> bytes \<Rightarrow> bool" where
  "verify_with P i d s context \<longleftrightarrow>
     ed_verify P (id_ed i) d (sig_ed s) \<and> ml_verify P (id_ml i) d context (sig_ml s)"

definition verify :: "prims \<Rightarrow> identity \<Rightarrow> bytes \<Rightarrow> signature \<Rightarrow> bool" where
  "verify P i d s = verify_with P i d s CONTEXT"

definition digest :: "prims \<Rightarrow> bytes \<Rightarrow> bytes list \<Rightarrow> bytes" where
  "digest P label parts = sha256 P (PROTOCOL @ as_bytes '' '' @ label @ concat parts)"

definition derive :: "prims \<Rightarrow> bytes \<Rightarrow> bytes \<Rightarrow> bytes \<Rightarrow> bytes \<Rightarrow> bytes \<Rightarrow> bytes \<times> bytes" where
  "derive P ch sh cf x_ss kem_ss =
     (let salt = digest P (as_bytes ''keys'') [ch, sh, cf];
          ikm = x_ss @ kem_ss in
      (hkdf P salt ikm (as_bytes ''CDK-LINK-v1 c2s''), hkdf P salt ikm (as_bytes ''CDK-LINK-v1 s2c'')))"

section \<open>Sealed sessions\<close>

record session =
  tx :: bytes
  rx :: bytes
  tx_seq :: u64
  rx_seq :: u64

definition session_new :: "bytes \<Rightarrow> bytes \<Rightarrow> session" where
  "session_new tx_key rx_key = \<lparr>tx = tx_key, rx = rx_key, tx_seq = 0, rx_seq = 0\<rparr>"

definition session_nonce :: "u64 \<Rightarrow> bytes" where
  "session_nonce seq = replicate 4 0 @ le_enc seq"

definition session_aad :: "u64 \<Rightarrow> bytes" where
  "session_aad seq = PROTOCOL @ le_enc seq"

text \<open>
  Both operations return the result, the caller's buffer as they leave it, and the session.
\<close>

definition seal ::
    "prims \<Rightarrow> session \<Rightarrow> bytes \<Rightarrow> bytes \<Rightarrow> (nat, seal_error) result \<times> bytes \<times> session" where
  "seal P s plaintext out =
     (let n = length plaintext; total = 8 + n + 16 in
      if n > MAX_PLAINTEXT then (Err SealTooLarge, out, s)
      else if length out < total then (Err SealBufferTooSmall, out, s)
      else if tx_seq s = - 1 then (Err SealExhausted, out, s)
      else let seq = tx_seq s in
        (case aead_encrypt P (tx s) (session_nonce seq) (session_aad seq) plaintext of
           None \<Rightarrow> (Err SealAuth, le_enc seq @ plaintext @ drop (8 + n) out, s)
         | Some (body, tag) \<Rightarrow>
             (Ok total, le_enc seq @ body @ tag @ drop total out, s\<lparr>tx_seq := seq + 1\<rparr>)))"

definition unseal ::
    "prims \<Rightarrow> session \<Rightarrow> bytes \<Rightarrow> bytes \<Rightarrow> (nat, seal_error) result \<times> bytes \<times> session" where
  "unseal P s sealed out =
     (if length sealed < SEAL_OVERHEAD then (Err SealAuth, out, s)
      else let n = length sealed - SEAL_OVERHEAD in
        if length out < n then (Err SealBufferTooSmall, out, s)
        else let seq = le_dec (take 8 sealed) in
          if seq \<noteq> rx_seq s then (Err SealSequence, out, s)
          else (case aead_decrypt P (rx s) (session_nonce seq) (session_aad seq)
                  (take n (drop 8 sealed)) (drop (8 + n) sealed) of
                  None \<Rightarrow> (Err SealAuth, replicate n 0 @ drop n out, s)
                | Some plain \<Rightarrow> (Ok n, plain @ drop n out, s\<lparr>rx_seq := rx_seq s + 1\<rparr>)))"

section \<open>Handshake\<close>

record client_random =
  cr_x25519 :: bytes
  cr_kem_seed :: bytes
  cr_nonce :: bytes

record server_random =
  sr_x25519 :: bytes
  sr_kem_m :: bytes
  sr_nonce :: bytes

record client_state =
  cs_x_secret :: bytes
  cs_dk :: bytes
  cs_ch :: bytes

record server_state =
  ss_ch :: bytes
  ss_sh :: bytes
  ss_x_ss :: bytes
  ss_kem_ss :: bytes

definition client_hello :: "prims \<Rightarrow> client_random \<Rightarrow> client_state \<times> bytes" where
  "client_hello P rnd =
     (let ch = [VERSION] @ cr_nonce rnd @ x25519_pub P (cr_x25519 rnd) @ kem_ek P (cr_kem_seed rnd) in
      (\<lparr>cs_x_secret = cr_x25519 rnd, cs_dk = cr_kem_seed rnd, cs_ch = ch\<rparr>, ch))"

definition client_finish ::
    "prims \<Rightarrow> client_state \<Rightarrow> bytes \<Rightarrow> (identity \<Rightarrow> bytes \<Rightarrow> signature \<Rightarrow> bool) \<Rightarrow> identity \<Rightarrow>
     (bytes \<Rightarrow> signature) \<Rightarrow> (session \<times> bytes \<times> identity, hs_error) result" where
  "client_finish P st sh trust my_identity sign_fn =
     (if length sh \<noteq> SH_LEN then Err BadLength
      else
        let x_pub = take X25519_LEN (drop NONCE_LEN sh);
            ct = take KEM_CT_LEN (drop (NONCE_LEN + X25519_LEN) sh) in
        if length ct \<noteq> KEM_CT_LEN then Err BadKey
        else
          case identity_from_bytes (take IDENTITY_LEN (drop (NONCE_LEN + X25519_LEN + KEM_CT_LEN) sh)) of
            None \<Rightarrow> Err BadLength
          | Some server \<Rightarrow>
              let server_sig = signature_from_bytes (drop SH_UNSIGNED sh);
                  d = digest P (as_bytes ''server'') [cs_ch st, take SH_UNSIGNED sh] in
              if \<not> trust server d server_sig then Err ServerAuth
              else
                let cf0 = identity_write_to my_identity (replicate IDENTITY_LEN 0);
                    d' = digest P (as_bytes ''client'') [cs_ch st, sh, cf0];
                    cf = cf0 @ signature_write_to (sign_fn d') (replicate SIG_LEN 0);
                    x_ss = x25519_dh P (cs_x_secret st) x_pub;
                    kem_ss = kem_decaps P (cs_dk st) ct;
                    (c2s, s2c) = derive P (cs_ch st) sh cf x_ss kem_ss in
                Ok (session_new c2s s2c, cf, server))"

definition server_respond ::
    "prims \<Rightarrow> bytes \<Rightarrow> server_random \<Rightarrow> identity \<Rightarrow> (bytes \<Rightarrow> signature) \<Rightarrow>
     (server_state \<times> bytes, hs_error) result" where
  "server_respond P ch rnd my_identity sign_fn =
     (if length ch \<noteq> CH_LEN then Err BadLength
      else if ch ! 0 \<noteq> VERSION then Err BadVersion
      else
        let peer_x = take X25519_LEN (drop (1 + NONCE_LEN) ch);
            ek_bytes = drop (1 + NONCE_LEN + X25519_LEN) ch in
        if length ek_bytes \<noteq> KEM_EK_LEN then Err BadKey
        else
          case kem_encaps P ek_bytes (sr_kem_m rnd) of
            None \<Rightarrow> Err BadKey
          | Some (ct, kem_ss) \<Rightarrow>
              let x_ss = x25519_dh P (sr_x25519 rnd) peer_x;
                  sh0 = sr_nonce rnd @ x25519_pub P (sr_x25519 rnd) @ ct @
                    identity_write_to my_identity (replicate IDENTITY_LEN 0);
                  d = digest P (as_bytes ''server'') [ch, sh0];
                  sh = sh0 @ signature_write_to (sign_fn d) (replicate SIG_LEN 0) in
              Ok (\<lparr>ss_ch = ch, ss_sh = sh, ss_x_ss = x_ss, ss_kem_ss = kem_ss\<rparr>, sh))"

definition server_finish ::
    "prims \<Rightarrow> server_state \<Rightarrow> bytes \<Rightarrow> (identity \<Rightarrow> bytes \<Rightarrow> signature \<Rightarrow> bool) \<Rightarrow>
     (session \<times> identity, hs_error) result" where
  "server_finish P st cf trust =
     (if length cf \<noteq> CF_LEN then Err BadLength
      else
        case identity_from_bytes (take IDENTITY_LEN cf) of
          None \<Rightarrow> Err BadLength
        | Some client \<Rightarrow>
            let sg = signature_from_bytes (drop IDENTITY_LEN cf);
                d = digest P (as_bytes ''client'') [ss_ch st, ss_sh st, take IDENTITY_LEN cf] in
            if \<not> trust client d sg then Err ClientAuth
            else
              let (c2s, s2c) = derive P (ss_ch st) (ss_sh st) cf (ss_x_ss st) (ss_kem_ss st) in
              Ok (session_new s2c c2s, client))"

section \<open>Fragmentation\<close>

definition fragments :: "bytes \<Rightarrow> (u8 \<times> bytes) list" where
  "fragments msg =
     (let last = max ((length msg + MAX_PAYLOAD - 1) div MAX_PAYLOAD) 1 - 1 in
      if msg = [] then [(0, [])]
      else map (\<lambda>(i, c). (if i < last then FLAG_MORE else 0, c)) (enumerate 0 (chunks MAX_PAYLOAD msg)))"

definition REASSEMBLER_MAX :: nat where "REASSEMBLER_MAX = 8192"

text \<open>The state is the buffer; the result is an error, nothing yet, or the message.\<close>

definition reassembler_push :: "bytes \<Rightarrow> u8 \<times> bytes \<Rightarrow> (bytes option, unit) result \<times> bytes" where
  "reassembler_push b = (\<lambda>(flags, chunk).
     if length b + length chunk > REASSEMBLER_MAX then (Err (), [])
     else let b = b @ chunk in
       if flags AND FLAG_MORE \<noteq> 0 then (Ok None, b) else (Ok (Some b), []))"

section \<open>Sequence numbers\<close>

text \<open>
  A run of the receiver over arbitrary input: the accepted plaintexts with the sealed
  messages they came from.
\<close>

fun unseal_run :: "prims \<Rightarrow> session \<Rightarrow> bytes list \<Rightarrow> (bytes \<times> bytes) list \<times> session" where
  "unseal_run P s [] = ([], s)"
| "unseal_run P s (m # ms) =
     (case unseal P s m (replicate MAX_PLAINTEXT 0) of
        (Ok n, out, s') \<Rightarrow> (case unseal_run P s' ms of (acc, s'') \<Rightarrow> ((m, take n out) # acc, s''))
      | (Err e, out, s') \<Rightarrow> unseal_run P s' ms)"

text \<open>A run of the sender: the sealed messages, for the plaintexts that could be sealed.\<close>

fun seal_run :: "prims \<Rightarrow> session \<Rightarrow> bytes list \<Rightarrow> (bytes \<times> bytes) list \<times> session" where
  "seal_run P s [] = ([], s)"
| "seal_run P s (p # ps) =
     (case seal P s p (replicate MAX_PAYLOAD 0) of
        (Ok n, out, s') \<Rightarrow> (case seal_run P s' ps of (acc, s'') \<Rightarrow> ((p, take n out) # acc, s''))
      | (Err e, out, s') \<Rightarrow> seal_run P s' ps)"

text \<open>What the channel relies on: the AEAD keeps lengths and decrypts what it encrypted.\<close>

definition aead_correct :: "prims \<Rightarrow> bool" where
  "aead_correct P \<longleftrightarrow> (\<forall>k n a p c t. aead_encrypt P k n a p = Some (c, t) \<longrightarrow>
     length c = length p \<and> length t = 16 \<and> aead_decrypt P k n a c t = Some p) \<and>
   (\<forall>k n a c t p. aead_decrypt P k n a c t = Some p \<longrightarrow> length p = length c)"

lemma unseal_cases:
  assumes "unseal P s m out = (r, out', s')"
  obtains (err) e where "r = Err e" "s' = s"
  | (ok) plain n where "r = Ok n" "n = length m - SEAL_OVERHEAD" "SEAL_OVERHEAD \<le> length m" "n \<le> length out"
      "le_dec (take 8 m) = rx_seq s" "s' = s\<lparr>rx_seq := rx_seq s + 1\<rparr>" "out' = plain @ drop n out"
      "aead_decrypt P (rx s) (session_nonce (rx_seq s)) (session_aad (rx_seq s))
         (take n (drop 8 m)) (drop (8 + n) m) = Some plain"
  using assms by (auto simp: unseal_def Let_def not_less split: if_splits option.splits)

lemma seal_cases:
  assumes "seal P s p out = (r, out', s')"
  obtains (err) e where "r = Err e" "s' = s"
  | (ok) body tag where "r = Ok (8 + length p + 16)" "length p \<le> MAX_PLAINTEXT" "8 + length p + 16 \<le> length out"
      "tx_seq s \<noteq> - 1" "s' = s\<lparr>tx_seq := tx_seq s + 1\<rparr>"
      "aead_encrypt P (tx s) (session_nonce (tx_seq s)) (session_aad (tx_seq s)) p = Some (body, tag)"
      "out' = le_enc (tx_seq s) @ body @ tag @ drop (8 + length p + 16) out"
  using assms by (auto simp: seal_def Let_def not_less split: if_splits option.splits)

lemma session_nonce_inject [simp]: "session_nonce a = session_nonce b \<longleftrightarrow> a = b"
  by (simp add: session_nonce_def)

lemma add_of_nat_inject:
  "i < 2 ^ 64 \<Longrightarrow> j < 2 ^ 64 \<Longrightarrow> (w :: u64) + of_nat i = w + of_nat j \<longleftrightarrow> i = j"
  by (auto dest!: arg_cong [of "of_nat i" "of_nat j" unat] simp: unat_of_nat)

text \<open>The receiver's accepted messages carry consecutive sequence numbers.\<close>

lemma unseal_run_seq:
  assumes "unseal_run P s ms = (acc, s')"
  shows "rx s' = rx s \<and> tx s' = tx s \<and> rx_seq s' = rx_seq s + of_nat (length acc) \<and>
    subseq (map fst acc) ms \<and>
    (\<forall>i < length acc. le_dec (take 8 (fst (acc ! i))) = rx_seq s + of_nat i)"
  using assms
proof (induction ms arbitrary: s acc)
  case (Cons m ms)
  obtain r out s1 where u: "unseal P s m (replicate MAX_PLAINTEXT 0) = (r, out, s1)"
    by (cases "unseal P s m (replicate MAX_PLAINTEXT 0)") auto
  from u show ?case
  proof (cases rule: unseal_cases)
    case (err e)
    with Cons.prems u have "unseal_run P s1 ms = (acc, s')" by simp
    from Cons.IH [OF this] err show ?thesis by (auto intro: list_emb_Cons)
  next
    case (ok plain n)
    with Cons.prems u obtain acc' where a: "unseal_run P s1 ms = (acc', s')" "acc = (m, take n out) # acc'"
      by (auto split: prod.splits)
    from Cons.IH [OF a(1)] a(2) ok show ?thesis by (auto simp: nth_Cons split: nat.splits)
  qed
qed simp

lemma unseal_run_plain:
  assumes "aead_correct P" and "unseal_run P s ms = (acc, s')" and "i < length acc"
  shows "\<exists>c t. aead_decrypt P (rx s) (session_nonce (rx_seq s + of_nat i))
      (session_aad (rx_seq s + of_nat i)) c t = Some (snd (acc ! i))"
  using assms
proof (induction ms arbitrary: s acc i)
  case (Cons m ms)
  obtain r out s1 where u: "unseal P s m (replicate MAX_PLAINTEXT 0) = (r, out, s1)"
    by (cases "unseal P s m (replicate MAX_PLAINTEXT 0)") auto
  from u show ?case
  proof (cases rule: unseal_cases)
    case (err e)
    with Cons.prems u have "unseal_run P s1 ms = (acc, s')" by simp
    from Cons.IH [OF Cons.prems(1) this Cons.prems(3)] err show ?thesis by simp
  next
    case (ok plain n)
    with Cons.prems u obtain acc' where a: "unseal_run P s1 ms = (acc', s')" "acc = (m, take n out) # acc'"
      by (auto split: prod.splits)
    show ?thesis
    proof (cases i)
      case 0
      have "length plain = n" using ok(8) Cons.prems(1) ok(2,3) unfolding aead_correct_def SEAL_OVERHEAD_def by fastforce
      then show ?thesis using 0 a(2) ok(7,8) by auto
    next
      case (Suc j)
      with Cons.IH [OF Cons.prems(1) a(1), of j] Cons.prems(3) a(2) ok(1,6) show ?thesis
        by (simp add: add.assoc)
    qed
  qed
qed simp

lemma seal_run_nth:
  assumes "seal_run P s ps = (sent, s')"
  shows "rx s' = rx s \<and> tx s' = tx s \<and> unat (tx_seq s) + length sent < 2 ^ 64 \<and>
    tx_seq s' = tx_seq s + of_nat (length sent) \<and> subseq (map fst sent) ps \<and>
    (\<forall>i < length sent. \<exists>body tag. aead_encrypt P (tx s) (session_nonce (tx_seq s + of_nat i))
        (session_aad (tx_seq s + of_nat i)) (fst (sent ! i)) = Some (body, tag) \<and>
        length (fst (sent ! i)) \<le> MAX_PLAINTEXT \<and>
        snd (sent ! i) = take (8 + length (fst (sent ! i)) + 16) (le_enc (tx_seq s + of_nat i) @ body @ tag @
          replicate (MAX_PAYLOAD - (8 + length (fst (sent ! i)) + 16)) 0))"
  using assms
proof (induction ps arbitrary: s sent)
  case Nil
  then show ?case using unsigned_less [of "tx_seq s"] by simp
next
  case (Cons p ps)
  obtain r out s1 where u: "seal P s p (replicate MAX_PAYLOAD 0) = (r, out, s1)"
    by (cases "seal P s p (replicate MAX_PAYLOAD 0)") auto
  from u show ?case
  proof (cases rule: seal_cases)
    case (err e)
    with Cons.prems u have "seal_run P s1 ps = (sent, s')" by simp
    from Cons.IH [OF this] err show ?thesis by (auto intro: list_emb_Cons)
  next
    case (ok body tag)
    with Cons.prems u obtain sent' where
      a: "seal_run P s1 ps = (sent', s')" "sent = (p, take (8 + length p + 16) out) # sent'"
      by (auto split: prod.splits)
    note IH = Cons.IH [OF a(1)]
    have "unat (tx_seq s + 1) = Suc (unat (tx_seq s))"
      using ok(4) by (metis add.commute max_word_wrap unatSuc word_not_simps(1) add_eq_0_iff)
    then show ?thesis
      using IH ok a(2) by (auto simp: nth_Cons add.assoc split: nat.splits)
  qed
qed

lemma unseal_sealed:
  assumes "aead_correct P" and "seal P s p out = (Ok n, out', s')"
    and "rx r = tx s" and "rx_seq r = tx_seq s" and "length p \<le> length buf'"
  shows "unseal P r (take n out') buf' =
    (Ok (length p), p @ drop (length p) buf', r\<lparr>rx_seq := rx_seq r + 1\<rparr>)"
  using assms(2)
proof (cases rule: seal_cases)
  case (ok body tag)
  with assms(1) have l: "length body = length p" "length tag = 16"
    and d: "aead_decrypt P (tx s) (session_nonce (tx_seq s)) (session_aad (tx_seq s)) body tag = Some p"
    by (auto simp: aead_correct_def)
  have m: "take n out' = le_enc (tx_seq s) @ body @ tag" using ok l by simp
  have "drop (8 + length p) (le_enc (tx_seq s) @ body @ tag) = tag" using l by simp
  with d l assms(3-5) show ?thesis
    unfolding m by (simp add: unseal_def SEAL_OVERHEAD_def Let_def not_less)
qed simp

lemma seal_run_unseal_run:
  assumes "aead_correct P" and "rx r = tx s" and "rx_seq r = tx_seq s" and "seal_run P s ps = (sent, s')"
  shows "map snd (fst (unseal_run P r (map snd sent))) = map fst sent"
  using assms
proof (induction ps arbitrary: r s sent)
  case (Cons p ps)
  obtain x out s1 where u: "seal P s p (replicate MAX_PAYLOAD 0) = (x, out, s1)"
    by (cases "seal P s p (replicate MAX_PAYLOAD 0)") auto
  from u show ?case
  proof (cases rule: seal_cases)
    case (err e)
    with Cons u show ?thesis by simp
  next
    case (ok body tag)
    let ?m = "take (8 + length p + 16) out"
    obtain sent' where a: "seal_run P s1 ps = (sent', s')" "sent = (p, ?m) # sent'"
      using Cons.prems(4) u ok(1) by (auto split: prod.splits)
    have "length p \<le> length (replicate MAX_PLAINTEXT (0 :: u8))" using ok(2) by simp
    from unseal_sealed [OF Cons.prems(1) u [unfolded ok(1)] Cons.prems(2,3) this]
    have "unseal P r ?m (replicate MAX_PLAINTEXT 0) =
        (Ok (length p), p @ drop (length p) (replicate MAX_PLAINTEXT 0), r\<lparr>rx_seq := rx_seq r + 1\<rparr>)" .
    moreover from Cons.IH [OF Cons.prems(1) _ _ a(1), of "r\<lparr>rx_seq := rx_seq r + 1\<rparr>"] Cons.prems(2,3) ok(5)
    have "map snd (fst (unseal_run P (r\<lparr>rx_seq := rx_seq r + 1\<rparr>) (map snd sent'))) = map fst sent'" by simp
    ultimately show ?thesis by (auto simp: a(2) split: prod.splits)
  qed
qed simp

section \<open>Reassembly\<close>

lemma reassembler_bound: "length (snd (reassembler_push b fr)) \<le> REASSEMBLER_MAX"
  by (auto simp: reassembler_push_def Let_def split: prod.splits)

interpretation reasm: machine "\<lambda>b fr. snd (reassembler_push b fr)" "\<lambda>b. length b \<le> REASSEMBLER_MAX"
  by unfold_locales (rule reassembler_bound)

text \<open>Feeding fragments one by one: the messages completed on the way.\<close>

fun reassemble :: "bytes \<Rightarrow> (u8 \<times> bytes) list \<Rightarrow> bytes list \<times> bytes" where
  "reassemble b [] = ([], b)"
| "reassemble b (fr # frs) =
     (case reassembler_push b fr of
        (Ok (Some m), b') \<Rightarrow> (case reassemble b' frs of (ms, b'') \<Rightarrow> (m # ms, b''))
      | (_, b') \<Rightarrow> reassemble b' frs)"

lemma reassemble_more:
  assumes "\<forall>fr \<in> set frs. fst fr = FLAG_MORE" and "length b + length (concat (map snd frs)) \<le> REASSEMBLER_MAX"
  shows "reassemble b (frs @ rest) = reassemble (b @ concat (map snd frs)) rest"
  using assms
proof (induction frs arbitrary: b)
  case (Cons fr frs)
  have "reassembler_push b fr = (Ok None, b @ snd fr)"
    using Cons.prems by (cases fr) (simp add: reassembler_push_def FLAG_MORE_def)
  with Cons show ?case by simp
qed simp

lemma fragments_shape:
  "\<exists>frs c. fragments m = frs @ [(0, c)] \<and> (\<forall>fr \<in> set frs. fst fr = FLAG_MORE) \<and>
     concat (map snd frs) @ c = m"
proof (cases "m = []")
  case False
  let ?cs = "chunks MAX_PAYLOAD m"
  have pos: "0 < MAX_PAYLOAD" by (simp add: MAX_PAYLOAD_def)
  with False obtain n where n: "length ?cs = Suc n" by (cases ?cs) auto
  then have last: "max ((length m + MAX_PAYLOAD - 1) div MAX_PAYLOAD) 1 - 1 = n"
    using length_chunks [OF pos, of m] by simp
  let ?f = "\<lambda>(i, c). (if i < n then FLAG_MORE else 0, c)"
  have fr: "fragments m = map ?f (enumerate 0 ?cs)"
    unfolding fragments_def Let_def last using False by simp
  have cs: "?cs = take n ?cs @ [?cs ! n]" using n by (metis lessI order_refl take_Suc_conv_app_nth take_all)
  have "enumerate 0 ?cs = enumerate 0 (take n ?cs) @ [(n, ?cs ! n)]"
    by (subst cs) (use n in \<open>simp add: enumerate_append_eq\<close>)
  then have "fragments m = map ?f (enumerate 0 (take n ?cs)) @ [(0, ?cs ! n)]" by (simp add: fr)
  moreover have "\<forall>fr \<in> set (map ?f (enumerate 0 (take n ?cs))). fst fr = FLAG_MORE"
    using n by (auto simp: in_set_enumerate_eq)
  moreover have "map snd (map ?f (enumerate 0 (take n ?cs))) = take n ?cs"
    by (simp add: comp_def case_prod_beta)
  moreover have "concat (take n ?cs) @ ?cs ! n = m"
    using cs concat_chunks [OF pos, of m] by (metis concat.simps concat_append append_Nil2)
  ultimately show ?thesis by (metis (no_types, lifting))
qed (simp add: fragments_def)

section \<open>Handshake lemmas\<close>

text \<open>Documented behaviour of X25519 and ML-KEM-768 the handshake relies on.\<close>

definition dh_commutes :: "prims \<Rightarrow> bool" where
  "dh_commutes P \<longleftrightarrow> (\<forall>a b. x25519_dh P a (x25519_pub P b) = x25519_dh P b (x25519_pub P a) \<and>
     length (x25519_pub P a) = X25519_LEN)"

definition kem_correct :: "prims \<Rightarrow> bool" where
  "kem_correct P \<longleftrightarrow> (\<forall>seed m. length (kem_ek P seed) = KEM_EK_LEN \<and>
     (\<exists>ct. kem_encaps P (kem_ek P seed) m = Some (ct, kem_decaps P seed ct) \<and> length ct = KEM_CT_LEN))"

definition identity_bytes :: "identity \<Rightarrow> bytes" where
  "identity_bytes i = identity_write_to i (replicate IDENTITY_LEN 0)"

definition signature_bytes :: "signature \<Rightarrow> bytes" where
  "signature_bytes s = signature_write_to s (replicate SIG_LEN 0)"

interpretation identity: codec identity_bytes identity_from_bytes identity_wf
  by unfold_locales (auto simp: identity_bytes_def identity_write_to_def identity_from_bytes_def
      identity_wf_def secure_lens split: if_splits)

interpretation signature: codec signature_bytes signature_from_slice signature_wf
  by unfold_locales (auto simp: signature_bytes_def signature_write_to_def signature_from_bytes_def
      signature_from_slice_def signature_wf_def secure_lens split: if_splits)

lemma identity_bytes_length: "identity_wf i \<Longrightarrow> length (identity_bytes i) = IDENTITY_LEN"
  by (simp add: identity_bytes_def identity_write_to_def identity_wf_def secure_lens)

lemma signature_bytes_length: "signature_wf s \<Longrightarrow> length (signature_bytes s) = SIG_LEN"
  by (simp add: signature_bytes_def signature_write_to_def signature_wf_def secure_lens)

lemma signature_from_bytes_bytes: "signature_wf s \<Longrightarrow> signature_from_bytes (signature_bytes s) = s"
  using signature.dec_enc [of s] by (simp add: signature_from_slice_def split: if_splits)

text \<open>The four steps of an honest run, one lemma each.\<close>

lemma client_hello_ch:
  assumes "dh_commutes P" and "kem_correct P" and "length (cr_nonce rc) = NONCE_LEN"
    and "client_hello P rc = (cs, ch)"
  shows "length ch = CH_LEN" and "cs_ch cs = ch" and "ch ! 0 = VERSION"
    and "take X25519_LEN (drop (1 + NONCE_LEN) ch) = x25519_pub P (cs_x_secret cs)"
    and "drop (1 + NONCE_LEN + X25519_LEN) ch = kem_ek P (cs_dk cs)"
  using assms
  by (auto simp: client_hello_def Let_def dh_commutes_def kem_correct_def CH_LEN_def NONCE_LEN_def
      X25519_LEN_def KEM_EK_LEN_def)

lemma server_respond_Ok:
  assumes "dh_commutes P" and "kem_correct P" and "length (sr_nonce rs) = NONCE_LEN"
    and "identity_wf sid" and "\<And>d. signature_wf (ssign d)"
    and "length ch = CH_LEN" and "ch ! 0 = VERSION"
    and "take X25519_LEN (drop (1 + NONCE_LEN) ch) = x25519_pub P x"
    and "drop (1 + NONCE_LEN + X25519_LEN) ch = kem_ek P dk"
  obtains ss sh where "server_respond P ch rs sid ssign = Ok (ss, sh)" and "ss_ch ss = ch" and "ss_sh ss = sh"
    and "length sh = SH_LEN"
    and "take X25519_LEN (drop NONCE_LEN sh) = x25519_pub P (sr_x25519 rs)"
    and "kem_decaps P dk (take KEM_CT_LEN (drop (NONCE_LEN + X25519_LEN) sh)) = ss_kem_ss ss"
    and "take IDENTITY_LEN (drop (NONCE_LEN + X25519_LEN + KEM_CT_LEN) sh) = identity_bytes sid"
    and "drop SH_UNSIGNED sh = signature_bytes (ssign (digest P (as_bytes ''server'') [ch, take SH_UNSIGNED sh]))"
    and "ss_x_ss ss = x25519_dh P (sr_x25519 rs) (x25519_pub P x)"
proof -
  from assms(2) obtain ct where ct: "kem_encaps P (kem_ek P dk) (sr_kem_m rs) = Some (ct, kem_decaps P dk ct)"
      "length ct = KEM_CT_LEN" "length (kem_ek P dk) = KEM_EK_LEN" by (auto simp: kem_correct_def)
  define sh0 where "sh0 = sr_nonce rs @ x25519_pub P (sr_x25519 rs) @ ct @ identity_bytes sid"
  have xl: "length (x25519_pub P a) = X25519_LEN" for a using assms(1) by (simp add: dh_commutes_def)
  have l0: "length sh0 = SH_UNSIGNED"
    using ct xl assms(3) identity_bytes_length [OF assms(4)] by (simp add: sh0_def SH_UNSIGNED_def)
  define sh where "sh = sh0 @ signature_bytes (ssign (digest P (as_bytes ''server'') [ch, sh0]))"
  let ?ss = "\<lparr>ss_ch = ch, ss_sh = sh, ss_x_ss = x25519_dh P (sr_x25519 rs) (x25519_pub P x),
      ss_kem_ss = kem_decaps P dk ct\<rparr>"
  show thesis
  proof (rule that [of ?ss sh])
    show "server_respond P ch rs sid ssign = Ok (?ss, sh)"
      unfolding server_respond_def Let_def assms(8,9)
      using assms(6,7) ct
      by (simp add: sh_def sh0_def identity_bytes_def signature_bytes_def)
    show "length sh = SH_LEN"
      using l0 signature_bytes_length [OF assms(5)] by (simp add: sh_def SH_LEN_def)
    show "take X25519_LEN (drop NONCE_LEN sh) = x25519_pub P (sr_x25519 rs)"
      using assms(3) xl by (simp add: sh_def sh0_def)
    show "kem_decaps P dk (take KEM_CT_LEN (drop (NONCE_LEN + X25519_LEN) sh)) = ss_kem_ss ?ss"
      using assms(3) xl ct by (simp add: sh_def sh0_def)
    show "take IDENTITY_LEN (drop (NONCE_LEN + X25519_LEN + KEM_CT_LEN) sh) = identity_bytes sid"
      using assms(3) xl ct identity_bytes_length [OF assms(4)] by (simp add: sh_def sh0_def)
    show "drop SH_UNSIGNED sh = signature_bytes (ssign (digest P (as_bytes ''server'') [ch, take SH_UNSIGNED sh]))"
      using l0 by (simp add: sh_def)
  qed simp_all
qed

lemma client_finish_Ok:
  assumes "length sh = SH_LEN"
    and "take IDENTITY_LEN (drop (NONCE_LEN + X25519_LEN + KEM_CT_LEN) sh) = identity_bytes sid"
    and "identity_wf sid"
    and "trust sid (digest P (as_bytes ''server'') [cs_ch cs, take SH_UNSIGNED sh])
      (signature_from_bytes (drop SH_UNSIGNED sh))"
    and "cf = identity_bytes cid @
      signature_bytes (sign_fn (digest P (as_bytes ''client'') [cs_ch cs, sh, identity_bytes cid]))"
    and "derive P (cs_ch cs) sh cf (x25519_dh P (cs_x_secret cs) (take X25519_LEN (drop NONCE_LEN sh)))
      (kem_decaps P (cs_dk cs) (take KEM_CT_LEN (drop (NONCE_LEN + X25519_LEN) sh))) = (c2s, s2c)"
  shows "client_finish P cs sh trust cid sign_fn = Ok (session_new c2s s2c, cf, sid)"
proof -
  have "length (take KEM_CT_LEN (drop (NONCE_LEN + X25519_LEN) sh)) = KEM_CT_LEN"
    using assms(1) by (simp add: secure_lens)
  moreover have "identity_from_bytes (take IDENTITY_LEN (drop (NONCE_LEN + X25519_LEN + KEM_CT_LEN) sh)) = Some sid"
    using assms(2,3) identity.dec_enc by simp
  ultimately show ?thesis
    unfolding client_finish_def Let_def identity_bytes_def [symmetric] signature_bytes_def [symmetric]
      assms(5) [symmetric]
    using assms(1,4,6) by simp
qed

lemma client_finish_OkD:
  assumes "client_finish P cs sh trust cid sign_fn = Ok (sess, cf, server)"
  shows "length sh = SH_LEN" and "\<exists>sg. trust server (digest P (as_bytes ''server'') [cs_ch cs, take SH_UNSIGNED sh]) sg"
  using assms by (auto simp: client_finish_def Let_def split: if_splits option.splits prod.splits)

lemma server_finish_OkD:
  assumes "server_finish P ss cf trust = Ok (sess, client)"
  shows "length cf = CF_LEN"
    and "\<exists>sg. trust client (digest P (as_bytes ''client'') [ss_ch ss, ss_sh ss, take IDENTITY_LEN cf]) sg"
  using assms by (auto simp: server_finish_def Let_def split: if_splits option.splits prod.splits)

lemma server_finish_Ok:
  assumes "cf = identity_bytes cid @ signature_bytes sg" and "identity_wf cid" and "signature_wf sg"
    and "trust cid (digest P (as_bytes ''client'') [ss_ch ss, ss_sh ss, identity_bytes cid]) sg"
    and "derive P (ss_ch ss) (ss_sh ss) cf (ss_x_ss ss) (ss_kem_ss ss) = (c2s, s2c)"
  shows "server_finish P ss cf trust = Ok (session_new s2c c2s, cid)"
proof -
  note l = identity_bytes_length [OF assms(2)] signature_bytes_length [OF assms(3)]
  have "length cf = CF_LEN" "take IDENTITY_LEN cf = identity_bytes cid" "drop IDENTITY_LEN cf = signature_bytes sg"
    using l by (simp_all add: assms(1) CF_LEN_def)
  then show ?thesis
    using assms(3-5) identity.dec_enc [OF assms(2)]
    by (simp add: server_finish_def Let_def signature_from_bytes_bytes)
qed

lemma handshake_run:
  assumes P: "dh_commutes P" "kem_correct P"
    and nonces: "length (cr_nonce rc) = NONCE_LEN" "length (sr_nonce rs) = NONCE_LEN"
    and ids: "identity_wf cid" "identity_wf sid"
    and sigs: "\<And>d. signature_wf (csign d)" "\<And>d. signature_wf (ssign d)"
    and trusts: "\<And>d. ctrust sid d (ssign d)" "\<And>d. strust cid d (csign d)"
  shows "\<exists>cs ch ss sh csess cf ssess. client_hello P rc = (cs, ch) \<and>
    server_respond P ch rs sid ssign = Ok (ss, sh) \<and>
    client_finish P cs sh ctrust cid csign = Ok (csess, cf, sid) \<and>
    server_finish P ss cf strust = Ok (ssess, cid) \<and>
    tx csess = rx ssess \<and> rx csess = tx ssess \<and> tx_seq csess = rx_seq ssess \<and> rx_seq csess = tx_seq ssess"
proof -
  obtain cs ch where hello: "client_hello P rc = (cs, ch)" by fastforce
  note ch = client_hello_ch [OF P nonces(1) hello]
  obtain ss sh where resp: "server_respond P ch rs sid ssign = Ok (ss, sh)" and ss: "ss_ch ss = ch" "ss_sh ss = sh"
    and len: "length sh = SH_LEN"
    and sh: "take X25519_LEN (drop NONCE_LEN sh) = x25519_pub P (sr_x25519 rs)"
      "kem_decaps P (cs_dk cs) (take KEM_CT_LEN (drop (NONCE_LEN + X25519_LEN) sh)) = ss_kem_ss ss"
      "take IDENTITY_LEN (drop (NONCE_LEN + X25519_LEN + KEM_CT_LEN) sh) = identity_bytes sid"
      "drop SH_UNSIGNED sh = signature_bytes (ssign (digest P (as_bytes ''server'') [ch, take SH_UNSIGNED sh]))"
      "ss_x_ss ss = x25519_dh P (sr_x25519 rs) (x25519_pub P (cs_x_secret cs))"
    by (rule server_respond_Ok [OF P nonces(2) ids(2) sigs(2) ch(1,3,4,5)])
  define d where "d = digest P (as_bytes ''client'') [ch, sh, identity_bytes cid]"
  define cf where "cf = identity_bytes cid @ signature_bytes (csign d)"
  obtain c2s s2c where keys: "derive P ch sh cf (ss_x_ss ss) (ss_kem_ss ss) = (c2s, s2c)" by fastforce
  have xss: "ss_x_ss ss = x25519_dh P (cs_x_secret cs) (x25519_pub P (sr_x25519 rs))"
    using P(1) sh(5) by (simp add: dh_commutes_def)
  have "client_finish P cs sh ctrust cid csign = Ok (session_new c2s s2c, cf, sid)"
  proof (rule client_finish_Ok [OF len sh(3) ids(2)])
    show "ctrust sid (digest P (as_bytes ''server'') [cs_ch cs, take SH_UNSIGNED sh])
        (signature_from_bytes (drop SH_UNSIGNED sh))"
      using trusts(1) sh(4) by (simp add: ch(2) signature_from_bytes_bytes [OF sigs(2)])
  qed (use keys xss in \<open>simp_all add: cf_def d_def ch(2) sh\<close>)
  moreover have "server_finish P ss cf strust = Ok (session_new s2c c2s, cid)"
  proof (rule server_finish_Ok [OF cf_def ids(1) sigs(1)])
    show "strust cid (digest P (as_bytes ''client'') [ss_ch ss, ss_sh ss, identity_bytes cid]) (csign d)"
      using trusts(2) by (simp add: d_def ss)
  qed (simp add: ss keys)
  ultimately show ?thesis using hello resp by (fastforce simp: session_new_def)
qed

text \<open>The bytes a server signature covers (through the digest).\<close>

definition server_transcript :: "bytes \<times> bytes \<Rightarrow> bytes" where
  "server_transcript = (\<lambda>(ch, sh). PROTOCOL @ as_bytes '' '' @ as_bytes ''server'' @ ch @ take SH_UNSIGNED sh)"

lemma digest_server_transcript:
  "digest P (as_bytes ''server'') [ch, take SH_UNSIGNED sh] = sha256 P (server_transcript (ch, sh))"
  by (simp add: digest_def server_transcript_def)

lemma server_transcript_inject:
  "server_transcript (ch, sh) = server_transcript (ch', sh') \<Longrightarrow> length ch = length ch' \<Longrightarrow>
     ch = ch' \<and> take SH_UNSIGNED sh = take SH_UNSIGNED sh'"
  by (simp add: server_transcript_def)

lemma server_respond_length: "server_respond P ch rnd i f = Ok r \<Longrightarrow> length ch = CH_LEN"
  by (simp add: server_respond_def split: if_splits)

section \<open>Properties\<close>

text \<open>A concrete instance of the libraries, for the witnesses.\<close>

definition plain_prims :: prims where
  "plain_prims = \<lparr>sha256 = (\<lambda>b. b), hkdf = (\<lambda>_ _ info. info),
     x25519_pub = (\<lambda>_. replicate X25519_LEN 0), x25519_dh = (\<lambda>_ _. []),
     kem_ek = (\<lambda>_. replicate KEM_EK_LEN 0), kem_encaps = (\<lambda>_ _. Some (replicate KEM_CT_LEN 0, [])),
     kem_decaps = (\<lambda>_ _. []),
     ed_verify = (\<lambda>_ _ _. True), ml_verify = (\<lambda>_ _ _ _. True),
     ed_public = (\<lambda>_. replicate ED_PUB_LEN 0), ml_public = (\<lambda>_. replicate ML_PUB_LEN 0),
     ed_sign = (\<lambda>_ _. replicate ED_SIG_LEN 0), ml_sign = (\<lambda>_ _ _. replicate ML_SIG_LEN 0),
     aead_encrypt = (\<lambda>_ n _ p. if n = session_nonce 0 \<and> p = [7] then Some (p, replicate 16 0) else None),
     aead_decrypt = (\<lambda>_ n _ c _. if n = session_nonce 0 \<and> c = [7] then Some [7] else None)\<rparr>"

definition zero_identity :: identity where
  "zero_identity = \<lparr>id_ed = replicate ED_PUB_LEN 0, id_ml = replicate ML_PUB_LEN 0\<rparr>"

definition zero_signature :: signature where
  "zero_signature = \<lparr>sig_ed = replicate ED_SIG_LEN 0, sig_ml = replicate ML_SIG_LEN 0\<rparr>"

definition zero_client_random :: client_random where
  "zero_client_random = \<lparr>cr_x25519 = [], cr_kem_seed = [], cr_nonce = replicate NONCE_LEN 0\<rparr>"

definition zero_server_random :: server_random where
  "zero_server_random = \<lparr>sr_x25519 = [], sr_kem_m = [], sr_nonce = replicate NONCE_LEN 0\<rparr>"

lemma plain_prims_ok: "dh_commutes plain_prims" "kem_correct plain_prims"
  by (simp_all add: plain_prims_def dh_commutes_def kem_correct_def)

lemma zero_ok: "identity_wf zero_identity" "signature_wf zero_signature"
  "length (cr_nonce zero_client_random) = NONCE_LEN" "length (sr_nonce zero_server_random) = NONCE_LEN"
  by (simp_all add: identity_wf_def signature_wf_def zero_identity_def zero_signature_def
      zero_client_random_def zero_server_random_def)






lemma plain_aead_correct: "aead_correct plain_prims"
  by (simp add: aead_correct_def plain_prims_def)

definition sealed_7 :: bytes where "sealed_7 = le_enc (0 :: u64) @ [7] @ replicate 16 0"

lemma plain_seal_run:
  "seal_run plain_prims (session_new [2] [1]) [[7]] = ([([7], sealed_7)], session_new [2] [1]\<lparr>tx_seq := 1\<rparr>)"
proof -
  have "\<not> MAX_PAYLOAD < 25" by (simp add: MAX_PAYLOAD_def)
  then show ?thesis
    by (simp add: seal_def session_new_def plain_prims_def MAX_PLAINTEXT_eq sealed_7_def Let_def)
qed


text \<open>
  Messages sealed by one end and delivered in order are opened by the other to the very
  plaintexts that were sealed (those the sender could seal).
\<close>

theorem sealed_messages_open:
  assumes "aead_correct P" and "rx r = tx s" and "rx_seq r = tx_seq s" and "seal_run P s ps = (sent, s')"
  shows "map snd (fst (unseal_run P r (map snd sent))) = map fst sent"
  using assms by (rule seal_run_unseal_run)

theorem sealed_messages_open_witness:
  "map snd (fst (unseal_run plain_prims (session_new [1] [2]) [sealed_7])) = [[7]]"
  using sealed_messages_open [OF plain_aead_correct _ _ plain_seal_run, of "session_new [1] [2]"]
  by (simp add: session_new_def)

text \<open>
  C12: No key and nonce pair is ever used for two messages: in any run of the sender the
  \<open>i\<close>-th sealed message uses the nonce of sequence number \<open>start + i\<close>, these nonces are
  pairwise distinct, and sealing stops before the counter could wrap.
\<close>

theorem seal_nonces_unique:
  assumes "seal_run P s ps = (sent, s')"
  shows "unat (tx_seq s) + length sent < 2 ^ 64 \<and>
    distinct (map (\<lambda>i. session_nonce (tx_seq s + of_nat i)) [0..<length sent]) \<and>
    (\<forall>i < length sent. \<exists>body tag. aead_encrypt P (tx s) (session_nonce (tx_seq s + of_nat i))
       (session_aad (tx_seq s + of_nat i)) (fst (sent ! i)) = Some (body, tag))"
proof -
  from seal_run_nth [OF assms] have lt: "unat (tx_seq s) + length sent < 2 ^ 64" by simp
  have "inj_on (\<lambda>i. session_nonce (tx_seq s + of_nat i)) {0..<length sent}"
    using lt add_of_nat_inject by (intro inj_onI) auto
  then have "distinct (map (\<lambda>i. session_nonce (tx_seq s + of_nat i)) [0..<length sent])"
    by (simp add: distinct_map)
  with seal_run_nth [OF assms] show ?thesis by meson
qed

theorem seal_nonces_unique_witness:
  "unat (tx_seq (session_new [2] [1])) + 1 < 2 ^ 64 \<and>
   (\<exists>body tag. aead_encrypt plain_prims [2] (session_nonce 0) (session_aad 0) [7] = Some (body, tag))"
  using seal_nonces_unique [OF plain_seal_run] by (simp add: session_new_def)

text \<open>
  The messages the receiver accepts, out of any input, are a subsequence of that input
  with consecutive sequence numbers from its counter on; in particular no message is
  accepted twice within \<open>2^64\<close> acceptances.
\<close>

theorem unseal_rejects_replay:
  assumes "unseal_run P s input = (acc, s')"
  shows "subseq (map fst acc) input \<and> rx_seq s' = rx_seq s + of_nat (length acc) \<and>
    (\<forall>i < length acc. le_dec (take 8 (fst (acc ! i))) = rx_seq s + of_nat i) \<and>
    (length acc \<le> 2 ^ 64 \<longrightarrow> distinct (map fst acc))"
proof -
  note seq = unseal_run_seq [OF assms]
  have "distinct (map fst acc)" if len: "length acc \<le> 2 ^ 64"
    unfolding distinct_conv_nth
  proof (intro allI impI)
    fix i j
    assume ij: "i < length (map fst acc)" "j < length (map fst acc)" "i \<noteq> j"
    then have "rx_seq s + of_nat i \<noteq> rx_seq s + of_nat j"
      using len add_of_nat_inject [of i j] by simp
    then show "map fst acc ! i \<noteq> map fst acc ! j" using seq ij by (metis length_map nth_map)
  qed
  with seq show ?thesis by blast
qed

theorem unseal_rejects_replay_witness:
  "\<exists>acc s'. unseal_run plain_prims (session_new [1] [2]) [sealed_7] = (acc, s') \<and>
     rx_seq s' = of_nat (length acc)"
proof -
  obtain acc s' where "unseal_run plain_prims (session_new [1] [2]) [sealed_7] = (acc, s')"
    by fastforce
  with unseal_rejects_replay [OF this] show ?thesis by (auto simp: session_new_def)
qed

text \<open>
  A handshake message of at most \<open>Reassembler::MAX\<close> bytes, split into fragments and
  fed to an empty reassembler, comes out whole and leaves the reassembler empty; and no
  input at all makes its buffer exceed that bound.
\<close>

theorem fragments_reassemble:
  assumes "length m \<le> REASSEMBLER_MAX"
  shows "reassemble [] (fragments m) = ([m], []) \<and>
    length (foldl (\<lambda>b fr. snd (reassembler_push b fr)) [] frs) \<le> REASSEMBLER_MAX"
proof -
  obtain ms c where f: "fragments m = ms @ [(0, c)]" "\<forall>fr \<in> set ms. fst fr = FLAG_MORE"
    "concat (map snd ms) @ c = m"
    using fragments_shape by blast
  have "length (concat (map snd ms)) \<le> length m" using f(3) by (metis le_add1 length_append)
  with assms have "reassemble [] (fragments m) = reassemble (concat (map snd ms)) [(0, c)]"
    unfolding f(1) by (subst reassemble_more [OF f(2)]) auto
  moreover have "reassembler_push (concat (map snd ms)) (0, c) = (Ok (Some m), [])"
    using assms f(3) by (auto simp: reassembler_push_def simp flip: length_append)
  ultimately show ?thesis using reasm.inv_run [of "[]" frs] by simp
qed

theorem fragments_reassemble_witness:
  "reassemble [] (fragments (replicate MAX_FRAME 1)) = ([replicate MAX_FRAME 1], [])"
proof -
  have "length (replicate MAX_FRAME (1 :: u8)) \<le> REASSEMBLER_MAX"
    by (simp add: REASSEMBLER_MAX_def frame_consts)
  from fragments_reassemble [OF this] show ?thesis by simp
qed

end
