(* ===== verification/ToolMsg.thy ===== *)
theory ToolMsg
  imports SecureChannel
begin

text \<open>
  The tool-call messages of \<open>link/src/tool.rs\<close>: listings, calls, result chunks and
  responses, with their encoders and the bounds-checked decoder. Shown: the decoder accepts
  exactly the canonical encodings of well-formed messages, and a result of any length
  arrives as its first \<open>MAX_RESULT\<close> bytes with the truncation recorded in the status.
\<close>

section \<open>Messages\<close>

definition LIST_REQUEST :: u8 where "LIST_REQUEST = 3"
definition LIST_RESPONSE :: u8 where "LIST_RESPONSE = 4"
definition CALL_REQUEST :: u8 where "CALL_REQUEST = 1"
definition CALL_RESPONSE :: u8 where "CALL_RESPONSE = 2"
definition CALL_CHUNK :: u8 where "CALL_CHUNK = 5"
definition MAX_NAME :: nat where "MAX_NAME = 48"
definition MAX_BODY :: nat where "MAX_BODY = MAX_PLAINTEXT - 8 - MAX_NAME"
definition MAX_RESULT :: nat where "MAX_RESULT = 16 * 1024"
definition MODEL_PREFIX :: str where "MODEL_PREFIX = ''model:''"
definition MAX_ENDPOINT :: nat where "MAX_ENDPOINT = 64"
definition FLAG_CREDENTIAL :: u8 where "FLAG_CREDENTIAL = 1"
definition FLAG_REMOTE :: u8 where "FLAG_REMOTE = 2"
definition MAX_TOOLS :: nat where "MAX_TOOLS = 16"

lemmas tool_tags = LIST_REQUEST_def LIST_RESPONSE_def CALL_REQUEST_def CALL_RESPONSE_def CALL_CHUNK_def

lemma MAX_BODY_eq: "MAX_BODY = 944"
  by (simp add: MAX_BODY_def MAX_NAME_def MAX_PLAINTEXT_eq)

datatype status = StOk | ToolError | UnknownTool | Refused | Unavailable | Truncated

primrec status_u8 :: "status \<Rightarrow> u8" where
  "status_u8 StOk = 0"
| "status_u8 ToolError = 1"
| "status_u8 UnknownTool = 2"
| "status_u8 Refused = 3"
| "status_u8 Unavailable = 4"
| "status_u8 Truncated = 5"

definition status_from_u8 :: "u8 \<Rightarrow> status option" where
  "status_from_u8 v =
     (if v = 0 then Some StOk else if v = 1 then Some ToolError else if v = 2 then Some UnknownTool
      else if v = 3 then Some Refused else if v = 4 then Some Unavailable
      else if v = 5 then Some Truncated else None)"

datatype tool_msg_error = ToolMalformed | ToolTooLarge

record tool_entry =
  te_name :: str
  te_flags :: u8
  te_endpoint :: str

definition entry_new :: "str \<Rightarrow> tool_entry" where
  "entry_new name = \<lparr>te_name = name, te_flags = 0, te_endpoint = []\<rparr>"

datatype tool_msg =
    ListRequest
  | ListResponse "tool_entry list"
  | CallRequest u32 str bytes
  | CallResponse u32 status bytes
  | CallChunk u32 bytes

definition name_char :: "char \<Rightarrow> bool" where
  "name_char c \<longleftrightarrow> is_ascii_alphanumeric c \<or> c \<in> set ''._-/:''"

definition valid_name :: "str \<Rightarrow> bool" where
  "valid_name n \<longleftrightarrow> n \<noteq> [] \<and> length n \<le> MAX_NAME \<and> list_all name_char n"

definition valid_endpoint :: "str \<Rightarrow> bool" where
  "valid_endpoint e \<longleftrightarrow> length e \<le> MAX_ENDPOINT \<and> list_all is_ascii_graphic e"

definition encode_list_request :: bytes where
  "encode_list_request = [LIST_REQUEST]"

definition entry_bytes :: "tool_entry \<Rightarrow> bytes" where
  "entry_bytes e =
     of_nat (length (te_name e)) # as_bytes (te_name e) @ [te_flags e] @
     of_nat (length (te_endpoint e)) # as_bytes (te_endpoint e)"

definition list_bytes :: "tool_entry list \<Rightarrow> bytes" where
  "list_bytes es = LIST_RESPONSE # of_nat (length es) # concat (map entry_bytes es)"

definition encode_list_response :: "tool_entry list \<Rightarrow> (bytes, tool_msg_error) result" where
  "encode_list_response es =
     (if length es > MAX_TOOLS \<or> \<not> list_all (\<lambda>e. valid_name (te_name e) \<and> valid_endpoint (te_endpoint e)) es
      then Err ToolTooLarge else Ok (list_bytes es))"

definition call_bytes :: "u32 \<Rightarrow> str \<Rightarrow> bytes \<Rightarrow> bytes" where
  "call_bytes call_id name args =
     CALL_REQUEST # le_enc call_id @ of_nat (length name) # as_bytes name @
     le_enc (of_nat (length args) :: u16) @ args"

definition encode_call_request :: "u32 \<Rightarrow> str \<Rightarrow> bytes \<Rightarrow> (bytes, tool_msg_error) result" where
  "encode_call_request call_id name args =
     (if \<not> valid_name name \<or> length args > MAX_BODY then Err ToolTooLarge
      else Ok (call_bytes call_id name args))"

text \<open>Cutting a body to \<open>n\<close> bytes; an \<open>Ok\<close> status becomes \<open>Truncated\<close>.\<close>

definition truncate :: "nat \<Rightarrow> status \<Rightarrow> bytes \<Rightarrow> status \<times> bytes" where
  "truncate n st body =
     (if length body > n then (if st = StOk then Truncated else st, take n body) else (st, body))"

definition response_bytes :: "u32 \<Rightarrow> status \<Rightarrow> bytes \<Rightarrow> bytes" where
  "response_bytes call_id st body =
     CALL_RESPONSE # le_enc call_id @ status_u8 st # le_enc (of_nat (length body) :: u16) @ body"

definition encode_call_response :: "u32 \<Rightarrow> status \<Rightarrow> bytes \<Rightarrow> bytes" where
  "encode_call_response call_id st body =
     (case truncate MAX_BODY st body of (st', body') \<Rightarrow> response_bytes call_id st' body')"

definition chunk_bytes :: "u32 \<Rightarrow> bytes \<Rightarrow> bytes" where
  "chunk_bytes call_id p = CALL_CHUNK # le_enc call_id @ le_enc (of_nat (length p) :: u16) @ p"

definition encode_call_result :: "u32 \<Rightarrow> status \<Rightarrow> bytes \<Rightarrow> bytes list" where
  "encode_call_result call_id st body =
     (case truncate MAX_RESULT st body of (st', body') \<Rightarrow>
        let parts = chunks MAX_BODY body';
            lst = (if parts = [] then [] else last parts) in
        map (chunk_bytes call_id) (butlast parts) @ [encode_call_response call_id st' lst])"

section \<open>Decoding\<close>

definition rd_str :: "nat \<Rightarrow> str reader" where
  "rd_str n b = do { (x, r) \<leftarrow> rd_take n b; s \<leftarrow> from_utf8 x; Some (s, r) }"

definition rd_entry :: "tool_entry reader" where
  "rd_entry r = do {
     (n, t) \<leftarrow> rd_u8 r;
     (name, t) \<leftarrow> rd_str (unat n) t;
     (flags, t) \<leftarrow> rd_u8 t;
     (elen, t) \<leftarrow> rd_u8 t;
     (endpoint, t) \<leftarrow> rd_str (unat elen) t;
     if \<not> valid_name name \<or> \<not> valid_endpoint endpoint \<or> flags AND NOT (FLAG_CREDENTIAL OR FLAG_REMOTE) \<noteq> 0
     then None
     else Some (\<lparr>te_name = name, te_flags = flags, te_endpoint = endpoint\<rparr>, t) }"

definition decode_list :: "bytes \<Rightarrow> tool_msg option" where
  "decode_list rest = do {
     (count, r) \<leftarrow> rd_u8 rest;
     if unat count > MAX_TOOLS then None
     else do {
       (es, r) \<leftarrow> rd_many (unat count) rd_entry r;
       if r \<noteq> [] then None else Some (ListResponse es) } }"

text \<open>The last field of a message: its length, then exactly that many bytes.\<close>

definition rd_body :: "bytes \<Rightarrow> bytes option" where
  "rd_body r = do {
     (n, t) \<leftarrow> rd_u16 r;
     (body, t') \<leftarrow> rd_take (unat n) t;
     if length r \<noteq> 2 + unat n \<or> unat n > MAX_BODY then None else Some body }"

definition decode_call :: "bytes \<Rightarrow> tool_msg option" where
  "decode_call rest = do {
     (call_id, r) \<leftarrow> rd_u32 rest;
     (n, r) \<leftarrow> rd_u8 r;
     (name, r) \<leftarrow> rd_str (unat n) r;
     if \<not> valid_name name then None
     else do { args \<leftarrow> rd_body r; Some (CallRequest call_id name args) } }"

definition decode_response :: "bytes \<Rightarrow> tool_msg option" where
  "decode_response rest = do {
     (call_id, r) \<leftarrow> rd_u32 rest;
     (st, r) \<leftarrow> rd_u8 r;
     status \<leftarrow> status_from_u8 st;
     body \<leftarrow> rd_body r;
     Some (CallResponse call_id status body) }"

definition decode_chunk :: "bytes \<Rightarrow> tool_msg option" where
  "decode_chunk rest = do {
     (call_id, r) \<leftarrow> rd_u32 rest;
     body \<leftarrow> rd_body r;
     Some (CallChunk call_id body) }"

definition decode :: "bytes \<Rightarrow> (tool_msg, tool_msg_error) result" where
  "decode b = ok_or
     (case b of
        [] \<Rightarrow> None
      | tag # rest \<Rightarrow>
          if tag = LIST_REQUEST \<and> rest = [] then Some ListRequest
          else if tag = LIST_RESPONSE then decode_list rest
          else if tag = CALL_REQUEST then decode_call rest
          else if tag = CALL_RESPONSE then decode_response rest
          else if tag = CALL_CHUNK then decode_chunk rest
          else None) ToolMalformed"

section \<open>The codec\<close>

definition entry_wf :: "tool_entry \<Rightarrow> bool" where
  "entry_wf e \<longleftrightarrow> valid_name (te_name e) \<and> valid_endpoint (te_endpoint e) \<and>
     te_flags e AND NOT (FLAG_CREDENTIAL OR FLAG_REMOTE) = 0"

primrec msg_wf :: "tool_msg \<Rightarrow> bool" where
  "msg_wf ListRequest = True"
| "msg_wf (ListResponse es) = (length es \<le> MAX_TOOLS \<and> list_all entry_wf es)"
| "msg_wf (CallRequest i name args) = (valid_name name \<and> length args \<le> MAX_BODY)"
| "msg_wf (CallResponse i st body) = (length body \<le> MAX_BODY)"
| "msg_wf (CallChunk i body) = (length body \<le> MAX_BODY)"

primrec encode_msg :: "tool_msg \<Rightarrow> bytes" where
  "encode_msg ListRequest = encode_list_request"
| "encode_msg (ListResponse es) = list_bytes es"
| "encode_msg (CallRequest i name args) = call_bytes i name args"
| "encode_msg (CallResponse i st body) = response_bytes i st body"
| "encode_msg (CallChunk i body) = chunk_bytes i body"

lemma valid_name_str: "valid_name n \<Longrightarrow> valid_str n \<and> length n < 256"
  by (auto simp: valid_name_def MAX_NAME_def name_char_def list_all_iff
      intro!: ascii_valid_str dest: ascii_classes_less_128)

lemma valid_endpoint_str: "valid_endpoint n \<Longrightarrow> valid_str n \<and> length n < 256"
  by (auto simp: valid_endpoint_def MAX_ENDPOINT_def list_all_iff
      intro!: ascii_valid_str dest: ascii_classes_less_128)

lemma unat_of_nat_8: "n < 256 \<Longrightarrow> unat (of_nat n :: u8) = n"
  by (simp add: unat_of_nat)

lemma rd_str_append [read_fields]:
  "valid_str s \<Longrightarrow> length s = n \<Longrightarrow> rd_str n (as_bytes s @ r) = Some (s, r)"
  by (simp add: rd_str_def rd_take_append)

lemma rd_str_SomeD [read_dests]:
  "rd_str n b = Some (s, r) \<Longrightarrow> b = as_bytes s @ r \<and> length s = n \<and> valid_str s"
  by (fastforce simp: rd_str_def bind_eq_Some_conv dest: read_dests)

lemma rd_entry_append:
  assumes "entry_wf e"
  shows "rd_entry (entry_bytes e @ r) = Some (e, r)"
proof -
  have v: "valid_name (te_name e)" "valid_endpoint (te_endpoint e)" using assms by (simp_all add: entry_wf_def)
  note vs = valid_name_str [OF v(1)] valid_endpoint_str [OF v(2)]
  have "rd_str (length (te_endpoint e)) (as_bytes (te_endpoint e) @ r) = Some (te_endpoint e, r)"
    using vs by (simp add: rd_str_append)
  with vs assms show ?thesis
    by (simp add: rd_entry_def entry_bytes_def entry_wf_def read_fields unat_of_nat_8)
qed

lemma rd_entry_SomeD:
  assumes "rd_entry b = Some (e, r)"
  shows "b = entry_bytes e @ r" and "entry_wf e"
proof -
  from assms obtain n t0 name t1 flags t2 m t3 endpoint where
    f: "rd_u8 b = Some (n, t0)" "rd_str (unat n) t0 = Some (name, t1)" "rd_u8 t1 = Some (flags, t2)"
      "rd_u8 t2 = Some (m, t3)" "rd_str (unat m) t3 = Some (endpoint, r)"
    and c: "valid_name name" "valid_endpoint endpoint" "flags AND NOT (FLAG_CREDENTIAL OR FLAG_REMOTE) = 0"
    and e: "e = \<lparr>te_name = name, te_flags = flags, te_endpoint = endpoint\<rparr>"
    by (auto simp: rd_entry_def bind_eq_Some_conv split: if_splits)
  note d = rd_u8_SomeD [OF f(1)] rd_str_SomeD [OF f(2)] rd_u8_SomeD [OF f(3)] rd_u8_SomeD [OF f(4)]
    rd_str_SomeD [OF f(5)]
  have "of_nat (length name) = n" "of_nat (length endpoint) = m" using d by auto
  then show "b = entry_bytes e @ r" using d by (simp add: e entry_bytes_def)
  show "entry_wf e" using c by (simp add: e entry_wf_def)
qed

lemma rd_body_append:
  "length body \<le> MAX_BODY \<Longrightarrow> rd_body (le_enc (of_nat (length body) :: u16) @ body) = Some body"
  by (simp add: rd_body_def rd_ints_append rd_take_all MAX_BODY_eq unat_of_nat)

lemma rd_body_SomeD:
  assumes "rd_body r = Some body"
  shows "r = le_enc (of_nat (length body) :: u16) @ body \<and> length body \<le> MAX_BODY"
proof -
  from assms obtain n t t' where f: "rd_u16 r = Some (n, t)" "rd_take (unat n) t = Some (body, t')"
    and c: "length r = 2 + unat n" "unat n \<le> MAX_BODY"
    by (auto simp: rd_body_def bind_eq_Some_conv split: if_splits)
  have "r = le_enc n @ body @ t'" "length body = unat n"
    using rd_ints_SomeD(1) [OF f(1)] rd_take_SomeD [OF f(2)] by auto
  with c show ?thesis by auto
qed

lemma rd_entries_append:
  assumes "list_all entry_wf es"
  shows "rd_many (length es) rd_entry (concat (map entry_bytes es)) = Some (es, [])"
  using rd_many_append [of es rd_entry entry_bytes "length es" "[]"] assms rd_entry_append
  by (simp add: list_all_iff)

lemma rd_entries_SomeD:
  assumes "rd_many n rd_entry b = Some (es, r)"
  shows "b = concat (map entry_bytes es) @ r" and "length es = n" and "list_all entry_wf es"
proof -
  show "b = concat (map entry_bytes es) @ r" "length es = n"
    using rd_many_SomeD [OF rd_entry_SomeD(1) assms] by auto
  show "list_all entry_wf es"
    using assms by (induction n arbitrary: b es) (auto simp: bind_eq_Some_conv dest: rd_entry_SomeD(2))
qed

lemma status_from_u8_iff: "status_from_u8 v = Some st \<longleftrightarrow> status_u8 st = v"
  by (cases st) (auto simp: status_from_u8_def)

lemma status_from_u8_u8 [simp]: "status_from_u8 (status_u8 st) = Some st"
  by (simp add: status_from_u8_iff)

lemma decode_encode:
  assumes "msg_wf m"
  shows "decode (encode_msg m) = Ok m"
proof (cases m)
  case (ListResponse es)
  have "length es \<le> MAX_TOOLS" "list_all entry_wf es" using assms ListResponse by simp_all
  then have "decode_list (of_nat (length es) # concat (map entry_bytes es)) = Some (ListResponse es)"
    by (simp add: decode_list_def rd_u8_Cons rd_entries_append unat_of_nat_8 MAX_TOOLS_def)
  then show ?thesis by (simp add: ListResponse decode_def list_bytes_def tool_tags)
next
  case (CallRequest i name args)
  then have v: "valid_name name" "length args \<le> MAX_BODY" using assms by simp_all
  then show ?thesis
    using valid_name_str [OF v(1)]
    by (simp add: CallRequest decode_def call_bytes_def tool_tags decode_call_def read_fields
        rd_body_append unat_of_nat_8)
next
  case (CallResponse i st body)
  then show ?thesis
    using assms by (simp add: decode_def response_bytes_def tool_tags decode_response_def read_fields
        rd_body_append status_from_u8_iff)
next
  case (CallChunk i body)
  then show ?thesis
    using assms by (simp add: decode_def chunk_bytes_def tool_tags decode_chunk_def read_fields rd_body_append)
qed (simp_all add: decode_def encode_list_request_def tool_tags)

lemma decode_list_SomeD:
  assumes "decode_list r = Some m"
  shows "msg_wf m \<and> encode_msg m = LIST_RESPONSE # r"
proof -
  from assms obtain n t es where f: "rd_u8 r = Some (n, t)" "rd_many (unat n) rd_entry t = Some (es, [])"
    and c: "unat n \<le> MAX_TOOLS" "m = ListResponse es"
    by (auto simp: decode_list_def bind_eq_Some_conv split: if_splits)
  from rd_entries_SomeD [OF f(2)] rd_u8_SomeD [OF f(1)] c show ?thesis
    by (auto simp: list_bytes_def)
qed

lemma decode_call_SomeD:
  assumes "decode_call r = Some m"
  shows "msg_wf m \<and> encode_msg m = CALL_REQUEST # r"
proof -
  from assms obtain i t0 n t1 name t2 args where
    f: "rd_u32 r = Some (i, t0)" "rd_u8 t0 = Some (n, t1)" "rd_str (unat n) t1 = Some (name, t2)" "rd_body t2 = Some args"
    and c: "valid_name name" "m = CallRequest i name args"
    by (auto simp: decode_call_def bind_eq_Some_conv split: if_splits)
  from rd_ints_SomeD(2) [OF f(1)] rd_u8_SomeD [OF f(2)] rd_str_SomeD [OF f(3)] rd_body_SomeD [OF f(4)] c
  show ?thesis by (auto simp: call_bytes_def)
qed

lemma decode_response_SomeD:
  assumes "decode_response r = Some m"
  shows "msg_wf m \<and> encode_msg m = CALL_RESPONSE # r"
proof -
  from assms obtain i t0 v t1 st body where
    f: "rd_u32 r = Some (i, t0)" "rd_u8 t0 = Some (v, t1)" "status_from_u8 v = Some st" "rd_body t1 = Some body"
    and c: "m = CallResponse i st body"
    by (auto simp: decode_response_def bind_eq_Some_conv)
  from rd_ints_SomeD(2) [OF f(1)] rd_u8_SomeD [OF f(2)] f(3) rd_body_SomeD [OF f(4)] c
  show ?thesis by (simp add: response_bytes_def status_from_u8_iff)
qed

lemma decode_chunk_SomeD:
  assumes "decode_chunk r = Some m"
  shows "msg_wf m \<and> encode_msg m = CALL_CHUNK # r"
proof -
  from assms obtain i t0 body where f: "rd_u32 r = Some (i, t0)" "rd_body t0 = Some body" "m = CallChunk i body"
    by (auto simp: decode_chunk_def bind_eq_Some_conv)
  from rd_ints_SomeD(2) [OF f(1)] rd_body_SomeD [OF f(2)] f(3) show ?thesis by (simp add: chunk_bytes_def)
qed

lemma tool_decode_OkD:
  assumes "decode b = Ok m"
  shows "msg_wf m \<and> encode_msg m = b"
  using assms decode_list_SomeD decode_call_SomeD decode_response_SomeD decode_chunk_SomeD
  by (auto simp: decode_def encode_list_request_def split: list.splits if_splits)

interpretation tool: codec encode_msg "\<lambda>b. ok (decode b)" msg_wf
  by unfold_locales (use decode_encode tool_decode_OkD in auto)

section \<open>Properties\<close>

text \<open>
  C15: The decoder of tool messages accepts exactly the canonical encodings of well-formed
  messages (names and endpoints restricted, unknown flags, trailing bytes and overlong
  bodies refused).
\<close>

theorem tool_decode_iff: "decode b = Ok m \<longleftrightarrow> msg_wf m \<and> encode_msg m = b"
  using tool.dec_iff [of b m] by simp

text \<open>The body a receiver puts together from the messages of one result.\<close>

primrec msg_body :: "tool_msg \<Rightarrow> bytes" where
  "msg_body ListRequest = []"
| "msg_body (ListResponse es) = []"
| "msg_body (CallRequest i name args) = []"
| "msg_body (CallResponse i st body) = body"
| "msg_body (CallChunk i body) = body"

lemma truncate_le: "truncate n st body = (st', body') \<Longrightarrow> body' = take n body \<and> length body' \<le> n"
  by (auto simp: truncate_def split: if_splits)

text \<open>
  A tool result is sent as chunks and one final response, all of which decode; their
  bodies concatenate to the first \<open>MAX_RESULT\<close> bytes of the result, and the final status
  is the tool's own, except that a cut \<open>Ok\<close> result says \<open>Truncated\<close>.
\<close>

theorem call_result_round_trip:
  "\<exists>ms lst. map (\<lambda>b. ok (decode b)) (encode_call_result i st body) =
       map (\<lambda>c. Some (CallChunk i c)) ms @
       [Some (CallResponse i (if length body > MAX_RESULT \<and> st = StOk then Truncated else st) lst)] \<and>
     concat ms @ lst = take MAX_RESULT body"
proof -
  obtain st' body' where t: "truncate MAX_RESULT st body = (st', body')" by fastforce
  have st': "st' = (if length body > MAX_RESULT \<and> st = StOk then Truncated else st)"
    using t by (auto simp: truncate_def split: if_splits)
  let ?cs = "chunks MAX_BODY body'"
  define lst where "lst = (if ?cs = [] then [] else last ?cs)"
  have pos: "0 < MAX_BODY" by (simp add: MAX_BODY_eq)
  have cs: "\<forall>c \<in> set ?cs. length c \<le> MAX_BODY" using chunks_length_le by blast
  have l: "length lst \<le> MAX_BODY" using cs by (simp add: lst_def)
  have "concat (butlast ?cs) @ lst = concat ?cs"
    by (cases "?cs = []") (simp_all add: lst_def concat_append [symmetric] del: concat_append, metis append_butlast_last_id concat_append concat.simps append_Nil2)
  then have body: "concat (butlast ?cs) @ lst = take MAX_RESULT body"
    using pos truncate_le [OF t] by simp
  have "map (\<lambda>b. ok (decode b)) (map (chunk_bytes i) (butlast ?cs)) = map (\<lambda>c. Some (CallChunk i c)) (butlast ?cs)"
    using cs decode_encode [of "CallChunk i _"] by (auto dest: in_set_butlastD)
  moreover have "decode (encode_call_response i st' lst) = Ok (CallResponse i st' lst)"
    using l decode_encode [of "CallResponse i st' lst"] by (simp add: encode_call_response_def truncate_def)
  ultimately show ?thesis
    using body by (intro exI [of _ "butlast ?cs"] exI [of _ lst])
      (simp add: encode_call_result_def t lst_def st' Let_def)
qed

text \<open>
  C16: \<open>encode_list_response\<close> bounds the number of tools and each name and endpoint but not
  the message: a listing it encodes without error can be too large to seal into one frame,
  whatever the session and the buffer.
\<close>

theorem list_response_can_exceed_frame:
  "\<exists>es b. encode_list_response es = Ok b \<and>
     (\<forall>P s out. fst (seal P s b out) = Err SealTooLarge)"
proof -
  define e where "e = \<lparr>te_name = replicate MAX_NAME CHR ''n'', te_flags = 0, te_endpoint = replicate MAX_ENDPOINT CHR ''e''\<rparr>"
  have "list_all (\<lambda>e. valid_name (te_name e) \<and> valid_endpoint (te_endpoint e)) (replicate MAX_TOOLS e)"
    by (auto simp: list_all_iff e_def valid_name_def valid_endpoint_def name_char_def is_ascii_alphanumeric_def
        is_ascii_lowercase_def is_ascii_graphic_def MAX_NAME_def)
  then have "encode_list_response (replicate MAX_TOOLS e) = Ok (list_bytes (replicate MAX_TOOLS e))"
    by (simp add: encode_list_response_def)
  moreover have "length (entry_bytes e) = 115"
    by (simp add: entry_bytes_def e_def) (simp add: MAX_NAME_def MAX_ENDPOINT_def)
  then have "length (list_bytes (replicate MAX_TOOLS e)) = 1842"
    by (simp add: list_bytes_def length_concat sum_list_replicate MAX_TOOLS_def del: replicate.simps)
  then have "fst (seal P s (list_bytes (replicate MAX_TOOLS e)) out) = Err SealTooLarge" for P s out
    by (simp add: seal_def MAX_PLAINTEXT_eq)
  ultimately show ?thesis by blast
qed

end
