(* ===== verification/ApprovalMsg.thy ===== *)
theory ApprovalMsg
  imports SecureChannel
begin

text \<open>
  The signed operator approvals of \<open>link/src/approval.rs\<close>: the request, decision-part and
  resolution messages with their encoders and the bounds-checked decoder, the statement an
  operator signs, and the assembler of signature parts. SHA-256 is the parameter of
  \<open>statement\<close>. Shown: decoding accepts exactly the canonical encodings of well-formed
  messages, the statement binds every field of the request and the decision, and a signed
  decision sent in parts is reassembled whatever the assembler held before.
\<close>

section \<open>Messages\<close>

definition APPROVAL_CONTEXT :: bytes where "APPROVAL_CONTEXT = as_bytes ''CDK-APPROVAL-v1''"
definition REQUEST :: u8 where "REQUEST = 0x20"
definition DECISION_PART :: u8 where "DECISION_PART = 0x21"
definition RESOLVED :: u8 where "RESOLVED = 0x22"
definition KIND_ACTION :: u8 where "KIND_ACTION = 1"
definition KIND_POLICY :: u8 where "KIND_POLICY = 2"
definition OUTCOME_APPROVED :: u8 where "OUTCOME_APPROVED = 1"
definition OUTCOME_DENIED :: u8 where "OUTCOME_DENIED = 2"
definition OUTCOME_TIMEOUT :: u8 where "OUTCOME_TIMEOUT = 3"
definition REQUEST_HEADER :: nat where "REQUEST_HEADER = 1 + 4 + 16 + 1 + 1 + 2 + 32 + 2"
definition PART_HEADER :: nat where "PART_HEADER = 1 + 4 + 16 + 1 + 2 + 2 + 2"
definition MAX_TEXT :: nat where "MAX_TEXT = MAX_PLAINTEXT - REQUEST_HEADER"
definition PART_BYTES :: nat where "PART_BYTES = MAX_PLAINTEXT - PART_HEADER"

lemmas approval_tags = REQUEST_def DECISION_PART_def RESOLVED_def

lemma approval_sizes: "MAX_TEXT = 941" "PART_BYTES = 972"
  by (simp_all add: MAX_TEXT_def PART_BYTES_def REQUEST_HEADER_def PART_HEADER_def MAX_PLAINTEXT_eq)

record request =
  rq_id :: u32
  rq_issuer :: bytes
  rq_kind :: u8
  rq_quorum :: u8
  rq_ttl_s :: u16
  rq_payload_digest :: bytes
  rq_text :: str

datatype approval_msg =
    Request request
  | DecisionPart u32 bytes bool u16 u16 bytes
  | Resolved u32 u8

datatype approval_msg_error = ApprovalMalformed | ApprovalTooLarge

definition is_approval :: "bytes \<Rightarrow> bool" where
  "is_approval msg = (case msg of [] \<Rightarrow> False | t # _ \<Rightarrow> t = REQUEST \<or> t = DECISION_PART \<or> t = RESOLVED)"

definition bool_byte :: "bool \<Rightarrow> u8" where
  "bool_byte b = (if b then 1 else 0)"

text \<open>The bytes \<open>statement\<close> feeds to SHA-256.\<close>

definition statement_bytes :: "request \<Rightarrow> bool \<Rightarrow> bytes" where
  "statement_bytes req approve =
     APPROVAL_CONTEXT @ [0] @ le_enc (rq_id req) @ rq_issuer req @ [rq_kind req, rq_quorum req] @
     le_enc (rq_ttl_s req) @ rq_payload_digest req @ le_enc (of_nat (length (rq_text req)) :: u16) @
     as_bytes (rq_text req) @ [bool_byte approve]"

definition statement :: "prims \<Rightarrow> request \<Rightarrow> bool \<Rightarrow> bytes" where
  "statement P req approve = sha256 P (statement_bytes req approve)"

definition request_bytes :: "request \<Rightarrow> bytes" where
  "request_bytes req =
     REQUEST # le_enc (rq_id req) @ rq_issuer req @ [rq_kind req, rq_quorum req] @ le_enc (rq_ttl_s req) @
     rq_payload_digest req @ le_enc (of_nat (length (rq_text req)) :: u16) @ as_bytes (rq_text req)"

definition encode_request :: "request \<Rightarrow> (bytes, approval_msg_error) result" where
  "encode_request req =
     (if length (rq_text req) > MAX_TEXT then Err ApprovalTooLarge else Ok (request_bytes req))"

definition encode_part :: "u32 \<Rightarrow> bytes \<Rightarrow> bool \<Rightarrow> u16 \<Rightarrow> u16 \<Rightarrow> bytes \<Rightarrow> bytes" where
  "encode_part i operator approve tot offset part =
     DECISION_PART # le_enc i @ operator @ [bool_byte approve] @ le_enc tot @ le_enc offset @
     le_enc (of_nat (length part) :: u16) @ part"

definition encode_decision :: "u32 \<Rightarrow> bytes \<Rightarrow> bool \<Rightarrow> bytes \<Rightarrow> bytes list" where
  "encode_decision i operator approve sig =
     map (\<lambda>(k, part). encode_part i operator approve (of_nat (length sig)) (of_nat (k * PART_BYTES)) part)
       (enumerate 0 (chunks PART_BYTES sig))"

definition encode_resolved :: "u32 \<Rightarrow> u8 \<Rightarrow> bytes" where
  "encode_resolved i outcome = [RESOLVED] @ le_enc i @ [outcome]"

definition u16_at :: "bytes \<Rightarrow> nat \<Rightarrow> u16 option" where
  "u16_at s i = map_option le_dec (slice_get s i (i + 2))"

definition u32_at :: "bytes \<Rightarrow> nat \<Rightarrow> u32 option" where
  "u32_at s i = map_option le_dec (slice_get s i (i + 4))"

definition decode_request :: "bytes \<Rightarrow> approval_msg option" where
  "decode_request r = do {
     i \<leftarrow> u32_at r 0;
     issuer \<leftarrow> slice_get r 4 (4 + 16);
     kind \<leftarrow> index_get r 20;
     quorum \<leftarrow> index_get r 21;
     ttl_s \<leftarrow> u16_at r 22;
     payload_digest \<leftarrow> slice_get r 24 56;
     len16 \<leftarrow> u16_at r 56;
     let n = unat len16;
     text \<leftarrow> slice_get r 58 (58 + n);
     if length r \<noteq> 58 + n \<or> n > MAX_TEXT \<or> \<not> (KIND_ACTION \<le> kind \<and> kind \<le> KIND_POLICY) \<or> quorum = 0
     then None
     else do {
       t \<leftarrow> from_utf8 text;
       Some (Request \<lparr>rq_id = i, rq_issuer = issuer, rq_kind = kind, rq_quorum = quorum,
         rq_ttl_s = ttl_s, rq_payload_digest = payload_digest, rq_text = t\<rparr>) } }"

definition decode_part :: "bytes \<Rightarrow> approval_msg option" where
  "decode_part r = do {
     i \<leftarrow> u32_at r 0;
     operator \<leftarrow> slice_get r 4 (4 + 16);
     a \<leftarrow> index_get r 20;
     approve \<leftarrow> (if a = 0 then Some False else if a = 1 then Some True else None);
     tot \<leftarrow> u16_at r 21;
     offset \<leftarrow> u16_at r 23;
     len16 \<leftarrow> u16_at r 25;
     let n = unat len16;
     bs \<leftarrow> slice_get r 27 (27 + n);
     if length r \<noteq> 27 + n \<or> unat offset + n > unat tot then None
     else Some (DecisionPart i operator approve tot offset bs) }"

definition decode :: "bytes \<Rightarrow> (approval_msg, approval_msg_error) result" where
  "decode b = ok_or
     (case b of
        [] \<Rightarrow> None
      | tag # r \<Rightarrow>
          if tag = REQUEST then decode_request r
          else if tag = DECISION_PART then decode_part r
          else if tag = RESOLVED \<and> length r = 5 then do { i \<leftarrow> u32_at r 0; Some (Resolved i (r ! 4)) }
          else None) ApprovalMalformed"

section \<open>Assembling decision parts\<close>

record assembler =
  asm_key :: "(u32 \<times> bytes \<times> bool) option"
  asm_buf :: bytes

definition assembler_new :: assembler where
  "assembler_new = \<lparr>asm_key = None, asm_buf = []\<rparr>"

definition assembler_push ::
    "assembler \<Rightarrow> u32 \<Rightarrow> bytes \<Rightarrow> bool \<Rightarrow> u16 \<Rightarrow> u16 \<Rightarrow> bytes \<Rightarrow>
     (u32 \<times> bytes \<times> bool \<times> bytes) option \<times> assembler" where
  "assembler_push s i operator approve tot offset bs =
     (let restart = (offset = 0 \<or> asm_key s \<noteq> Some (i, operator, approve) \<or>
            length (asm_buf s) \<noteq> unat offset);
          s = (if restart then \<lparr>asm_key = Some (i, operator, approve), asm_buf = []\<rparr> else s) in
      if restart \<and> offset \<noteq> 0 then (None, s)
      else let b = asm_buf s @ bs in
        if length b = unat tot then (Some (i, operator, approve, b), \<lparr>asm_key = None, asm_buf = []\<rparr>)
        else (None, s\<lparr>asm_buf := b\<rparr>))"

section \<open>The codec\<close>

definition request_wf :: "request \<Rightarrow> bool" where
  "request_wf r \<longleftrightarrow> length (rq_issuer r) = 16 \<and> length (rq_payload_digest r) = 32 \<and>
     length (rq_text r) \<le> MAX_TEXT \<and> valid_str (rq_text r) \<and> rq_kind r \<in> {KIND_ACTION, KIND_POLICY} \<and>
     rq_quorum r \<noteq> 0"

primrec msg_wf :: "approval_msg \<Rightarrow> bool" where
  "msg_wf (Request r) = request_wf r"
| "msg_wf (DecisionPart i operator approve tot offset bs) =
     (length operator = 16 \<and> unat offset + length bs \<le> unat tot)"
| "msg_wf (Resolved i outcome) = True"

primrec encode_msg :: "approval_msg \<Rightarrow> bytes" where
  "encode_msg (Request r) = request_bytes r"
| "encode_msg (DecisionPart i operator approve tot offset bs) = encode_part i operator approve tot offset bs"
| "encode_msg (Resolved i outcome) = encode_resolved i outcome"

lemma unat_of_nat_16: "n < 65536 \<Longrightarrow> unat (of_nat n :: u16) = n"
  by (simp add: unat_of_nat)

lemma of_nat_length_16: "unat (w :: u16) = n \<Longrightarrow> (of_nat n :: u16) = w"
  by auto

lemma kind_range: "KIND_ACTION \<le> k \<and> k \<le> KIND_POLICY \<longleftrightarrow> k \<in> {KIND_ACTION, KIND_POLICY}"
proof -
  have "1 \<le> k \<and> k \<le> 2 \<longleftrightarrow> k = 1 \<or> k = (2 :: u8)"
    by (auto simp: word_le_nat_alt word_unat_eq_iff)
  then show ?thesis by (simp add: KIND_ACTION_def KIND_POLICY_def)
qed

lemma decode_request_bytes:
  assumes "request_wf q"
  shows "decode (request_bytes q) = Ok (Request q)"
proof -
  have n: "unat (of_nat (length (rq_text q)) :: u16) = length (rq_text q)"
    using assms by (simp add: request_wf_def approval_sizes unat_of_nat_16)
  let ?r = "le_enc (rq_id q) @ rq_issuer q @ [rq_kind q, rq_quorum q] @ le_enc (rq_ttl_s q) @
     rq_payload_digest q @ le_enc (of_nat (length (rq_text q)) :: u16) @ as_bytes (rq_text q)"
  have l: "length (rq_issuer q) = 16" "length (rq_payload_digest q) = 32" using assms by (simp_all add: request_wf_def)
  have "u32_at ?r 0 = Some (rq_id q)" "slice_get ?r 4 (4 + 16) = Some (rq_issuer q)"
    "index_get ?r 20 = Some (rq_kind q)" "index_get ?r 21 = Some (rq_quorum q)" "u16_at ?r 22 = Some (rq_ttl_s q)"
    "slice_get ?r 24 56 = Some (rq_payload_digest q)"
    "u16_at ?r 56 = Some (of_nat (length (rq_text q)))"
    "slice_get ?r 58 (58 + length (rq_text q)) = Some (as_bytes (rq_text q))"
    using l by (simp_all add: u32_at_def u16_at_def slice_get_def index_get_def nth_append nth_Cons')
  moreover have "length ?r = 58 + length (rq_text q)" using l by simp
  ultimately have "decode_request ?r = Some (Request q)"
    using assms n kind_range [of "rq_kind q"] by (simp add: decode_request_def request_wf_def Let_def)
  then show ?thesis by (simp add: decode_def request_bytes_def)
qed

lemma decode_part_bytes:
  assumes "msg_wf (DecisionPart i operator approve tot offset bs)"
  shows "decode (encode_part i operator approve tot offset bs) = Ok (DecisionPart i operator approve tot offset bs)"
proof -
  have "unat tot < 65536" using unsigned_less [of tot] by simp
  then have n: "unat (of_nat (length bs) :: u16) = length bs"
    using assms by (simp add: unat_of_nat_16)
  let ?r = "le_enc i @ operator @ [bool_byte approve] @ le_enc tot @ le_enc offset @
     le_enc (of_nat (length bs) :: u16) @ bs"
  have l: "length operator = 16" using assms by simp
  have "u32_at ?r 0 = Some i" "slice_get ?r 4 (4 + 16) = Some operator"
    "index_get ?r 20 = Some (bool_byte approve)" "u16_at ?r 21 = Some tot" "u16_at ?r 23 = Some offset"
    "u16_at ?r 25 = Some (of_nat (length bs))" "slice_get ?r 27 (27 + length bs) = Some bs"
    using l by (simp_all add: u32_at_def u16_at_def slice_get_def index_get_def nth_append nth_Cons')
  moreover have "length ?r = 27 + length bs" using l by simp
  ultimately have "decode_part ?r = Some (DecisionPart i operator approve tot offset bs)"
    using assms n by (simp add: decode_part_def Let_def bool_byte_def)
  then show ?thesis by (simp add: decode_def encode_part_def approval_tags)
qed

lemma int_at_slice:
  "u16_at s i = Some x \<Longrightarrow> slice_get s i (i + 2) = Some (le_enc x)"
  "u32_at s i = Some y \<Longrightarrow> slice_get s i (i + 4) = Some (le_enc y)"
  using slice_get_length [of s i "i + 2"] slice_get_length [of s i "i + 4"]
  by (auto simp: u16_at_def u32_at_def)

lemma decode_request_SomeD:
  assumes "decode_request r = Some m"
  shows "msg_wf m \<and> encode_msg m = REQUEST # r"
proof -
  from assms obtain i issuer kind quorum ttl dig n tb t where
    f: "u32_at r 0 = Some i" "slice_get r 4 20 = Some issuer" "index_get r 20 = Some kind"
      "index_get r 21 = Some quorum" "u16_at r 22 = Some ttl" "slice_get r 24 56 = Some dig"
      "u16_at r 56 = Some n" "slice_get r 58 (58 + unat n) = Some tb" "from_utf8 tb = Some t"
    and c: "length r = 58 + unat n" "unat n \<le> MAX_TEXT" "KIND_ACTION \<le> kind \<and> kind \<le> KIND_POLICY" "quorum \<noteq> 0"
    and m: "m = Request \<lparr>rq_id = i, rq_issuer = issuer, rq_kind = kind, rq_quorum = quorum,
         rq_ttl_s = ttl, rq_payload_digest = dig, rq_text = t\<rparr>"
    by (auto simp: decode_request_def bind_eq_Some_conv Let_def split: if_splits)
  note sl = int_at_slice(2) [OF f(1), unfolded add_0] f(2) index_get_slice [OF f(3), simplified]
    index_get_slice [OF f(4), simplified] int_at_slice(1) [OF f(5), simplified] f(6)
    int_at_slice(1) [OF f(7), simplified] f(8)
  from from_utf8_SomeD [OF f(9)] have t: "tb = as_bytes t" "valid_str t" by auto
  have tl: "length t = unat n" using slice_get_length [OF f(8)] t by simp
  have "slice_get r 0 (58 + unat n) = Some (le_enc i @ issuer @ [kind] @ [quorum] @ le_enc ttl @ dig @ le_enc n @ tb)"
    using slice_get_join [OF sl(1) slice_get_join [OF sl(2) slice_get_join [OF sl(3) slice_get_join [OF sl(4)
      slice_get_join [OF sl(5) slice_get_join [OF sl(6) slice_get_join [OF sl(7,8)]]]]]]] .
  from slice_get_all [OF this c(1)]
  have "encode_msg m = REQUEST # r" by (simp add: m request_bytes_def t tl)
  moreover have "msg_wf m"
    using c t tl slice_get_length [OF f(2)] slice_get_length [OF f(6)] kind_range [of kind]
    by (simp add: m request_wf_def)
  ultimately show ?thesis by simp
qed

lemma decode_part_SomeD:
  assumes "decode_part r = Some m"
  shows "msg_wf m \<and> encode_msg m = DECISION_PART # r"
proof -
  from assms obtain i operator a approve tot offset n bs where
    f: "u32_at r 0 = Some i" "slice_get r 4 20 = Some operator" "index_get r 20 = Some a"
      "u16_at r 21 = Some tot" "u16_at r 23 = Some offset" "u16_at r 25 = Some n"
      "slice_get r 27 (27 + unat n) = Some bs"
    and c: "length r = 27 + unat n" "unat offset + unat n \<le> unat tot" "a = bool_byte approve"
    and m: "m = DecisionPart i operator approve tot offset bs"
    by (auto simp: decode_part_def bool_byte_def bind_eq_Some_conv Let_def split: if_splits)
  note sl = int_at_slice(2) [OF f(1), unfolded add_0] f(2) index_get_slice [OF f(3), simplified]
    int_at_slice(1) [OF f(4), simplified] int_at_slice(1) [OF f(5), simplified]
    int_at_slice(1) [OF f(6), simplified] f(7)
  have tl: "length bs = unat n" using slice_get_length [OF f(7)] by simp
  have "slice_get r 0 (27 + unat n) = Some (le_enc i @ operator @ [a] @ le_enc tot @ le_enc offset @ le_enc n @ bs)"
    using slice_get_join [OF sl(1) slice_get_join [OF sl(2) slice_get_join [OF sl(3) slice_get_join [OF sl(4)
      slice_get_join [OF sl(5) slice_get_join [OF sl(6,7)]]]]]] .
  from slice_get_all [OF this c(1)]
  have "encode_msg m = DECISION_PART # r" by (simp add: m encode_part_def c(3) tl)
  moreover have "msg_wf m" using c tl slice_get_length [OF f(2)] by (simp add: m)
  ultimately show ?thesis by simp
qed

lemma decode_resolved: "decode (encode_resolved i outcome) = Ok (Resolved i outcome)"
  by (simp add: decode_def encode_resolved_def approval_tags u32_at_def nth_append)

lemma approval_decode_OkD:
  assumes "decode b = Ok m"
  shows "msg_wf m \<and> encode_msg m = b"
proof (cases b)
  case (Cons tag r)
  consider "tag = REQUEST" | "tag = DECISION_PART" | "tag = RESOLVED" "length r = 5"
    using assms Cons by (auto simp: decode_def split: if_splits)
  then show ?thesis
  proof cases
    case 3
    then obtain i where i: "u32_at r 0 = Some i" "m = Resolved i (r ! 4)"
      using assms Cons by (auto simp: decode_def approval_tags bind_eq_Some_conv)
    have "slice_get r 4 5 = Some [r ! 4]"
      using index_get_slice [of r 4 "r ! 4"] 3 by (simp add: index_get_def)
    from slice_get_all [OF slice_get_join [OF int_at_slice(2) [OF i(1), unfolded add_0] this] 3(2)]
    show ?thesis using i 3 Cons by (simp add: encode_resolved_def)
  qed (use assms Cons decode_request_SomeD decode_part_SomeD in \<open>auto simp: decode_def approval_tags\<close>)
qed (use assms in \<open>simp add: decode_def\<close>)

interpretation approval: codec encode_msg "\<lambda>b. ok (decode b)" msg_wf
proof unfold_locales
  fix m assume "msg_wf m"
  then show "ok (decode (encode_msg m)) = Some m"
    by (cases m) (simp_all add: decode_request_bytes decode_part_bytes decode_resolved)
qed (use approval_decode_OkD in auto)

section \<open>The signed statement\<close>

lemma statement_bytes_inject:
  assumes "request_wf r" and "request_wf r'" and "statement_bytes r a = statement_bytes r' a'"
  shows "r = r' \<and> a = a'"
proof -
  have l: "unat (of_nat (length (rq_text q)) :: u16) = length (rq_text q)" if "request_wf q" for q
    using that by (simp add: request_wf_def approval_sizes unat_of_nat_16)
  have "rq_id r = rq_id r' \<and> rq_issuer r = rq_issuer r' \<and> rq_kind r = rq_kind r' \<and> rq_quorum r = rq_quorum r' \<and>
      rq_ttl_s r = rq_ttl_s r' \<and> rq_payload_digest r = rq_payload_digest r' \<and> rq_text r = rq_text r' \<and>
      bool_byte a = bool_byte a'"
    using assms by (simp add: statement_bytes_def request_wf_def)
  then show ?thesis by (auto simp: bool_byte_def split: if_splits intro: request.equality)
qed

section \<open>Assembly of a decision\<close>

text \<open>A receiver decodes each message and pushes the decision parts.\<close>

fun assemble :: "assembler \<Rightarrow> bytes list \<Rightarrow> (u32 \<times> bytes \<times> bool \<times> bytes) list \<times> assembler" where
  "assemble s [] = ([], s)"
| "assemble s (b # bs) =
     (case decode b of
        Ok (DecisionPart i operator approve tot offset x) \<Rightarrow>
          (case assembler_push s i operator approve tot offset x of
             (None, s') \<Rightarrow> assemble s' bs
           | (Some r, s') \<Rightarrow> (case assemble s' bs of (rs, s'') \<Rightarrow> (r # rs, s'')))
      | _ \<Rightarrow> assemble s bs)"

lemma assembler_push_next:
  assumes "length sig < 65536" and "k * PART_BYTES < length sig"
    and "k = 0 \<or> asm_key s = Some (i, operator, approve) \<and> asm_buf s = take (k * PART_BYTES) sig"
  shows "assembler_push s i operator approve (of_nat (length sig)) (of_nat (k * PART_BYTES))
      (take PART_BYTES (drop (k * PART_BYTES) sig)) =
    (if length sig \<le> Suc k * PART_BYTES then (Some (i, operator, approve, sig), assembler_new)
     else (None, \<lparr>asm_key = Some (i, operator, approve), asm_buf = take (Suc k * PART_BYTES) sig\<rparr>))"
proof -
  have u: "unat (of_nat (length sig) :: u16) = length sig" "unat (of_nat (k * PART_BYTES) :: u16) = k * PART_BYTES"
    using assms by (simp_all add: unat_of_nat_16 del: of_nat_mult)
  have off: "(of_nat (k * PART_BYTES) :: u16) = 0 \<longleftrightarrow> k = 0"
    using u(2) by (metis approval_sizes(2) mult_is_0 unat_0 of_nat_0 zero_neq_numeral)
  have b: "take (k * PART_BYTES) sig @ take PART_BYTES (drop (k * PART_BYTES) sig) = take (Suc k * PART_BYTES) sig"
    by (simp add: take_add [symmetric] add.commute)
  have e: "length (take (Suc k * PART_BYTES) sig) = length sig \<longleftrightarrow> length sig \<le> Suc k * PART_BYTES" by auto
  show ?thesis
    using assms(2,3) b e
    by (cases "k = 0") (auto simp: assembler_push_def assembler_new_def Let_def off u simp del: of_nat_mult)
qed

lemma assemble_from:
  assumes "length operator = 16" and "length sig < 65536" and "k * PART_BYTES < length sig"
    and "k = 0 \<or> asm_key s = Some (i, operator, approve) \<and> asm_buf s = take (k * PART_BYTES) sig"
  shows "assemble s (map (\<lambda>(k, part). encode_part i operator approve (of_nat (length sig)) (of_nat (k * PART_BYTES)) part)
      (enumerate k (chunks PART_BYTES (drop (k * PART_BYTES) sig)))) = ([(i, operator, approve, sig)], assembler_new)"
  using assms(3,4)
proof (induction "length sig - k * PART_BYTES" arbitrary: k s rule: less_induct)
  case less
  let ?w = "\<lambda>(k, part). encode_part i operator approve (of_nat (length sig)) (of_nat (k * PART_BYTES)) part"
  let ?part = "take PART_BYTES (drop (k * PART_BYTES) sig)"
  let ?rest = "map ?w (enumerate (Suc k) (chunks PART_BYTES (drop (Suc k * PART_BYTES) sig)))"
  have pos: "0 < PART_BYTES" by (simp add: approval_sizes)
  have list: "map ?w (enumerate k (chunks PART_BYTES (drop (k * PART_BYTES) sig))) = ?w (k, ?part) # ?rest"
    using less.prems(1) pos by (simp add: chunks_step add.commute)
  have "msg_wf (DecisionPart i operator approve (of_nat (length sig)) (of_nat (k * PART_BYTES)) ?part)"
    using assms(1,2) less.prems(1) by (auto simp: unat_of_nat_16 simp del: of_nat_mult)
  from decode_part_bytes [OF this]
  have "decode (?w (k, ?part)) = Ok (DecisionPart i operator approve (of_nat (length sig)) (of_nat (k * PART_BYTES)) ?part)"
    by simp
  note st = assembler_push_next [OF assms(2) less.prems] this
  show ?case
  proof (cases "length sig \<le> Suc k * PART_BYTES")
    case True
    then have "?rest = []" by simp
    with st True show ?thesis unfolding list by (simp del: of_nat_mult mult_Suc)
  next
    case False
    then have lt: "Suc k * PART_BYTES < length sig" by simp
    have dec: "length sig - Suc k * PART_BYTES < length sig - k * PART_BYTES" using lt pos by simp
    have "assemble \<lparr>asm_key = Some (i, operator, approve), asm_buf = take (Suc k * PART_BYTES) sig\<rparr> ?rest =
        ([(i, operator, approve, sig)], assembler_new)"
      by (rule less.hyps [OF dec lt]) simp
    with st False show ?thesis unfolding list by (simp del: of_nat_mult mult_Suc)
  qed
qed

section \<open>Properties\<close>

text \<open>A request and a decision, for the witnesses.\<close>

definition sample_request :: request where
  "sample_request = \<lparr>rq_id = 7, rq_issuer = replicate 16 1, rq_kind = KIND_ACTION, rq_quorum = 2,
     rq_ttl_s = 60, rq_payload_digest = replicate 32 9, rq_text = ''send''\<rparr>"

lemma sample_request_wf: "request_wf sample_request" "request_wf (sample_request\<lparr>rq_quorum := 1\<rparr>)"
  by (auto simp: request_wf_def sample_request_def approval_sizes intro!: ascii_valid_str)

text \<open>
  C13: The decoder of approval messages accepts exactly the canonical encodings of
  well-formed messages: what was encoded decodes to itself, nothing else decodes, so a
  message has one encoding and a carrier cannot re-encode it unnoticed.
\<close>

theorem approval_decode_iff: "decode b = Ok m \<longleftrightarrow> msg_wf m \<and> encode_msg m = b"
  using approval.dec_iff [of b m] by simp

text \<open>
  C14: The signed statement binds the request and the decision: equal statements mean the
  same id, issuer, kind, quorum, lifetime, payload digest, text and decision, unless the
  two digested byte strings are a SHA-256 collision.
\<close>

theorem statement_binds_request:
  assumes "request_wf r" and "request_wf r'" and "statement P r a = statement P r' a'"
  shows "(r = r' \<and> a = a') \<or>
    (statement_bytes r a \<noteq> statement_bytes r' a' \<and>
     sha256 P (statement_bytes r a) = sha256 P (statement_bytes r' a'))"
  using assms statement_bytes_inject by (auto simp: statement_def)

theorem statement_binds_request_witness:
  "statement (plain_prims\<lparr>sha256 := \<lambda>_. []\<rparr>) sample_request True =
     statement (plain_prims\<lparr>sha256 := \<lambda>_. []\<rparr>) (sample_request\<lparr>rq_quorum := 1\<rparr>) True \<and>
   statement_bytes sample_request True \<noteq> statement_bytes (sample_request\<lparr>rq_quorum := 1\<rparr>) True"
  using statement_binds_request [OF sample_request_wf, of "plain_prims\<lparr>sha256 := \<lambda>_. []\<rparr>" True True]
  by (simp add: statement_def) (simp add: sample_request_def)

text \<open>
  A signed decision, sent as parts and decoded one by one, is handed out exactly once,
  with its id, operator, decision and the complete signature, whatever unfinished parts the
  assembler held before; the assembler ends empty.
\<close>

theorem decision_assembles:
  assumes "length operator = 16" and "sig \<noteq> []" and "length sig < 65536"
  shows "assemble s (encode_decision i operator approve sig) = ([(i, operator, approve, sig)], assembler_new)"
  using assemble_from [OF assms(1,3), of 0 s i approve] assms(2) by (simp add: encode_decision_def)

theorem decision_assembles_witness:
  "assemble \<lparr>asm_key = Some (3, [], True), asm_buf = [1]\<rparr>
     (encode_decision 7 (replicate 16 2) False (replicate SIG_LEN 5)) =
   ([(7, replicate 16 2, False, replicate SIG_LEN 5)], assembler_new)"
  by (rule decision_assembles) (simp_all add: secure_lens)

end
