(* ===== verification/Issuer.thy ===== *)
theory Issuer
  imports SecureChannel
begin

text \<open>
  The kernel's signing identity, \<open>src/issuer.rs\<close>: signature domains with their contexts,
  issuers built from two seeds, hybrid signing and verification. The signature schemes are
  the parameters of \<^typ>\<open>prims\<close>; \<open>signatures_correct\<close> names the one fact used of them.
  The crypto stack only moves the computation to another stack and is not modelled.
\<close>

datatype sig_domain = DomCapability | DomAuditCheckpoint | DomLink | DomPortableCap | DomPeerMessage

primrec mldsa_context :: "sig_domain \<Rightarrow> bytes" where
  "mldsa_context DomCapability = as_bytes ''CDK-CAP-v1''"
| "mldsa_context DomAuditCheckpoint = as_bytes ''CDK-AUDIT-v1''"
| "mldsa_context DomLink = as_bytes ''CDK-LINK-v1''"
| "mldsa_context DomPortableCap = as_bytes ''CDK-PCAP-v1''"
| "mldsa_context DomPeerMessage = as_bytes ''CDK-PMSG-v1''"

record issuer_public =
  ip_id :: bytes
  ip_ed25519 :: bytes
  ip_mldsa65 :: bytes

record issuer =
  is_ed :: bytes
  is_ml :: bytes
  is_public :: issuer_public
  is_secure :: bool

definition issuer_id :: "prims \<Rightarrow> bytes \<Rightarrow> bytes \<Rightarrow> bytes" where
  "issuer_id P ed_pub ml_pub = take 16 (sha256 P (as_bytes ''CDK-ISSUER-v1'' @ ed_pub @ ml_pub))"

definition issuer_from_seeds :: "prims \<Rightarrow> bytes \<Rightarrow> bytes \<Rightarrow> bool \<Rightarrow> issuer" where
  "issuer_from_seeds P ed_seed ml_seed secure =
     \<lparr>is_ed = ed_seed, is_ml = ml_seed,
      is_public = \<lparr>ip_id = issuer_id P (ed_public P ed_seed) (ml_public P ml_seed),
        ip_ed25519 = ed_public P ed_seed, ip_mldsa65 = ml_public P ml_seed\<rparr>,
      is_secure = secure\<rparr>"

abbreviation is_id :: "issuer \<Rightarrow> bytes" where
  "is_id i \<equiv> ip_id (is_public i)"

definition issuer_sign :: "prims \<Rightarrow> issuer \<Rightarrow> sig_domain \<Rightarrow> bytes \<Rightarrow> signature" where
  "issuer_sign P i dm d =
     \<lparr>sig_ed = ed_sign P (is_ed i) d, sig_ml = ml_sign P (is_ml i) d (mldsa_context dm)\<rparr>"

definition verify_ed25519 :: "prims \<Rightarrow> bytes \<Rightarrow> bytes \<Rightarrow> signature \<Rightarrow> bool" where
  "verify_ed25519 P key d sig = ed_verify P key d (sig_ed sig)"

definition verify_mldsa :: "prims \<Rightarrow> bytes \<Rightarrow> sig_domain \<Rightarrow> bytes \<Rightarrow> signature \<Rightarrow> bool" where
  "verify_mldsa P vk dm d sig = ml_verify P vk d (mldsa_context dm) (sig_ml sig)"

definition public_verify :: "prims \<Rightarrow> issuer_public \<Rightarrow> sig_domain \<Rightarrow> bytes \<Rightarrow> signature \<Rightarrow> bool" where
  "public_verify P i dm d sig \<longleftrightarrow>
     verify_ed25519 P (ip_ed25519 i) d sig \<and> verify_mldsa P (ip_mldsa65 i) dm d sig"

definition issuer_verify :: "prims \<Rightarrow> issuer \<Rightarrow> sig_domain \<Rightarrow> bytes \<Rightarrow> signature \<Rightarrow> bool" where
  "issuer_verify P i dm d sig \<longleftrightarrow>
     verify_ed25519 P (ip_ed25519 (is_public i)) d sig \<and> verify_mldsa P (ip_mldsa65 (is_public i)) dm d sig"

text \<open>Documented behaviour of Ed25519 and ML-DSA-65: signatures verify under the public key.\<close>

definition signatures_correct :: "prims \<Rightarrow> bool" where
  "signatures_correct P \<longleftrightarrow> (\<forall>seed d ctx.
     ed_verify P (ed_public P seed) d (ed_sign P seed d) \<and>
     ml_verify P (ml_public P seed) d ctx (ml_sign P seed d ctx))"

text \<open>The invariant of an issuer: its public half belongs to its secret half.\<close>

definition issuer_ok :: "prims \<Rightarrow> issuer \<Rightarrow> bool" where
  "issuer_ok P i \<longleftrightarrow> (\<exists>a b s. i = issuer_from_seeds P a b s)"

lemma issuer_verify_sign [simp]:
  "signatures_correct P \<Longrightarrow> issuer_ok P i \<Longrightarrow> issuer_verify P i dm d (issuer_sign P i dm d)"
  by (auto simp: issuer_ok_def issuer_verify_def issuer_sign_def issuer_from_seeds_def
      signatures_correct_def verify_ed25519_def verify_mldsa_def)

lemma public_verify_issuer: "public_verify P (is_public i) = issuer_verify P i"
  by (simp add: fun_eq_iff public_verify_def issuer_verify_def)

lemma mldsa_context_inject: "mldsa_context a = mldsa_context b \<longleftrightarrow> a = b"
  by (cases a; cases b) simp_all

end
