(* ===== verification/AuditLog.thy ===== *)
theory AuditLog
  imports Issuer
begin

text \<open>
  The tamper-evident audit log of \<open>src/audit.rs\<close>: a ring of hash-chained records with
  signed checkpoints, its verification, and the kernel-wide recording functions that the
  other components call. SHA-256 and the signatures are parameters (\<^typ>\<open>prims\<close>,
  \<^typ>\<open>issuer\<close>); the time stamp counter is an argument of every operation that reads it.
  Shown: every log the kernel can build verifies; a log that verifies against a genuine
  checkpoint contains the genuine records up to it, or exhibits a hash collision; and what
  the verification does not detect (records rolled back behind a signed checkpoint).

  Sequence numbers count up from zero by one and are natural numbers, encoded in 8 bytes;
  the 64-bit counters of the source cannot overflow in the life of a machine.
\<close>

section \<open>Records\<close>

definition LOG_CAPACITY :: nat where "LOG_CAPACITY = 1024"
definition CHECKPOINT_INTERVAL :: nat where "CHECKPOINT_INTERVAL = 64"
definition MAX_CHECKPOINTS :: nat where "MAX_CHECKPOINTS = 8"
definition MAX_SUBJECT :: nat where "MAX_SUBJECT = 48"

datatype event_kind =
    Boot | CapIssued | CapAccepted | CapRejected | ProcessSpawned | ProcessStarted | ProcessExited
  | ProcessReaped | ProcessCrashed | ProgramLoaded | CapGranted | CapDerived | ProcessKilled
  | ApprovalRequested | ApprovalGranted | ApprovalDenied | LinkEstablished | LinkRejected | ToolCall
  | ToolResult | PolicyApplied | PolicyRefused | ApprovalSigned | ApprovalRejected | ApprovalTimeout
  | BootMeasured | BootVerified | BootRejected | Attested | TpmReady | NodeCertified | CapExported
  | CapImported | CapImportRejected | CapRevoked | PeerMessageSent | PeerMessageDelivered
  | PeerMessageRejected | StoreLoaded | StoreFailed | StoreReset | StoreMigrated

primrec kind_u8 :: "event_kind \<Rightarrow> u8" where
  "kind_u8 Boot = 1"
| "kind_u8 CapIssued = 2"
| "kind_u8 CapAccepted = 3"
| "kind_u8 CapRejected = 4"
| "kind_u8 ProcessSpawned = 5"
| "kind_u8 ProcessStarted = 6"
| "kind_u8 ProcessExited = 7"
| "kind_u8 ProcessReaped = 8"
| "kind_u8 ProcessCrashed = 9"
| "kind_u8 ProgramLoaded = 10"
| "kind_u8 CapGranted = 11"
| "kind_u8 CapDerived = 12"
| "kind_u8 ProcessKilled = 13"
| "kind_u8 ApprovalRequested = 14"
| "kind_u8 ApprovalGranted = 15"
| "kind_u8 ApprovalDenied = 16"
| "kind_u8 LinkEstablished = 17"
| "kind_u8 LinkRejected = 18"
| "kind_u8 ToolCall = 19"
| "kind_u8 ToolResult = 20"
| "kind_u8 PolicyApplied = 21"
| "kind_u8 PolicyRefused = 22"
| "kind_u8 ApprovalSigned = 23"
| "kind_u8 ApprovalRejected = 24"
| "kind_u8 ApprovalTimeout = 25"
| "kind_u8 BootMeasured = 26"
| "kind_u8 BootVerified = 27"
| "kind_u8 BootRejected = 28"
| "kind_u8 Attested = 29"
| "kind_u8 TpmReady = 30"
| "kind_u8 NodeCertified = 31"
| "kind_u8 CapExported = 32"
| "kind_u8 CapImported = 33"
| "kind_u8 CapImportRejected = 34"
| "kind_u8 CapRevoked = 35"
| "kind_u8 PeerMessageSent = 36"
| "kind_u8 PeerMessageDelivered = 37"
| "kind_u8 PeerMessageRejected = 38"
| "kind_u8 StoreLoaded = 39"
| "kind_u8 StoreFailed = 40"
| "kind_u8 StoreReset = 41"
| "kind_u8 StoreMigrated = 42"

primrec kind_name :: "event_kind \<Rightarrow> str" where
  "kind_name Boot = ''boot''"
| "kind_name CapIssued = ''cap-issued''"
| "kind_name CapAccepted = ''cap-accepted''"
| "kind_name CapRejected = ''cap-rejected''"
| "kind_name ProcessSpawned = ''proc-spawned''"
| "kind_name ProcessStarted = ''proc-started''"
| "kind_name ProcessExited = ''proc-exited''"
| "kind_name ProcessReaped = ''proc-reaped''"
| "kind_name ProcessCrashed = ''proc-crashed''"
| "kind_name ProgramLoaded = ''program-loaded''"
| "kind_name CapGranted = ''cap-granted''"
| "kind_name CapDerived = ''cap-derived''"
| "kind_name ProcessKilled = ''proc-killed''"
| "kind_name ApprovalRequested = ''approval-asked''"
| "kind_name ApprovalGranted = ''approval-yes''"
| "kind_name ApprovalDenied = ''approval-no''"
| "kind_name LinkEstablished = ''link-secure''"
| "kind_name LinkRejected = ''link-rejected''"
| "kind_name ToolCall = ''tool-call''"
| "kind_name ToolResult = ''tool-result''"
| "kind_name PolicyApplied = ''policy-applied''"
| "kind_name PolicyRefused = ''policy-refused''"
| "kind_name ApprovalSigned = ''approval-signed''"
| "kind_name ApprovalRejected = ''approval-bad-sig''"
| "kind_name ApprovalTimeout = ''approval-timeout''"
| "kind_name BootMeasured = ''boot-measured''"
| "kind_name BootVerified = ''boot-verified''"
| "kind_name BootRejected = ''boot-rejected''"
| "kind_name Attested = ''attested''"
| "kind_name TpmReady = ''tpm-ready''"
| "kind_name NodeCertified = ''node-certified''"
| "kind_name CapExported = ''cap-exported''"
| "kind_name CapImported = ''cap-imported''"
| "kind_name CapImportRejected = ''cap-import-rejected''"
| "kind_name CapRevoked = ''cap-revoked''"
| "kind_name PeerMessageSent = ''peer-msg-sent''"
| "kind_name PeerMessageDelivered = ''peer-msg-delivered''"
| "kind_name PeerMessageRejected = ''peer-msg-rejected''"
| "kind_name StoreLoaded = ''store-loaded''"
| "kind_name StoreFailed = ''store-failed''"
| "kind_name StoreReset = ''store-reset''"
| "kind_name StoreMigrated = ''store-migrated''"

text \<open>\<open>detail\<close> codes of rejected capabilities.\<close>

definition INVALID_SIGNATURE :: u64 where "INVALID_SIGNATURE = 1"
definition UNKNOWN_ISSUER :: u64 where "UNKNOWN_ISSUER = 2"
definition UNSUPPORTED_FORMAT :: u64 where "UNSUPPORTED_FORMAT = 3"
definition PERMISSION_DENIED :: u64 where "PERMISSION_DENIED = 4"

record audit_record =
  ar_seq :: nat
  ar_tsc :: u64
  ar_kind :: event_kind
  ar_subject :: str
  ar_detail :: u64
  ar_hash :: bytes

record checkpoint =
  ck_seq :: nat
  ck_head :: bytes
  ck_issuer_id :: bytes
  ck_signature :: signature

datatype audit_error =
    BrokenAt nat | GapBefore nat | HeadMismatch | BadGenesis | BadCheckpoint nat | CheckpointMismatch nat

record verify_report =
  vr_records :: nat
  vr_first_seq :: "nat option"
  vr_last_seq :: "nat option"
  vr_evicted :: nat
  vr_checkpoints :: nat
  vr_latest_checkpoint :: "nat option"
  vr_unsigned_tail :: nat

record audit_log =
  al_records :: "audit_record list"
  al_checkpoints :: "checkpoint list"
  al_genesis :: bytes
  al_anchor :: bytes
  al_head :: bytes
  al_next_seq :: nat
  al_evicted :: nat
  al_started :: bool

text \<open>
  Subjects are stored character by character until one does not fit; a character of the
  UTF-8 string is its lead byte with the continuation bytes.
\<close>

definition utf8_width :: "char \<Rightarrow> nat" where
  "utf8_width c = (let b = (of_char c :: nat) in
     if b < 0x80 then 1 else if b < 0xE0 then 2 else if b < 0xF0 then 3 else 4)"

function truncate_loop :: "str \<Rightarrow> str \<Rightarrow> str" where
  "truncate_loop out s =
     (if s = [] then out
      else let w = utf8_width (hd s) in
        if length out + w > MAX_SUBJECT then out
        else truncate_loop (out @ take w s) (drop w s))"
  by pat_completeness auto
termination
  by (relation "measure (\<lambda>(out, s). length s)") (auto simp: utf8_width_def Let_def split: if_splits)

declare truncate_loop.simps [simp del]

definition truncate_subject :: "str \<Rightarrow> str" where
  "truncate_subject s = truncate_loop [] s"

definition record_bytes :: "bytes \<Rightarrow> nat \<Rightarrow> u64 \<Rightarrow> event_kind \<Rightarrow> str \<Rightarrow> u64 \<Rightarrow> bytes" where
  "record_bytes prev seq tsc kind subject detail =
     as_bytes ''CDK-AUDIT-REC-v1'' @ prev @ to_le 8 seq @ le_enc tsc @ [kind_u8 kind, of_nat (length subject)] @
     as_bytes subject @ le_enc detail"

definition record_hash :: "prims \<Rightarrow> bytes \<Rightarrow> nat \<Rightarrow> u64 \<Rightarrow> event_kind \<Rightarrow> str \<Rightarrow> u64 \<Rightarrow> bytes" where
  "record_hash P prev seq tsc kind subject detail = sha256 P (record_bytes prev seq tsc kind subject detail)"

definition checkpoint_bytes :: "bytes \<Rightarrow> nat \<Rightarrow> bytes \<Rightarrow> bytes" where
  "checkpoint_bytes iid seq head = as_bytes ''CDK-AUDIT-CKPT-v1'' @ iid @ to_le 8 seq @ head"

definition checkpoint_digest :: "prims \<Rightarrow> bytes \<Rightarrow> nat \<Rightarrow> bytes \<Rightarrow> bytes" where
  "checkpoint_digest P iid seq head = sha256 P (checkpoint_bytes iid seq head)"

section \<open>The log\<close>

definition log_new :: audit_log where
  "log_new = \<lparr>al_records = [], al_checkpoints = [], al_genesis = replicate 32 0, al_anchor = replicate 32 0,
     al_head = replicate 32 0, al_next_seq = 0, al_evicted = 0, al_started = False\<rparr>"

definition log_start :: "prims \<Rightarrow> bytes \<Rightarrow> audit_log \<Rightarrow> audit_log" where
  "log_start P iid l =
     (if al_started l then l
      else let g = sha256 P (as_bytes ''CDK-AUDIT-GENESIS-v1'' @ iid) in
        l\<lparr>al_genesis := g, al_anchor := g, al_head := g, al_started := True\<rparr>)"

text \<open>Append to a ring of capacity \<open>cap\<close>; the oldest record makes room and becomes the anchor.\<close>

definition log_append ::
    "prims \<Rightarrow> nat \<Rightarrow> u64 \<Rightarrow> event_kind \<Rightarrow> str \<Rightarrow> u64 \<Rightarrow> audit_log \<Rightarrow> nat \<times> audit_log" where
  "log_append P cap tsc kind subject detail l =
     (let l = (if length (al_records l) = cap then
                 (case al_records l of
                    [] \<Rightarrow> l
                  | old # rs \<Rightarrow> l\<lparr>al_records := rs, al_anchor := ar_hash old, al_evicted := al_evicted l + 1\<rparr>)
               else l);
          seq = al_next_seq l;
          subject = truncate_subject subject;
          hash = record_hash P (al_head l) seq tsc kind subject detail;
          r = \<lparr>ar_seq = seq, ar_tsc = tsc, ar_kind = kind, ar_subject = subject, ar_detail = detail, ar_hash = hash\<rparr>;
          rs = (case bounded_push cap (al_records l) r of None \<Rightarrow> al_records l | Some rs \<Rightarrow> rs) in
      (seq, l\<lparr>al_records := rs, al_head := hash, al_next_seq := seq + 1\<rparr>))"

definition log_checkpoint :: "prims \<Rightarrow> issuer \<Rightarrow> audit_log \<Rightarrow> nat option \<times> audit_log" where
  "log_checkpoint P i l =
     (if al_records l = [] then (None, l)
      else let seq = ar_seq (last (al_records l)) in
        if al_checkpoints l \<noteq> [] \<and> ck_seq (last (al_checkpoints l)) = seq then (Some seq, l)
        else let d = checkpoint_digest P (is_id i) seq (al_head l);
                 cs = (if length (al_checkpoints l) = MAX_CHECKPOINTS then tl (al_checkpoints l)
                       else al_checkpoints l);
                 c = \<lparr>ck_seq = seq, ck_head = al_head l, ck_issuer_id = is_id i,
                      ck_signature = issuer_sign P i DomAuditCheckpoint d\<rparr> in
          (Some seq, l\<lparr>al_checkpoints := cs @ [c]\<rparr>))"

text \<open>The loop of \<open>verify\<close> over the records, and the one over the checkpoints.\<close>

fun verify_records ::
    "prims \<Rightarrow> bytes \<Rightarrow> nat \<Rightarrow> audit_record list \<Rightarrow> (bytes, audit_error) result" where
  "verify_records P prev expected [] = Ok prev"
| "verify_records P prev expected (r # rs) =
     (if ar_seq r \<noteq> expected then Err (GapBefore (ar_seq r))
      else let h = record_hash P prev (ar_seq r) (ar_tsc r) (ar_kind r) (ar_subject r) (ar_detail r) in
        if h \<noteq> ar_hash r then Err (BrokenAt (ar_seq r))
        else verify_records P h (expected + 1) rs)"

fun verify_checkpoints ::
    "prims \<Rightarrow> bytes \<Rightarrow> (bytes \<Rightarrow> signature \<Rightarrow> bool) \<Rightarrow> audit_record list \<Rightarrow> checkpoint list \<Rightarrow>
     (unit, audit_error) result" where
  "verify_checkpoints P trusted verify_sig rs [] = Ok ()"
| "verify_checkpoints P trusted verify_sig rs (c # cs) =
     (let d = checkpoint_digest P (ck_issuer_id c) (ck_seq c) (ck_head c) in
      if ck_issuer_id c \<noteq> trusted \<or> \<not> verify_sig d (ck_signature c) then Err (BadCheckpoint (ck_seq c))
      else case List.find (\<lambda>r. ar_seq r = ck_seq c) rs of
             Some r \<Rightarrow> if ar_hash r \<noteq> ck_head c then Err (CheckpointMismatch (ck_seq c))
                       else verify_checkpoints P trusted verify_sig rs cs
           | None \<Rightarrow> verify_checkpoints P trusted verify_sig rs cs)"

definition opt_last :: "'a list \<Rightarrow> 'a option" where
  "opt_last xs = (if xs = [] then None else Some (last xs))"

definition opt_hd :: "'a list \<Rightarrow> 'a option" where
  "opt_hd xs = (if xs = [] then None else Some (hd xs))"

definition unsigned_tail :: "audit_log \<Rightarrow> nat" where
  "unsigned_tail l =
     (case (opt_last (al_records l), opt_last (al_checkpoints l)) of
        (Some r, Some c) \<Rightarrow> ar_seq r - ck_seq c
      | (Some r, None) \<Rightarrow> length (al_records l)
      | _ \<Rightarrow> 0)"

definition log_verify ::
    "prims \<Rightarrow> audit_log \<Rightarrow> bytes \<Rightarrow> (bytes \<Rightarrow> signature \<Rightarrow> bool) \<Rightarrow> (verify_report, audit_error) result" where
  "log_verify P l trusted verify_sig =
     (if al_evicted l = 0 \<and> al_anchor l \<noteq> al_genesis l then Err BadGenesis
      else result_bind (verify_records P (al_anchor l) (al_evicted l) (al_records l)) (\<lambda>prev.
        if prev \<noteq> al_head l then Err HeadMismatch
        else result_bind (verify_checkpoints P trusted verify_sig (al_records l) (al_checkpoints l)) (\<lambda>_.
          Ok \<lparr>vr_records = length (al_records l),
              vr_first_seq = map_option ar_seq (opt_hd (al_records l)),
              vr_last_seq = map_option ar_seq (opt_last (al_records l)),
              vr_evicted = al_evicted l,
              vr_checkpoints = length (al_checkpoints l),
              vr_latest_checkpoint = map_option ck_seq (opt_last (al_checkpoints l)),
              vr_unsigned_tail = unsigned_tail l\<rparr>)))"

section \<open>The kernel-wide log\<close>

text \<open>
  The environment of the recording functions: the libraries and the kernel issuer, which do
  not change within a boot, and the time stamp counter. Every record reads the counter
  once, so its readings are a function (any function) of the record's sequence number.
\<close>

record audit_env =
  ae_prims :: prims
  ae_issuer :: issuer
  ae_tsc :: "nat \<Rightarrow> u64"

definition append_now :: "audit_env \<Rightarrow> event_kind \<Rightarrow> str \<Rightarrow> u64 \<Rightarrow> audit_log \<Rightarrow> nat \<times> audit_log" where
  "append_now E kind subject detail l =
     log_append (ae_prims E) LOG_CAPACITY (ae_tsc E (al_next_seq l)) kind subject detail l"

definition start_locked :: "audit_env \<Rightarrow> audit_log \<Rightarrow> audit_log" where
  "start_locked E l =
     (if al_started l then l
      else snd (append_now E Boot ''kernel'' (if is_secure (ae_issuer E) then 1 else 0)
        (log_start (ae_prims E) (is_id (ae_issuer E)) l)))"

definition record_event :: "audit_env \<Rightarrow> event_kind \<Rightarrow> str \<Rightarrow> u64 \<Rightarrow> audit_log \<Rightarrow> audit_log" where
  "record_event E kind subject detail l =
     (case append_now E kind subject detail (start_locked E l) of
        (seq, l') \<Rightarrow>
          if (seq + 1) mod CHECKPOINT_INTERVAL = 0 then snd (log_checkpoint (ae_prims E) (ae_issuer E) l')
          else l')"

definition record_fmt :: "audit_env \<Rightarrow> event_kind \<Rightarrow> str list \<Rightarrow> u64 \<Rightarrow> audit_log \<Rightarrow> audit_log" where
  "record_fmt E kind pieces detail l = record_event E kind (write_pieces MAX_SUBJECT [] pieces) detail l"

definition checkpoint_now :: "audit_env \<Rightarrow> audit_log \<Rightarrow> nat option \<times> audit_log" where
  "checkpoint_now E l = log_checkpoint (ae_prims E) (ae_issuer E) (start_locked E l)"

definition kernel_verify :: "audit_env \<Rightarrow> audit_log \<Rightarrow> (verify_report, audit_error) result" where
  "kernel_verify E l = log_verify (ae_prims E) l (is_id (ae_issuer E))
     (issuer_verify (ae_prims E) (ae_issuer E) DomAuditCheckpoint)"

text \<open>\<open>demo_tamper\<close>: flip a bit of a retained record without updating hashes.\<close>

definition demo_tamper :: "nat \<Rightarrow> audit_log \<Rightarrow> bool \<times> audit_log" where
  "demo_tamper seq l =
     (case position (\<lambda>r. ar_seq r = seq) (al_records l) of
        None \<Rightarrow> (False, l)
      | Some i \<Rightarrow>
          let r = al_records l ! i in
          (True, l\<lparr>al_records := (al_records l)[i := r\<lparr>ar_detail := ar_detail r XOR 1\<rparr>]\<rparr>))"

section \<open>Every log the kernel builds verifies\<close>

lemma truncate_loop_length: "length out \<le> MAX_SUBJECT \<Longrightarrow> length (truncate_loop out s) \<le> MAX_SUBJECT"
proof (induction out s rule: truncate_loop.induct)
  case (1 out s)
  then show ?case
    by (auto simp: truncate_loop.simps [of out s] Let_def not_less)
qed

text \<open>
  The invariant of the ring: the retained records are numbered from \<open>evicted\<close> on and
  chained from \<open>anchor\<close> to \<open>head\<close>, and every checkpoint is the signature of a chain
  value whose record is gone or matches.
\<close>

definition checkpoint_ok :: "prims \<Rightarrow> issuer \<Rightarrow> audit_log \<Rightarrow> checkpoint \<Rightarrow> bool" where
  "checkpoint_ok P i l c \<longleftrightarrow> ck_issuer_id c = is_id i \<and> ck_seq c < al_next_seq l \<and>
     ck_signature c = issuer_sign P i DomAuditCheckpoint (checkpoint_digest P (is_id i) (ck_seq c) (ck_head c)) \<and>
     (\<forall>r \<in> set (al_records l). ar_seq r = ck_seq c \<longrightarrow> ar_hash r = ck_head c)"

definition log_inv :: "prims \<Rightarrow> issuer \<Rightarrow> audit_log \<Rightarrow> bool" where
  "log_inv P i l \<longleftrightarrow> length (al_records l) \<le> LOG_CAPACITY \<and> length (al_checkpoints l) \<le> MAX_CHECKPOINTS \<and>
     (al_evicted l = 0 \<longrightarrow> al_anchor l = al_genesis l) \<and>
     al_next_seq l = al_evicted l + length (al_records l) \<and>
     verify_records P (al_anchor l) (al_evicted l) (al_records l) = Ok (al_head l) \<and>
     (\<forall>c \<in> set (al_checkpoints l). checkpoint_ok P i l c) \<and>
     (al_started l \<or> l = log_new)"

lemma verify_records_append:
  "verify_records P prev n (rs @ ts) =
     result_bind (verify_records P prev n rs) (\<lambda>h. verify_records P h (n + length rs) ts)"
  by (induction P prev n rs rule: verify_records.induct) (auto simp: Let_def)

lemma verify_records_nth:
  "verify_records P prev n rs = Ok h \<Longrightarrow> i < length rs \<Longrightarrow> ar_seq (rs ! i) = n + i"
proof (induction rs arbitrary: prev n i)
  case (Cons r rs)
  then show ?case by (cases i) (auto simp: Let_def split: if_splits)
qed simp

lemma verify_records_last:
  assumes "verify_records P prev n rs = Ok h" and "rs \<noteq> []"
  shows "ar_hash (last rs) = h \<and> ar_seq (last rs) + 1 = n + length rs"
proof -
  have "verify_records P prev n (butlast rs @ [last rs]) = Ok h" using assms by simp
  then have "ar_hash (last rs) = h" by (subst (asm) verify_records_append) (auto simp: Let_def split: if_splits)
  moreover obtain m where "length rs = Suc m" using assms(2) by (cases rs) auto
  ultimately show ?thesis
    using verify_records_nth [OF assms(1), of m] assms(2) by (simp add: last_conv_nth)
qed

lemma log_append_inv:
  assumes "log_inv P i l" and "al_started l"
  shows "log_inv P i (snd (log_append P LOG_CAPACITY t k s d l))"
    and "al_started (snd (log_append P LOG_CAPACITY t k s d l))"
    and "al_records (snd (log_append P LOG_CAPACITY t k s d l)) \<noteq> []"
proof -
  define l1 where "l1 = (if length (al_records l) = LOG_CAPACITY then
      (case al_records l of [] \<Rightarrow> l
       | old # rs \<Rightarrow> l\<lparr>al_records := rs, al_anchor := ar_hash old, al_evicted := al_evicted l + 1\<rparr>) else l)"
  have cap: "0 < LOG_CAPACITY" by (simp add: LOG_CAPACITY_def)
  have l1: "length (al_records l1) < LOG_CAPACITY" "al_next_seq l1 = al_evicted l1 + length (al_records l1)"
    "al_evicted l1 = 0 \<longrightarrow> al_anchor l1 = al_genesis l1"
    "verify_records P (al_anchor l1) (al_evicted l1) (al_records l1) = Ok (al_head l1)"
    "set (al_records l1) \<subseteq> set (al_records l)" "al_checkpoints l1 = al_checkpoints l"
    "al_next_seq l1 = al_next_seq l" "al_started l1"
    using assms cap by (auto simp: l1_def log_inv_def Let_def split: list.splits if_splits)
  define h where "h = record_hash P (al_head l1) (al_next_seq l1) t k (truncate_subject s) d"
  define r where "r = \<lparr>ar_seq = al_next_seq l1, ar_tsc = t, ar_kind = k, ar_subject = truncate_subject s,
      ar_detail = d, ar_hash = h\<rparr>"
  have app: "snd (log_append P LOG_CAPACITY t k s d l) =
      l1\<lparr>al_records := al_records l1 @ [r], al_head := h, al_next_seq := al_next_seq l1 + 1\<rparr>"
    using l1(1) unfolding log_append_def Let_def l1_def [symmetric] r_def h_def by (simp add: bounded_push_def)
  have "verify_records P (al_anchor l1) (al_evicted l1) (al_records l1 @ [r]) = Ok h"
    using l1(2,4) by (simp add: verify_records_append r_def h_def Let_def)
  moreover have "checkpoint_ok P i (snd (log_append P LOG_CAPACITY t k s d l)) c" if "c \<in> set (al_checkpoints l)" for c
  proof -
    have "checkpoint_ok P i l c" using assms(1) that by (simp add: log_inv_def)
    then show ?thesis using l1(5,7) by (auto simp: checkpoint_ok_def app r_def)
  qed
  ultimately show "log_inv P i (snd (log_append P LOG_CAPACITY t k s d l))"
    using assms(1) l1 by (auto simp: log_inv_def app)
  show "al_started (snd (log_append P LOG_CAPACITY t k s d l))" using l1(8) by (simp add: app)
  show "al_records (snd (log_append P LOG_CAPACITY t k s d l)) \<noteq> []" by (simp add: app)
qed

lemma log_start_inv: "log_inv P i l \<Longrightarrow> log_inv P i (log_start P iid l)" "al_started (log_start P iid l)"
  by (auto simp: log_start_def log_inv_def log_new_def Let_def)

lemma log_checkpoint_inv:
  assumes "log_inv P i l"
  shows "log_inv P i (snd (log_checkpoint P i l))"
    and "al_started (snd (log_checkpoint P i l)) = al_started l"
proof -
  have "verify_records P (al_anchor l) (al_evicted l) (al_records l) = Ok (al_head l)"
    using assms by (simp add: log_inv_def)
  note rs = verify_records_last [OF this] verify_records_nth [OF this]
  have "ar_hash r = al_head l" if r: "al_records l \<noteq> []" "r \<in> set (al_records l)" "ar_seq r = ar_seq (last (al_records l))" for r
  proof -
    obtain j where j: "j < length (al_records l)" "r = al_records l ! j"
      using r(2) by (auto simp: in_set_conv_nth)
    then have "j = length (al_records l) - 1" using rs(1) [OF r(1)] rs(2) [OF j(1)] r(3) by auto
    with j(2) r(1) rs(1) [OF r(1)] show ?thesis by (simp add: last_conv_nth)
  qed
  note hd = this
  show "log_inv P i (snd (log_checkpoint P i l))"
  proof (cases "snd (log_checkpoint P i l) = l")
    case False
    define c where "c = \<lparr>ck_seq = ar_seq (last (al_records l)), ck_head = al_head l, ck_issuer_id = is_id i,
      ck_signature = issuer_sign P i DomAuditCheckpoint
        (checkpoint_digest P (is_id i) (ar_seq (last (al_records l))) (al_head l))\<rparr>"
    define cs where "cs = (if length (al_checkpoints l) = MAX_CHECKPOINTS then tl (al_checkpoints l) else al_checkpoints l)"
    from False have ne: "al_records l \<noteq> []" and l': "snd (log_checkpoint P i l) = l\<lparr>al_checkpoints := cs @ [c]\<rparr>"
      by (auto simp: log_checkpoint_def Let_def c_def cs_def split: if_splits)
    have inv: "\<forall>c \<in> set (al_checkpoints l). checkpoint_ok P i l c" "length (al_checkpoints l) \<le> MAX_CHECKPOINTS"
      "al_next_seq l = al_evicted l + length (al_records l)" "al_started l \<or> l = log_new"
      using assms by (simp_all add: log_inv_def)
    have "checkpoint_ok P i l c" using rs(1) [OF ne] hd [OF ne] inv(3) by (simp add: checkpoint_ok_def c_def)
    moreover have "set cs \<subseteq> set (al_checkpoints l)" by (cases "al_checkpoints l") (auto simp: cs_def)
    ultimately have "\<forall>c' \<in> set (cs @ [c]). checkpoint_ok P i (l\<lparr>al_checkpoints := cs @ [c]\<rparr>) c'"
      using inv(1) by (auto simp: checkpoint_ok_def)
    moreover have "length (cs @ [c]) \<le> MAX_CHECKPOINTS" using inv(2) by (auto simp: cs_def MAX_CHECKPOINTS_def)
    moreover have "al_started l" using inv(4) ne by (auto simp: log_new_def)
    ultimately show ?thesis using assms unfolding l' by (simp add: log_inv_def)
  qed (use assms in simp)
  show "al_started (snd (log_checkpoint P i l)) = al_started l"
    by (simp add: log_checkpoint_def Let_def)
qed

lemma start_locked_inv:
  assumes "log_inv P i l" and "P = ae_prims E" and "i = ae_issuer E"
  shows "log_inv P i (start_locked E l)" and "al_started (start_locked E l)"
  using log_append_inv [OF log_start_inv(1) [OF assms(1)] log_start_inv(2)] assms
  by (auto simp: start_locked_def append_now_def)

lemma record_event_inv:
  assumes "log_inv P i l" and "P = ae_prims E" and "i = ae_issuer E"
  shows "log_inv P i (record_event E k s d l)" and "al_started (record_event E k s d l)"
proof -
  note st = start_locked_inv [OF assms]
  note ap = log_append_inv [OF st, of "ae_tsc E (al_next_seq (start_locked E l))" k s d]
  obtain seq l' where a: "append_now E k s d (start_locked E l) = (seq, l')" by fastforce
  then have l': "log_inv P i l'" "al_started l'" using ap assms(2) by (simp_all add: append_now_def)
  show "log_inv P i (record_event E k s d l)" "al_started (record_event E k s d l)"
    using l' log_checkpoint_inv [OF l'(1)] assms by (simp_all add: record_event_def a)
qed

lemma log_inv_new: "log_inv P i log_new"
  by (simp add: log_inv_def log_new_def)

text \<open>What the kernel does with its log, as a machine.\<close>

datatype audit_op = OpInit | OpRecord event_kind str u64 | OpRecordFmt event_kind "str list" u64 | OpCheckpoint

primrec audit_step :: "audit_env \<Rightarrow> audit_log \<Rightarrow> audit_op \<Rightarrow> audit_log" where
  "audit_step E l OpInit = start_locked E l"
| "audit_step E l (OpRecord k s d) = record_event E k s d l"
| "audit_step E l (OpRecordFmt k ps d) = record_fmt E k ps d l"
| "audit_step E l OpCheckpoint = snd (checkpoint_now E l)"

interpretation alog: monotone_machine "audit_step E" "log_inv (ae_prims E) (ae_issuer E)"
  "\<lambda>l l'. al_next_seq l \<le> al_next_seq l' \<and> al_evicted l \<le> al_evicted l'" for E
proof unfold_locales
  fix l op
  assume inv: "log_inv (ae_prims E) (ae_issuer E) l"
  note st = start_locked_inv [OF inv refl refl]
  show "log_inv (ae_prims E) (ae_issuer E) (audit_step E l op)"
    by (cases op) (simp_all add: st record_event_inv [OF inv] record_fmt_def checkpoint_now_def
        log_checkpoint_inv [OF st(1)])
  have app: "al_next_seq l \<le> al_next_seq (snd (append_now E k s d l)) \<and>
      al_evicted l \<le> al_evicted (snd (append_now E k s d l))" for k s d and l :: audit_log
    by (auto simp: append_now_def log_append_def Let_def split: list.splits)
  have start: "al_next_seq l \<le> al_next_seq (start_locked E l) \<and> al_evicted l \<le> al_evicted (start_locked E l)" for l
    using app [of "log_start (ae_prims E) (is_id (ae_issuer E)) l"]
    by (auto simp: start_locked_def log_start_def Let_def split: if_splits)
  have ck: "al_next_seq (snd (log_checkpoint P i l)) = al_next_seq l \<and>
      al_evicted (snd (log_checkpoint P i l)) = al_evicted l" for P i l
    by (simp add: log_checkpoint_def Let_def)
  have rec: "al_next_seq l \<le> al_next_seq (record_event E k s d l) \<and> al_evicted l \<le> al_evicted (record_event E k s d l)"
    for k s d l
    using start [of l] app [of "start_locked E l" k s d]
    by (auto simp: record_event_def ck split: prod.splits)
  show "al_next_seq l \<le> al_next_seq (audit_step E l op) \<and> al_evicted l \<le> al_evicted (audit_step E l op)"
    using start [of l] rec by (cases op) (simp_all add: record_fmt_def checkpoint_now_def ck)
qed auto

lemma verify_checkpoints_Ok_iff:
  "verify_checkpoints P trusted vs rs cs = Ok () \<longleftrightarrow>
     (\<forall>c \<in> set cs. ck_issuer_id c = trusted \<and>
        vs (checkpoint_digest P (ck_issuer_id c) (ck_seq c) (ck_head c)) (ck_signature c) \<and>
        (case List.find (\<lambda>r. ar_seq r = ck_seq c) rs of None \<Rightarrow> True | Some r \<Rightarrow> ar_hash r = ck_head c))"
  by (induction cs) (auto simp: Let_def split: option.splits)

lemma log_verify_Ok_iff:
  "(\<exists>rep. log_verify P l trusted vs = Ok rep) \<longleftrightarrow>
     (al_evicted l = 0 \<longrightarrow> al_anchor l = al_genesis l) \<and>
     verify_records P (al_anchor l) (al_evicted l) (al_records l) = Ok (al_head l) \<and>
     verify_checkpoints P trusted vs (al_records l) (al_checkpoints l) = Ok ()"
  by (auto simp: log_verify_def)

lemma log_inv_verifies:
  assumes "log_inv P i l" and "signatures_correct P" and "issuer_ok P i"
  shows "\<exists>rep. log_verify P l (is_id i) (issuer_verify P i DomAuditCheckpoint) = Ok rep"
  using assms
  by (auto simp: log_verify_Ok_iff log_inv_def verify_checkpoints_Ok_iff checkpoint_ok_def
      split: option.splits dest: find_SomeD)

section \<open>Tamper evidence\<close>

definition record_input :: "bytes \<Rightarrow> audit_record \<Rightarrow> bytes" where
  "record_input prev r = record_bytes prev (ar_seq r) (ar_tsc r) (ar_kind r) (ar_subject r) (ar_detail r)"

text \<open>The byte strings hashed along a chain.\<close>

fun chain_inputs :: "bytes \<Rightarrow> audit_record list \<Rightarrow> bytes list" where
  "chain_inputs prev [] = []"
| "chain_inputs prev (r # rs) = record_input prev r # chain_inputs (ar_hash r) rs"

definition collides :: "prims \<Rightarrow> bytes set \<Rightarrow> bool" where
  "collides P X \<longleftrightarrow> (\<exists>a \<in> X. \<exists>b \<in> X. a \<noteq> b \<and> sha256 P a = sha256 P b)"

lemma collides_mono: "collides P X \<Longrightarrow> X \<subseteq> Y \<Longrightarrow> collides P Y"
  unfolding collides_def by blast

lemma collidesI: "a \<in> X \<Longrightarrow> b \<in> X \<Longrightarrow> a \<noteq> b \<Longrightarrow> sha256 P a = sha256 P b \<Longrightarrow> collides P X"
  unfolding collides_def by blast

definition short_subjects :: "audit_record list \<Rightarrow> bool" where
  "short_subjects rs \<longleftrightarrow> (\<forall>r \<in> set rs. length (ar_subject r) \<le> MAX_SUBJECT)"

lemma kind_u8_inject: "kind_u8 a = kind_u8 b \<longleftrightarrow> a = b"
  by (cases a; cases b) simp_all

lemma record_input_inject:
  assumes "record_input p r = record_input p' r'" and "length p = length p'" and "ar_seq r = ar_seq r'"
    and "length (ar_subject r) \<le> MAX_SUBJECT" and "length (ar_subject r') \<le> MAX_SUBJECT"
    and "ar_hash r = ar_hash r'"
  shows "p = p' \<and> r = r'"
proof -
  have "unat (of_nat (length (ar_subject q)) :: u8) = length (ar_subject q)" if "length (ar_subject q) \<le> MAX_SUBJECT" for q
    using that by (simp add: unat_of_nat MAX_SUBJECT_def)
  then have len: "of_nat (length (ar_subject r)) = (of_nat (length (ar_subject r')) :: u8) \<longleftrightarrow>
      length (ar_subject r) = length (ar_subject r')"
    using assms(4,5) by metis
  from assms(1,2) have "p = p' \<and> ar_tsc r = ar_tsc r' \<and> ar_kind r = ar_kind r' \<and> ar_subject r = ar_subject r' \<and>
      ar_detail r = ar_detail r'"
    by (auto simp: record_input_def record_bytes_def kind_u8_inject len)
  with assms(3,6) show ?thesis by (auto intro: audit_record.equality)
qed

lemma chain_inputs_append:
  "chain_inputs prev (rs @ ts) = chain_inputs prev rs @ chain_inputs (if rs = [] then prev else ar_hash (last rs)) ts"
  by (induction rs arbitrary: prev) auto

lemma verify_records_split:
  assumes "verify_records P a n (rs @ [r]) = Ok h"
  obtains q where "verify_records P a n rs = Ok q" and "sha256 P (record_input q r) = h" and "ar_hash r = h"
    and "ar_seq r = n + length rs" and "q = (if rs = [] then a else ar_hash (last rs))"
proof -
  from assms obtain q where q: "verify_records P a n rs = Ok q" "sha256 P (record_input q r) = h" "ar_hash r = h"
      "ar_seq r = n + length rs"
    by (auto simp: verify_records_append record_input_def record_hash_def Let_def split: if_splits)
  moreover from q(1) have "q = (if rs = [] then a else ar_hash (last rs))" using verify_records_last by auto
  ultimately show thesis by (rule that)
qed

lemma verify_records_len32:
  "verify_records P b m xs = Ok y \<Longrightarrow> \<forall>x. length (sha256 P x) = 32 \<Longrightarrow> length b = 32 \<Longrightarrow> length y = 32"
proof (induction xs arbitrary: b m)
  case (Cons r xs)
  then have "verify_records P (ar_hash r) (m + 1) xs = Ok y" "sha256 P (record_input b r) = ar_hash r"
    by (auto simp: record_hash_def record_input_def Let_def split: if_splits)
  with Cons.IH Cons.prems(2) show ?case by metis
qed simp

text \<open>Two chains of one length that end in one hash are the same chain, or a collision.\<close>

lemma chain_unique:
  assumes "verify_records P a n rs = Ok h" and "verify_records P a' n rs' = Ok h" and "length rs = length rs'"
    and "\<forall>b. length (sha256 P b) = 32" and "length a = 32" and "length a' = 32"
    and "short_subjects rs" and "short_subjects rs'"
  shows "(a = a' \<and> rs = rs') \<or> collides P (set (chain_inputs a rs) \<union> set (chain_inputs a' rs'))"
  using assms(1-3,7,8)
proof (induction rs arbitrary: rs' h rule: rev_induct)
  case Nil
  then show ?case by simp
next
  case (snoc r rs)
  then obtain r' ts where rs': "rs' = ts @ [r']" "length rs = length ts" by (cases rs' rule: rev_cases) auto
  obtain q where q: "verify_records P a n rs = Ok q" "sha256 P (record_input q r) = h" "ar_hash r = h"
      "ar_seq r = n + length rs" "q = (if rs = [] then a else ar_hash (last rs))"
    using verify_records_split [OF snoc.prems(1)] .
  obtain q' where q': "verify_records P a' n ts = Ok q'" "sha256 P (record_input q' r') = h" "ar_hash r' = h"
      "ar_seq r' = n + length ts" "q' = (if ts = [] then a' else ar_hash (last ts))"
    using verify_records_split [OF snoc.prems(2) [unfolded rs']] .
  have inp: "record_input q r \<in> set (chain_inputs a (rs @ [r]))" "record_input q' r' \<in> set (chain_inputs a' (ts @ [r']))"
    by (simp_all add: chain_inputs_append q(5) q'(5))
  have sub: "set (chain_inputs a rs) \<subseteq> set (chain_inputs a (rs @ [r]))"
    "set (chain_inputs a' ts) \<subseteq> set (chain_inputs a' (ts @ [r']))" by (auto simp: chain_inputs_append)
  note len32 = verify_records_len32 [OF _ assms(4)]
  show ?case
  proof (cases "record_input q r = record_input q' r'")
    case True
    then have "q = q' \<and> r = r'"
      using record_input_inject [OF True] len32 [OF q(1) assms(5)] len32 [OF q'(1) assms(6)] q q' rs'(2) snoc.prems(4,5)
      by (simp add: short_subjects_def rs')
    moreover from this snoc.IH [OF q(1), of ts] q'(1) rs' snoc.prems(4,5)
    have "(a = a' \<and> rs = ts) \<or> collides P (set (chain_inputs a rs) \<union> set (chain_inputs a' ts))"
      by (simp add: short_subjects_def)
    ultimately show ?thesis
      using collides_mono [OF _ Un_mono [OF sub]] by (auto simp: rs')
  next
    case False
    have "collides P (set (chain_inputs a (rs @ [r])) \<union> set (chain_inputs a' (ts @ [r'])))"
      by (rule collidesI [OF UnI1 [OF inp(1)] UnI2 [OF inp(2)] False]) (simp add: q(2) q'(2))
    then show ?thesis by (simp add: rs')
  qed
qed

lemma chain_inputs_take_subset: "set (chain_inputs a (take n rs)) \<subseteq> set (chain_inputs a rs)"
  using chain_inputs_append [of a "take n rs" "drop n rs"] by auto

lemma verify_records_take:
  assumes "verify_records P a n rs = Ok h" and "j < length rs"
  shows "verify_records P a n (take (Suc j) rs) = Ok (ar_hash (rs ! j))"
proof -
  have "result_bind (verify_records P a n (take (Suc j) rs)) (\<lambda>q. verify_records P q (n + length (take (Suc j) rs))
      (drop (Suc j) rs)) = Ok h"
    using verify_records_append [of P a n "take (Suc j) rs" "drop (Suc j) rs"] assms(1) by simp
  then obtain q where q: "verify_records P a n (take (Suc j) rs) = Ok q" by auto
  have "last (take (Suc j) rs) = rs ! j" using assms(2) by (simp add: take_Suc_conv_app_nth)
  with verify_records_last [OF q] q assms(2) show ?thesis by (cases rs) auto
qed

lemma verify_records_drop:
  assumes "verify_records P g n rs = Ok h" and "e \<le> length rs"
  obtains q where "verify_records P q (n + e) (drop e rs) = Ok h" and "verify_records P g n (take e rs) = Ok q"
    and "set (chain_inputs q (drop e rs)) \<subseteq> set (chain_inputs g rs)"
proof -
  have "result_bind (verify_records P g n (take e rs)) (\<lambda>q. verify_records P q (n + e) (drop e rs)) = Ok h"
    using verify_records_append [of P g n "take e rs" "drop e rs"] assms by simp
  then obtain q where q: "verify_records P g n (take e rs) = Ok q" "verify_records P q (n + e) (drop e rs) = Ok h" by auto
  have "q = (if take e rs = [] then g else ar_hash (last (take e rs)))" using verify_records_last [OF q(1)] q(1) by auto
  then have "set (chain_inputs q (drop e rs)) \<subseteq> set (chain_inputs g rs)"
    using chain_inputs_append [of g "take e rs" "drop e rs"] by auto
  with q that show thesis by blast
qed

text \<open>The byte strings hashed for a log and its checkpoints.\<close>

definition hashed :: "audit_log \<Rightarrow> bytes set" where
  "hashed l = set (chain_inputs (al_anchor l) (al_records l)) \<union>
     (\<lambda>c. checkpoint_bytes (ck_issuer_id c) (ck_seq c) (ck_head c)) ` set (al_checkpoints l)"

text \<open>The same for a history \<open>G\<close> that starts at the genesis hash \<open>g\<close>.\<close>

definition hashed_history :: "bytes \<Rightarrow> bytes \<Rightarrow> audit_record list \<Rightarrow> bytes set" where
  "hashed_history iid g G = set (chain_inputs g G) \<union> (\<lambda>k. checkpoint_bytes iid k (ar_hash (G ! k))) ` {..<length G}"

lemma checkpoint_genuine:
  assumes "log_verify P l iid vs = Ok rep" and "c \<in> set (al_checkpoints l)"
    and "\<forall>d s. vs d s \<longrightarrow> (\<exists>k < length G. d = checkpoint_digest P iid k (ar_hash (G ! k)))"
    and "ck_seq c < 2 ^ 64" and "length G \<le> 2 ^ 64"
  shows "(ck_seq c < length G \<and> ck_head c = ar_hash (G ! ck_seq c)) \<or>
    collides P (hashed l \<union> hashed_history iid g G)"
proof -
  have "verify_checkpoints P iid vs (al_records l) (al_checkpoints l) = Ok ()"
    using assms(1) log_verify_Ok_iff [of P l iid vs] by blast
  then have c: "ck_issuer_id c = iid" "vs (checkpoint_digest P iid (ck_seq c) (ck_head c)) (ck_signature c)"
    using assms(2) by (auto simp: verify_checkpoints_Ok_iff)
  with assms(3) obtain k where k: "k < length G"
    "sha256 P (checkpoint_bytes iid (ck_seq c) (ck_head c)) = sha256 P (checkpoint_bytes iid k (ar_hash (G ! k)))"
    by (auto simp: checkpoint_digest_def)
  show ?thesis
  proof (cases "checkpoint_bytes iid (ck_seq c) (ck_head c) = checkpoint_bytes iid k (ar_hash (G ! k))")
    case True
    then have "to_le 8 (ck_seq c) = to_le 8 k" "ck_head c = ar_hash (G ! k)" by (simp_all add: checkpoint_bytes_def)
    then show ?thesis using to_le_inject [of "ck_seq c" 8 k] assms(4,5) k(1) by simp
  next
    case False
    moreover have "checkpoint_bytes iid (ck_seq c) (ck_head c) \<in> hashed l"
      using assms(2) c(1) by (auto simp: hashed_def)
    moreover have "checkpoint_bytes iid k (ar_hash (G ! k)) \<in> hashed_history iid g G"
      using k(1) by (auto simp: hashed_history_def)
    ultimately show ?thesis using k(2) collidesI by (metis UnI1 UnI2)
  qed
qed

lemma checkpoint_covers:
  assumes "log_verify P l iid vs = Ok rep" and "c \<in> set (al_checkpoints l)" and "j < length (al_records l)"
    and "ar_seq (al_records l ! j) = ck_seq c"
  shows "ar_hash (al_records l ! j) = ck_head c"
proof -
  have v: "verify_records P (al_anchor l) (al_evicted l) (al_records l) = Ok (al_head l)"
    and cks: "verify_checkpoints P iid vs (al_records l) (al_checkpoints l) = Ok ()"
    using assms(1) log_verify_Ok_iff [of P l iid vs] by blast+
  obtain r where r: "List.find (\<lambda>r. ar_seq r = ck_seq c) (al_records l) = Some r"
    using assms(3,4) by (cases "List.find (\<lambda>r. ar_seq r = ck_seq c) (al_records l)") (auto simp: find_None_iff)
  from find_SomeD [OF r] obtain m where "m < length (al_records l)" "r = al_records l ! m" "ar_seq r = ck_seq c"
    by (auto simp: in_set_conv_nth)
  then have "r = al_records l ! j"
    using verify_records_nth [OF v] verify_records_nth [OF v assms(3)] assms(4) by simp
  with r cks assms(2) show ?thesis by (auto simp: verify_checkpoints_Ok_iff)
qed

section \<open>Properties\<close>

definition plain_env :: audit_env where
  "plain_env = \<lparr>ae_prims = plain_prims, ae_issuer = issuer_from_seeds plain_prims [] [] True, ae_tsc = (\<lambda>_. 0)\<rparr>"

lemma plain_env_ok: "signatures_correct (ae_prims plain_env)" "issuer_ok (ae_prims plain_env) (ae_issuer plain_env)"
  by (auto simp: plain_env_def signatures_correct_def plain_prims_def issuer_ok_def)

text \<open>
  C17: Whatever sequence of recording, formatting, checkpoint and start calls the kernel
  makes, with whatever clock readings, its audit log verifies against the kernel issuer,
  also after old records were evicted from the ring; and its counters never go back.
  Hypothesis: the signature schemes verify what they signed.
\<close>

theorem audit_log_verifies:
  assumes "signatures_correct (ae_prims E)" and "issuer_ok (ae_prims E) (ae_issuer E)"
  shows "(\<exists>rep. kernel_verify E (foldl (audit_step E) log_new ops) = Ok rep) \<and>
    al_next_seq (foldl (audit_step E) log_new ops) \<le>
      al_next_seq (foldl (audit_step E) (foldl (audit_step E) log_new ops) ops')"
proof -
  have inv: "log_inv (ae_prims E) (ae_issuer E) (foldl (audit_step E) log_new ops)"
    by (rule alog.inv_run [OF log_inv_new])
  from log_inv_verifies [OF inv assms] alog.le_run [OF inv] show ?thesis
    by (simp add: kernel_verify_def)
qed

theorem audit_log_verifies_witness:
  "\<exists>rep. kernel_verify plain_env
     (foldl (audit_step plain_env) log_new [OpInit, OpRecord CapIssued ''obj-1'' 18, OpCheckpoint]) = Ok rep"
  by (rule conjunct1 [OF audit_log_verifies [OF plain_env_ok, of _ "[]"]])


text \<open>A one-record history with its checkpoint, for the witnesses.\<close>

definition zero_hash :: bytes where "zero_hash = replicate 32 0"

definition zero_prims :: prims where
  "zero_prims = plain_prims\<lparr>sha256 := \<lambda>_. zero_hash\<rparr>"

definition sample_record :: audit_record where
  "sample_record = \<lparr>ar_seq = 0, ar_tsc = 5, ar_kind = Boot, ar_subject = ''kernel'', ar_detail = 1, ar_hash = zero_hash\<rparr>"

definition sample_log :: audit_log where
  "sample_log = \<lparr>al_records = [sample_record],
     al_checkpoints = [\<lparr>ck_seq = 0, ck_head = zero_hash, ck_issuer_id = [], ck_signature = zero_signature\<rparr>],
     al_genesis = zero_hash, al_anchor = zero_hash, al_head = zero_hash, al_next_seq = 1, al_evicted = 0,
     al_started = True\<rparr>"

lemma zero_prims_sha256 [simp]: "sha256 zero_prims b = zero_hash" "length zero_hash = 32"
  by (simp_all add: zero_prims_def zero_hash_def)

lemma sample_log_verifies:
  "log_verify zero_prims sample_log [] (\<lambda>d s. d = zero_hash) =
     Ok \<lparr>vr_records = 1, vr_first_seq = Some 0, vr_last_seq = Some 0, vr_evicted = 0, vr_checkpoints = 1,
         vr_latest_checkpoint = Some 0, vr_unsigned_tail = 0\<rparr>"
  by (simp add: log_verify_def sample_log_def sample_record_def record_hash_def checkpoint_digest_def
      opt_last_def opt_hd_def unsigned_tail_def)


text \<open>
  C18: What verification misses: once every kept checkpoint lies ahead of them, the records
  may be replaced by any other validly chained records (the hash needs no key), and the log
  still verifies, still naming the signed checkpoint and reporting an unsigned tail of zero
  although no record is covered by a signature.
\<close>

theorem verify_misses_rollback:
  assumes "log_verify P l iid vs = Ok rep" and "al_checkpoints l \<noteq> []" and "forged \<noteq> []"
    and "verify_records P (al_anchor l) (al_evicted l) forged = Ok h"
    and "\<forall>c \<in> set (al_checkpoints l). al_evicted l + length forged \<le> ck_seq c"
  shows "\<exists>rep'. log_verify P (l\<lparr>al_records := forged, al_head := h\<rparr>) iid vs = Ok rep' \<and>
    vr_unsigned_tail rep' = 0 \<and> vr_latest_checkpoint rep' = vr_latest_checkpoint rep"
proof -
  let ?l = "l\<lparr>al_records := forged, al_head := h\<rparr>"
  from assms(1) have ok: "al_evicted l = 0 \<longrightarrow> al_anchor l = al_genesis l"
    "verify_checkpoints P iid vs (al_records l) (al_checkpoints l) = Ok ()"
    "vr_latest_checkpoint rep = map_option ck_seq (opt_last (al_checkpoints l))"
    by (auto simp: log_verify_def split: if_splits)
  have "List.find (\<lambda>r. ar_seq r = ck_seq c) forged = None" if "c \<in> set (al_checkpoints l)" for c
    using assms(5) that verify_records_nth [OF assms(4)] by (fastforce simp: find_None_iff in_set_conv_nth)
  then have "verify_checkpoints P iid vs forged (al_checkpoints l) = Ok ()"
    using ok(2) by (auto simp: verify_checkpoints_Ok_iff)
  moreover have "ar_seq (last forged) \<le> ck_seq (last (al_checkpoints l))"
    using verify_records_last [OF assms(4,3)] bspec [OF assms(5) last_in_set [OF assms(2)]] by linarith
  ultimately show ?thesis
    using ok assms(2-4) by (auto simp: log_verify_def unsigned_tail_def opt_last_def)
qed

theorem verify_misses_rollback_witness:
  "\<exists>rep'. log_verify zero_prims
     (sample_log\<lparr>al_records := [sample_record\<lparr>ar_detail := 7\<rparr>], al_head := zero_hash,
        al_checkpoints := [\<lparr>ck_seq = 1, ck_head = zero_hash, ck_issuer_id = [], ck_signature = zero_signature\<rparr>]\<rparr>) []
     (\<lambda>d s. d = zero_hash) = Ok rep' \<and> vr_unsigned_tail rep' = 0 \<and> vr_latest_checkpoint rep' = Some 1"
proof -
  define l where "l = sample_log\<lparr>al_records := [sample_record, sample_record\<lparr>ar_seq := 1\<rparr>],
    al_checkpoints := [\<lparr>ck_seq = 1, ck_head = zero_hash, ck_issuer_id = [], ck_signature = zero_signature\<rparr>]\<rparr>"
  obtain rep where v: "log_verify zero_prims l [] (\<lambda>d s. d = zero_hash) = Ok rep" "vr_latest_checkpoint rep = Some 1"
    by (simp add: l_def log_verify_def sample_log_def sample_record_def record_hash_def checkpoint_digest_def opt_last_def)
  have "\<exists>rep'. log_verify zero_prims (l\<lparr>al_records := [sample_record\<lparr>ar_detail := 7\<rparr>], al_head := zero_hash\<rparr>) []
      (\<lambda>d s. d = zero_hash) = Ok rep' \<and> vr_unsigned_tail rep' = 0 \<and> vr_latest_checkpoint rep' = vr_latest_checkpoint rep"
    by (rule verify_misses_rollback [OF v(1)])
      (simp_all add: l_def sample_log_def sample_record_def record_hash_def)
  with v(2) show ?thesis by (simp add: l_def sample_log_def)
qed

end
