(* ===== verification/Initrd.thy ===== *)
theory Initrd
  imports Prelude "HOL-Library.Sublist"
begin

text \<open>
  The boot ramdisk parser of \<open>src/initrd.rs\<close>: an iterator over the regular files of a
  \<open>ustar\<close> archive, lookup by name, and the lock of the verified-boot lockdown. The archive
  the bootloader mapped is an argument. Shown: archives written as POSIX describes them
  parse to the files they contain, and on any bytes whatever the parser ends, yields at
  most one error and that last, and only hands out well-named files that lie inside the
  archive.
\<close>

section \<open>The parser\<close>

definition BLOCK :: nat where "BLOCK = 512"
definition INITRD_MAX_NAME :: nat where "INITRD_MAX_NAME = 64"

record tar_file =
  file_name :: str
  file_data :: bytes

datatype tar_error = BadChecksum nat | BadSize nat | Truncated nat | BadName nat | NotUstar nat

record files_iter =
  fi_archive :: bytes
  fi_offset :: nat
  fi_done :: bool

definition parse :: "bytes \<Rightarrow> files_iter" where
  "parse archive = \<lparr>fi_archive = archive, fi_offset = 0, fi_done = False\<rparr>"

text \<open>\<open>octal\<close>: the loop over the field, with checked arithmetic on a 64-bit \<open>usize\<close>.\<close>

fun octal_loop :: "nat \<Rightarrow> nat \<Rightarrow> bytes \<Rightarrow> nat option" where
  "octal_loop v digits [] = (if digits > 0 then Some v else None)"
| "octal_loop v digits (b # bs) =
     (if 0x30 \<le> b \<and> b \<le> 0x37 then
        (if v * 8 < 2 ^ 64 \<and> v * 8 + unat (b - 0x30) < 2 ^ 64
         then octal_loop (v * 8 + unat (b - 0x30)) (digits + 1) bs else None)
      else if b = 0x20 \<or> b = 0 then
        (if digits = 0 then octal_loop v digits bs else Some v)
      else None)"

definition octal :: "bytes \<Rightarrow> nat option" where
  "octal field = octal_loop 0 0 field"

definition checksum_ok :: "bytes \<Rightarrow> bool" where
  "checksum_ok header =
     (case octal (take 8 (drop 148 header)) of
        None \<Rightarrow> False
      | Some stored \<Rightarrow>
          sum_list (map (\<lambda>(i, b). if 148 \<le> i \<and> i < 156 then 0x20 else unat b) (enumerate 0 header)) = stored)"

definition strip_prefix :: "str \<Rightarrow> str \<Rightarrow> str option" where
  "strip_prefix p s = (if take (length p) s = p then Some (drop (length p) s) else None)"

definition header_name :: "bytes \<Rightarrow> str option" where
  "header_name header =
     (if header ! 345 \<noteq> 0 then None
      else let raw = take 100 header;
               n = (case position (\<lambda>b. b = 0) raw of Some i \<Rightarrow> i | None \<Rightarrow> length raw) in
        do { name \<leftarrow> from_utf8 (take n raw);
             let name = (case strip_prefix ''./'' name of Some t \<Rightarrow> t | None \<Rightarrow> name);
             if name \<noteq> [] \<and> length name \<le> INITRD_MAX_NAME \<and> list_all is_ascii_graphic name
             then Some name else None })"

text \<open>
  One iteration of the loop of \<open>next\<close> at offset \<open>at\<close>: the end of the archive, a failure,
  an entry to skip, or a file; the last two with the offset of the next header.
\<close>

datatype tar_step = TarEnd | TarFail tar_error | TarSkip nat | TarFile nat tar_file

definition next_header :: "nat \<Rightarrow> nat \<Rightarrow> nat" where
  "next_header data_start sz = data_start + (sz + BLOCK - 1) div BLOCK * BLOCK"

definition tar_step :: "bytes \<Rightarrow> nat \<Rightarrow> tar_step" where
  "tar_step archive at =
     (case slice_get archive at (at + BLOCK) of
        None \<Rightarrow> TarEnd
      | Some header \<Rightarrow>
          if list_all (\<lambda>b. b = 0) header then TarEnd
          else if take 5 (drop 257 header) \<noteq> as_bytes ''ustar'' then TarFail (NotUstar at)
          else if \<not> checksum_ok header then TarFail (BadChecksum at)
          else
            case octal (take 12 (drop 124 header)) of
              None \<Rightarrow> TarFail (BadSize at)
            | Some sz \<Rightarrow>
                let data_start = at + BLOCK; data_end = data_start + sz in
                if data_end \<ge> 2 ^ 64 \<or> data_end > length archive then TarFail (Truncated at)
                else if header ! 156 \<noteq> 0x30 \<and> header ! 156 \<noteq> 0 then TarSkip (next_header data_start sz)
                else
                  case header_name header of
                    None \<Rightarrow> TarFail (BadName at)
                  | Some name \<Rightarrow> TarFile (next_header data_start sz)
                      \<lparr>file_name = name, file_data = take sz (drop data_start archive)\<rparr>)"

lemma tar_step_bound:
  "tar_step archive at = TarSkip n \<Longrightarrow> at < n \<and> at < length archive"
  "tar_step archive at = TarFile n f \<Longrightarrow> at < n \<and> at < length archive"
  by (auto simp: tar_step_def Let_def slice_get_def next_header_def BLOCK_def
      split: option.splits if_splits)

text \<open>\<open>Files::next\<close>.\<close>

function files_next :: "files_iter \<Rightarrow> (tar_file, tar_error) result option \<times> files_iter" where
  "files_next it =
     (if fi_done it then (None, it)
      else case tar_step (fi_archive it) (fi_offset it) of
             TarEnd \<Rightarrow> (None, it\<lparr>fi_done := True\<rparr>)
           | TarFail e \<Rightarrow> (Some (Err e), it\<lparr>fi_done := True\<rparr>)
           | TarSkip n \<Rightarrow> files_next (it\<lparr>fi_offset := n\<rparr>)
           | TarFile n f \<Rightarrow> (Some (Ok f), it\<lparr>fi_offset := n\<rparr>))"
  by pat_completeness auto
termination
  by (relation "measure (\<lambda>it. length (fi_archive it) - fi_offset it)") (auto dest!: tar_step_bound(1))

declare files_next.simps [simp del]

text \<open>What is left to read: decreases with every item the iterator yields.\<close>

definition files_left :: "files_iter \<Rightarrow> nat" where
  "files_left it = (if fi_done it then 0 else Suc (length (fi_archive it) - fi_offset it))"

lemma files_next_left:
  "files_next it = (Some r, it') \<Longrightarrow> files_left it' < files_left it"
proof (induction it rule: files_next.induct)
  case (1 it)
  show ?case
  proof (cases "tar_step (fi_archive it) (fi_offset it)")
    case (TarSkip n)
    with 1(2) have nd: "\<not> fi_done it" and "files_next (it\<lparr>fi_offset := n\<rparr>) = (Some r, it')"
      by (auto simp: files_next.simps [of it] split: if_splits)
    from 1(1) [OF nd TarSkip this(2)] tar_step_bound(1) [OF TarSkip] nd show ?thesis
      by (auto simp: files_left_def split: if_splits)
  next
    case (TarFile n f)
    with 1(2) tar_step_bound(2) [OF TarFile] show ?thesis
      by (auto simp: files_next.simps [of it] files_left_def split: if_splits)
  qed (use 1(2) in \<open>auto simp: files_next.simps [of it] files_left_def split: if_splits\<close>)
qed

text \<open>All items of the iterator.\<close>

function files_collect :: "files_iter \<Rightarrow> (tar_file, tar_error) result list" where
  "files_collect it =
     (case files_next it of (None, _) \<Rightarrow> [] | (Some r, it') \<Rightarrow> r # files_collect it')"
  by pat_completeness auto
termination
  by (relation "measure files_left") (auto dest!: files_next_left [OF sym])

declare files_collect.simps [simp del]

text \<open>The ramdisk: adopted once, hidden by the lock.\<close>

record ramdisk =
  rd_archive :: "bytes option"
  rd_locked :: bool

definition initrd_init :: "bytes \<Rightarrow> ramdisk \<Rightarrow> ramdisk" where
  "initrd_init bs r = (case rd_archive r of None \<Rightarrow> r\<lparr>rd_archive := Some bs\<rparr> | Some _ \<Rightarrow> r)"

definition initrd_lock :: "ramdisk \<Rightarrow> ramdisk" where
  "initrd_lock r = r\<lparr>rd_locked := True\<rparr>"

definition archive :: "ramdisk \<Rightarrow> bytes" where
  "archive r = (if rd_locked r then [] else case rd_archive r of Some a \<Rightarrow> a | None \<Rightarrow> [])"

definition files :: "ramdisk \<Rightarrow> (tar_file, tar_error) result list" where
  "files r = files_collect (parse (archive r))"

definition find_file :: "ramdisk \<Rightarrow> str \<Rightarrow> tar_file option" where
  "find_file r name = List.find (\<lambda>f. file_name f = name) (List.map_filter ok (files r))"

section \<open>Any input\<close>

definition file_inside :: "bytes \<Rightarrow> tar_file \<Rightarrow> bool" where
  "file_inside a f \<longleftrightarrow> sublist (file_data f) a \<and> file_name f \<noteq> [] \<and>
     length (file_name f) \<le> INITRD_MAX_NAME \<and> list_all is_ascii_graphic (file_name f)"

lemma header_name_graphic:
  "header_name h = Some n \<Longrightarrow> n \<noteq> [] \<and> length n \<le> INITRD_MAX_NAME \<and> list_all is_ascii_graphic n"
  by (auto simp: header_name_def Let_def bind_eq_Some_conv split: if_splits)

lemma sublist_take_drop: "sublist (take n (drop i xs)) xs"
  by (metis append_take_drop_id sublist_appendI)

lemma tar_step_file_inside: "tar_step a at = TarFile n f \<Longrightarrow> file_inside a f"
  by (auto simp: tar_step_def Let_def file_inside_def
      split: option.splits if_splits dest!: header_name_graphic intro: sublist_take_drop)

lemma files_next_inside:
  "files_next it = (Some r, it') \<Longrightarrow>
     fi_archive it' = fi_archive it \<and>
     (case r of Ok f \<Rightarrow> file_inside (fi_archive it) f | Err e \<Rightarrow> fi_done it')"
proof (induction it rule: files_next.induct)
  case (1 it)
  show ?case
  proof (cases "tar_step (fi_archive it) (fi_offset it)")
    case (TarSkip n)
    with 1(2) have "\<not> fi_done it" and "files_next (it\<lparr>fi_offset := n\<rparr>) = (Some r, it')"
      by (auto simp: files_next.simps [of it] split: if_splits)
    from 1(1) [OF this(1) TarSkip this(2)] show ?thesis by (cases r) simp_all
  qed (use 1(2) in \<open>auto simp: files_next.simps [of it] tar_step_file_inside split: if_splits\<close>)
qed

lemma files_collect_done: "fi_done it \<Longrightarrow> files_collect it = []"
  by (simp add: files_collect.simps [of it] files_next.simps [of it])

lemma files_collect_shape:
  "\<exists>fs es. files_collect it = map Ok fs @ map Err es \<and> length es \<le> 1 \<and>
     (\<forall>f \<in> set fs. file_inside (fi_archive it) f)"
proof (induction it rule: files_collect.induct)
  case (1 it)
  obtain r it' where n: "files_next it = (r, it')" by fastforce
  show ?case
  proof (cases r)
    case None
    then have "files_collect it = map Ok [] @ map Err []" using n by (simp add: files_collect.simps [of it])
    then show ?thesis by (metis empty_iff empty_set le0 list.size(3))
  next
    case (Some x)
    note nx = files_next_inside [OF n [unfolded Some]]
    from 1 [OF n [symmetric] Some] nx obtain fs es where
      ih: "files_collect it' = map Ok fs @ map Err es" "length es \<le> 1" "\<forall>f \<in> set fs. file_inside (fi_archive it) f"
      by auto
    have c: "files_collect it = x # files_collect it'" using n Some by (simp add: files_collect.simps [of it])
    show ?thesis
    proof (cases x)
      case (Ok f)
      with c ih nx have "files_collect it = map Ok (f # fs) @ map Err es"
        "\<forall>g \<in> set (f # fs). file_inside (fi_archive it) g" by auto
      with ih(2) show ?thesis by blast
    next
      case (Err e)
      with c nx have "files_collect it = map Ok [] @ map Err [e]" by (simp add: files_collect_done)
      then show ?thesis by (metis One_nat_def empty_iff empty_set le_refl length_Cons list.size(3))
    qed
  qed
qed

section \<open>Well-formed archives\<close>

text \<open>
  The POSIX \<open>ustar\<close> format: an octal field of \<open>k\<close> digits, the header of a regular file
  (only the fields the parser reads are not zero), an entry padded to whole blocks, and an
  archive ended by two zero blocks.
\<close>

primrec oct_digits :: "nat \<Rightarrow> nat \<Rightarrow> bytes" where
  "oct_digits 0 n = []"
| "oct_digits (Suc k) n = oct_digits k (n div 8) @ [0x30 + of_nat (n mod 8)]"

definition header_front :: "tar_file \<Rightarrow> bytes" where
  "header_front f = as_bytes (file_name f) @ replicate (100 - length (file_name f)) 0 @ replicate 24 0 @
     oct_digits 11 (length (file_data f)) @ [0] @ replicate 12 0"

definition header_back :: bytes where
  "header_back = [0x30] @ replicate 100 0 @ as_bytes ''ustar'' @ replicate 250 0"

definition header_sum :: "tar_file \<Rightarrow> nat" where
  "header_sum f = sum_list (map unat (header_front f)) + 8 * 0x20 + sum_list (map unat header_back)"

definition tar_header :: "tar_file \<Rightarrow> bytes" where
  "tar_header f = header_front f @ (oct_digits 6 (header_sum f) @ [0, 0x20]) @ header_back"

definition tar_entry :: "tar_file \<Rightarrow> bytes" where
  "tar_entry f = tar_header f @ file_data f @
     replicate (next_header 0 (length (file_data f)) - length (file_data f)) 0"

definition tar_archive :: "tar_file list \<Rightarrow> bytes" where
  "tar_archive fs = concat (map tar_entry fs) @ replicate (2 * BLOCK) 0"

definition tar_file_ok :: "tar_file \<Rightarrow> bool" where
  "tar_file_ok f \<longleftrightarrow> length (file_data f) < 8 ^ 11 \<and> file_name f \<noteq> [] \<and> length (file_name f) \<le> INITRD_MAX_NAME \<and>
     list_all is_ascii_graphic (file_name f) \<and> take 2 (file_name f) \<noteq> ''./''"

lemma length_oct_digits [simp]: "length (oct_digits k n) = k"
  by (induction k arbitrary: n) auto

lemma octal_digit:
  assumes "n < 8"
  shows "0x30 \<le> (0x30 + of_nat n :: u8)" "(0x30 + of_nat n :: u8) \<le> 0x37" "unat ((0x30 + of_nat n :: u8) - 0x30) = n"
proof -
  have "n \<in> {0, 1, 2, 3, 4, 5, 6, 7}" using assms by auto
  then show "0x30 \<le> (0x30 + of_nat n :: u8)" "(0x30 + of_nat n :: u8) \<le> 0x37"
    "unat ((0x30 + of_nat n :: u8) - 0x30) = n" by (auto simp: unat_of_nat)
qed

lemma octal_loop_digits:
  assumes "n < 8 ^ k" and "v * 8 ^ k + n < 2 ^ 64"
  shows "octal_loop v d (oct_digits k n @ bs) = octal_loop (v * 8 ^ k + n) (d + k) bs"
  using assms
proof (induction k arbitrary: n bs)
  case (Suc k)
  let ?m = "n div 8" and ?r = "n mod 8"
  have m: "?m < 8 ^ k" using Suc.prems(1) by (simp add: less_mult_imp_div_less mult.commute)
  have sum: "(v * 8 ^ k + ?m) * 8 + ?r = v * 8 ^ Suc k + n" by (simp add: algebra_simps)
  have lt: "(v * 8 ^ k + ?m) * 8 + ?r < 2 ^ 64" using Suc.prems(2) by (simp only: sum)
  then have lt8: "(v * 8 ^ k + ?m) * 8 < 2 ^ 64" by (rule le_less_trans [rotated]) simp
  then have le: "v * 8 ^ k + ?m < 2 ^ 64" by (rule le_less_trans [rotated]) simp
  have "octal_loop v d (oct_digits (Suc k) n @ bs) =
      octal_loop (v * 8 ^ k + ?m) (d + k) ((0x30 + of_nat ?r) # bs)"
    using Suc.IH [OF m le, of "(0x30 + of_nat ?r) # bs"] by simp
  also have "\<dots> = octal_loop (v * 8 ^ Suc k + n) (d + Suc k) bs"
    using octal_digit [of ?r] lt lt8 unfolding sum [symmetric] by (simp del: power_Suc)
  finally show ?case .
qed simp

lemma octal_field:
  assumes "0 < k" and "n < 8 ^ k" and "n < 2 ^ 64"
  shows "octal (oct_digits k n @ 0 # bs) = Some n"
  using octal_loop_digits [OF assms(2), of 0 0 "0 # bs"] assms by (simp add: octal_def)

lemma length_header_front: "tar_file_ok f \<Longrightarrow> length (header_front f) = 148"
  by (simp add: header_front_def tar_file_ok_def INITRD_MAX_NAME_def)

lemma length_header_back [simp]: "length header_back = 356"
  by (simp add: header_back_def)

lemma length_tar_header [simp]: "tar_file_ok f \<Longrightarrow> length (tar_header f) = 512"
  by (simp add: tar_header_def length_header_front)

lemma sum_bytes_le: "sum_list (map unat (b :: bytes)) \<le> 255 * length b"
proof (induction b)
  case (Cons x b)
  moreover have "unat x \<le> 255" using u8_less_256 [of x] by linarith
  ultimately show ?case by simp
qed simp

lemma header_sum_bound: "tar_file_ok f \<Longrightarrow> header_sum f < 8 ^ 6"
  using sum_bytes_le [of "header_front f"] sum_bytes_le [of header_back]
  by (simp add: header_sum_def length_header_front)

lemma checksum_split:
  fixes a b c :: bytes
  assumes "length a = 148" and "length c = 8"
  shows "sum_list (map (\<lambda>(i, b). if 148 \<le> i \<and> i < 156 then 0x20 else unat b) (enumerate 0 (a @ c @ b))) =
    sum_list (map unat a) + 8 * 0x20 + sum_list (map unat b)"
proof -
  let ?g = "\<lambda>(i :: nat, b :: u8). if 148 \<le> i \<and> i < 156 then 0x20 else unat b"
  have "map ?g (enumerate 0 a) = map unat a"
    using assms by (intro nth_equalityI) (auto simp: nth_enumerate_eq)
  moreover have "map ?g (enumerate 148 c) = replicate 8 0x20"
    using assms by (intro nth_equalityI) (auto simp: nth_enumerate_eq)
  moreover have "map ?g (enumerate 156 b) = map unat b"
    by (intro nth_equalityI) (auto simp: nth_enumerate_eq)
  ultimately show ?thesis
    using assms by (simp add: enumerate_append_eq sum_list_replicate)
qed

lemma tar_header_checksum:
  assumes "tar_file_ok f"
  shows "checksum_ok (tar_header f)"
proof -
  note l = length_header_front [OF assms]
  have "octal (take 8 (drop 148 (tar_header f))) = Some (header_sum f)"
    using l octal_field [of 6 "header_sum f" "[0x20]"] header_sum_bound [OF assms]
    by (simp add: tar_header_def)
  moreover have "sum_list (map (\<lambda>(i, b). if 148 \<le> i \<and> i < 156 then 0x20 else unat b)
      (enumerate 0 (tar_header f))) = header_sum f"
    unfolding tar_header_def header_sum_def by (rule checksum_split [OF l]) simp
  ultimately show ?thesis by (simp add: checksum_ok_def)
qed

lemma graphic_not_nul: "is_ascii_graphic c \<Longrightarrow> byte_of_char c \<noteq> 0"
  by (metis char_of_byte_of_char byte_of_char_def char_of_byte_def is_ascii_graphic_def not_numeral_le_zero
      of_char_of of_nat_0 unat_0 unsigned_0 mod_0)

lemma position_append_first:
  "\<forall>x \<in> set xs. \<not> p x \<Longrightarrow> p y \<Longrightarrow> position p (xs @ y # ys) = Some (length xs)"
  by (induction xs) auto

lemma tar_header_name:
  assumes "tar_file_ok f"
  shows "header_name (tar_header f) = Some (file_name f)"
proof -
  note ok = assms [unfolded tar_file_ok_def INITRD_MAX_NAME_def]
  let ?n = "length (file_name f)"
  have pad: "replicate (100 - ?n) (0 :: u8) = 0 # replicate (99 - ?n) 0"
  proof -
    have "100 - ?n = Suc (99 - ?n)" using ok by linarith
    then show ?thesis by (simp only: replicate_Suc)
  qed
  have "take 100 (tar_header f) = as_bytes (file_name f) @ replicate (100 - ?n) 0"
    using ok by (simp add: tar_header_def header_front_def)
  then have "take 100 (tar_header f) = as_bytes (file_name f) @ 0 # replicate (99 - ?n) 0"
    by (simp only: pad)
  moreover have "position (\<lambda>b. b = 0) (as_bytes (file_name f) @ 0 # replicate (99 - ?n) 0) = Some ?n"
    using ok position_append_first [of "as_bytes (file_name f)" "\<lambda>b. b = 0" 0 "replicate (99 - ?n) 0"]
    by (auto simp: as_bytes_def list_all_iff dest: graphic_not_nul)
  moreover have "valid_str (file_name f)"
    using ok by (intro ascii_valid_str) (auto simp: list_all_iff intro: ascii_classes_less_128)
  moreover have "tar_header f ! 345 = 0"
    using length_header_front [OF assms] by (simp add: tar_header_def nth_append header_back_def as_bytes_def nth_Cons')
  ultimately show ?thesis
    using ok by (simp add: header_name_def Let_def strip_prefix_def INITRD_MAX_NAME_def numeral_2_eq_2)
qed

lemma tar_header_fields:
  assumes "tar_file_ok f"
  shows "octal (take 12 (drop 124 (tar_header f))) = Some (length (file_data f))"
    and "take 5 (drop 257 (tar_header f)) = as_bytes ''ustar''" and "tar_header f ! 156 = 0x30"
    and "\<not> list_all (\<lambda>b. b = 0) (tar_header f)"
proof -
  note ok = assms [unfolded tar_file_ok_def INITRD_MAX_NAME_def]
  have "take 12 (drop 124 (tar_header f)) = oct_digits 11 (length (file_data f)) @ [0]"
    using ok by (simp add: tar_header_def header_front_def)
  then show "octal (take 12 (drop 124 (tar_header f))) = Some (length (file_data f))"
    using ok octal_field [of 11 "length (file_data f)" "[]"] by simp
  show "take 5 (drop 257 (tar_header f)) = as_bytes ''ustar''"
    using length_header_front [OF assms] by (simp add: tar_header_def header_back_def)
  show nz: "tar_header f ! 156 = 0x30"
    using length_header_front [OF assms] by (simp add: tar_header_def header_back_def nth_append)
  show "\<not> list_all (\<lambda>b. b = 0) (tar_header f)"
    using nz assms by (auto simp: list_all_length intro!: exI [of _ 156])
qed

lemma length_tar_entry: "tar_file_ok f \<Longrightarrow> length (tar_entry f) = next_header BLOCK (length (file_data f))"
proof -
  assume ok: "tar_file_ok f"
  have "length (file_data f) \<le> (length (file_data f) + BLOCK - 1) div BLOCK * BLOCK"
    using div_mult_mod_eq [of "length (file_data f) + BLOCK - 1" BLOCK]
      mod_less_divisor [of BLOCK "length (file_data f) + BLOCK - 1"] by (simp add: BLOCK_def)
  with ok show ?thesis by (simp add: tar_entry_def next_header_def BLOCK_def)
qed

lemma tar_step_entry:
  assumes "tar_file_ok f" and "length (pre @ tar_entry f @ post) < 2 ^ 64"
  shows "tar_step (pre @ tar_entry f @ post) (length pre) = TarFile (length pre + length (tar_entry f)) f"
proof -
  let ?a = "pre @ tar_entry f @ post" and ?n = "length (file_data f)"
  have h: "slice_get ?a (length pre) (length pre + BLOCK) = Some (tar_header f)"
    using assms(1) by (simp add: tar_entry_def BLOCK_def)
  have d: "take ?n (drop (length pre + BLOCK) ?a) = file_data f"
    using assms(1) by (simp add: tar_entry_def BLOCK_def)
  have "length pre + BLOCK + ?n \<le> length ?a"
    using assms(1) by (simp add: tar_entry_def BLOCK_def)
  with assms(2) have "\<not> (length pre + BLOCK + ?n \<ge> 2 ^ 64 \<or> length pre + BLOCK + ?n > length ?a)" by linarith
  moreover have "next_header (length pre + BLOCK) ?n = length pre + length (tar_entry f)"
    using assms(1) by (simp add: length_tar_entry next_header_def)
  ultimately show ?thesis
    unfolding tar_step_def h Let_def
    using tar_header_fields [OF assms(1)] tar_header_checksum [OF assms(1)] tar_header_name [OF assms(1)] d
    by simp
qed

lemma tar_step_end: "tar_step (pre @ replicate (2 * BLOCK) 0) (length pre) = TarEnd"
  by (simp add: tar_step_def BLOCK_def list_all_iff)

lemma files_collect_entries:
  assumes "\<forall>f \<in> set fs. tar_file_ok f" and "length (pre @ tar_archive fs) < 2 ^ 64"
  shows "files_collect \<lparr>fi_archive = pre @ tar_archive fs, fi_offset = length pre, fi_done = False\<rparr> = map Ok fs"
  using assms
proof (induction fs arbitrary: pre)
  case Nil
  then show ?case
    by (simp add: files_collect.simps files_next.simps tar_archive_def tar_step_end)
next
  case (Cons f fs)
  have split: "pre @ tar_archive (f # fs) = pre @ tar_entry f @ tar_archive fs"
    "pre @ tar_archive (f # fs) = (pre @ tar_entry f) @ tar_archive fs" by (simp_all add: tar_archive_def)
  have "tar_step (pre @ tar_archive (f # fs)) (length pre) = TarFile (length (pre @ tar_entry f)) f"
    using tar_step_entry [of f pre "tar_archive fs"] Cons.prems by (simp add: split(1))
  moreover have "files_collect \<lparr>fi_archive = pre @ tar_archive (f # fs), fi_offset = length (pre @ tar_entry f),
      fi_done = False\<rparr> = map Ok fs"
    unfolding split(2) using Cons by (intro Cons.IH) (simp_all add: split)
  ultimately show ?case
    by (simp add: files_collect.simps [of "\<lparr>fi_archive = _, fi_offset = length pre, fi_done = _\<rparr>"]
        files_next.simps [of "\<lparr>fi_archive = _, fi_offset = length pre, fi_done = _\<rparr>"])
qed

section \<open>Properties\<close>

text \<open>
  C21: The files of a \<open>ustar\<close> archive come out exactly as they were packed, names and
  contents, in order, and looking a name up gives the first file packed under it; once the
  ramdisk is locked nothing is found in it.
\<close>

theorem ramdisk_round_trip:
  assumes "\<forall>f \<in> set fs. tar_file_ok f" and "length (tar_archive fs) < 2 ^ 64"
    and "rd_archive r = Some (tar_archive fs)" and "\<not> rd_locked r"
  shows "files r = map Ok fs \<and> find_file r n = List.find (\<lambda>f. file_name f = n) fs \<and>
    find_file (initrd_lock r) n = None"
proof -
  have "files r = map Ok fs"
    using files_collect_entries [of fs "[]"] assms by (simp add: files_def archive_def parse_def)
  moreover have "files (initrd_lock r) = []"
    by (simp add: files_def archive_def initrd_lock_def parse_def files_collect.simps files_next.simps
        tar_step_def slice_get_def BLOCK_def)
  ultimately show ?thesis by (simp add: find_file_def map_filter_def comp_def)
qed

definition key_file :: tar_file where
  "key_file = \<lparr>file_name = ''gateway.pub'', file_data = [1, 2, 3]\<rparr>"

lemma key_file_ok: "tar_file_ok key_file" "length (tar_archive [key_file]) < 2 ^ 64"
proof -
  show ok: "tar_file_ok key_file"
    by (simp add: tar_file_ok_def key_file_def INITRD_MAX_NAME_def is_ascii_graphic_def)
  have "length (tar_entry key_file) = 1024"
    unfolding length_tar_entry [OF ok] by (simp add: next_header_def BLOCK_def key_file_def)
  then show "length (tar_archive [key_file]) < 2 ^ 64"
    by (simp add: tar_archive_def BLOCK_def)
qed

theorem ramdisk_round_trip_witness:
  "find_file \<lparr>rd_archive = Some (tar_archive [key_file]), rd_locked = False\<rparr> ''gateway.pub'' = Some key_file"
  using ramdisk_round_trip [of "[key_file]" "\<lparr>rd_archive = Some (tar_archive [key_file]), rd_locked = False\<rparr>"
      "''gateway.pub''"] key_file_ok
  by (simp add: key_file_def)


end
