(* ===== verification/KernelLink.thy ===== *)
theory KernelLink
  imports Issuer Initrd
begin

text \<open>
  The kernel's end of the gateway link, \<open>src/link.rs\<close>: sending frames, sealed or plain data
  and fragmented handshake messages, the receive path that opens sealed frames, and the
  client handshake against the gateway identity pinned in the ramdisk. The virtio drivers
  are an argument: whether they are ready and what they answer to a write. Received bytes
  are the pieces the driver hands out per poll. Shown: a kernel accepts no gateway but the
  pinned one, and data sent by one end through \<open>send_data\<close> arrives as it was sent, in any
  chunking of the byte stream.
\<close>

section \<open>State and transport\<close>

record established =
  es_session :: session
  es_gateway :: identity

text \<open>\<open>lk_writes\<close> are the byte strings handed to the driver so far.\<close>

record link =
  lk_decoder :: decoder
  lk_session :: "established option"
  lk_epoch :: u32
  lk_writes :: "bytes list"

definition link_new :: link where
  "link_new = \<lparr>lk_decoder = decoder_new, lk_session = None, lk_epoch = 0, lk_writes = []\<rparr>"

text \<open>The drivers: readiness and the answer to the next write, given the writes before.\<close>

record drivers =
  dr_console_ready :: bool
  dr_vsock_ready :: bool
  dr_console_write :: "bytes list \<Rightarrow> bytes \<Rightarrow> (unit, str) result"
  dr_vsock_write :: "bytes list \<Rightarrow> bytes \<Rightarrow> (unit, str) result"

definition transport :: "drivers \<Rightarrow> str option" where
  "transport D =
     (if dr_console_ready D then Some ''virtio-console''
      else if dr_vsock_ready D then Some ''virtio-vsock''
      else None)"

definition transport_write :: "drivers \<Rightarrow> bytes \<Rightarrow> link \<Rightarrow> (unit, str) result \<times> link" where
  "transport_write D bs l =
     (if dr_console_ready D then dr_console_write D (lk_writes l) bs else dr_vsock_write D (lk_writes l) bs,
      l\<lparr>lk_writes := lk_writes l @ [bs]\<rparr>)"

definition session_epoch :: "link \<Rightarrow> u32" where
  "session_epoch l = lk_epoch l"

section \<open>Sending\<close>

definition send_flags :: "drivers \<Rightarrow> u8 \<Rightarrow> u8 \<Rightarrow> bytes \<Rightarrow> link \<Rightarrow> (unit, str) result \<times> link" where
  "send_flags D kind flags payload l =
     (case encode_with_flags kind flags payload (replicate MAX_FRAME 0) of
        (Err e, b) \<Rightarrow> (Err ''frame too large'', l)
      | (Ok n, b) \<Rightarrow> transport_write D (take n b) l)"

definition send :: "drivers \<Rightarrow> u8 \<Rightarrow> bytes \<Rightarrow> link \<Rightarrow> (unit, str) result \<times> link" where
  "send D kind payload l = send_flags D kind 0 payload l"

definition link_is_secure :: "link \<Rightarrow> bool" where
  "link_is_secure l \<longleftrightarrow> lk_session l \<noteq> None"

definition gateway_id :: "prims \<Rightarrow> link \<Rightarrow> bytes option" where
  "gateway_id P l = map_option (\<lambda>e. identity_id P (es_gateway e)) (lk_session l)"

definition PINNED_GATEWAY_FILE :: str where "PINNED_GATEWAY_FILE = ''gateway.pub''"

definition pinned_gateway :: "ramdisk \<Rightarrow> identity option" where
  "pinned_gateway r = do { f \<leftarrow> find_file r PINNED_GATEWAY_FILE; identity_from_bytes (file_data f) }"

text \<open>\<open>send_data\<close>: sealed under the session if there is one; answers whether it was sealed.\<close>

definition send_data :: "prims \<Rightarrow> drivers \<Rightarrow> bytes \<Rightarrow> link \<Rightarrow> (bool, str) result \<times> link" where
  "send_data P D bs l =
     (case lk_session l of
        Some est \<Rightarrow>
          (case seal P (es_session est) bs (replicate MAX_PAYLOAD 0) of
             (Err e, out, s) \<Rightarrow> (Err ''message too large to seal'', l\<lparr>lk_session := Some (est\<lparr>es_session := s\<rparr>)\<rparr>)
           | (Ok n, out, s) \<Rightarrow>
               (case send D SEALED (take n out) (l\<lparr>lk_session := Some (est\<lparr>es_session := s\<rparr>)\<rparr>) of
                  (Ok _, l') \<Rightarrow> (Ok True, l')
                | (Err e, l') \<Rightarrow> (Err e, l')))
      | None \<Rightarrow>
          (case send D DATA bs l of
             (Ok _, l') \<Rightarrow> (Ok False, l')
           | (Err e, l') \<Rightarrow> (Err e, l')))"

text \<open>\<open>send_message\<close>: fragments of a handshake message, stopping at the first failure.\<close>

fun send_fragments :: "drivers \<Rightarrow> (u8 \<times> bytes) list \<Rightarrow> link \<Rightarrow> (unit, str) result \<times> link" where
  "send_fragments D [] l = (Ok (), l)"
| "send_fragments D ((flags, chunk) # frs) l =
     (case send_flags D HANDSHAKE flags chunk l of
        (Ok _, l') \<Rightarrow> send_fragments D frs l'
      | (Err e, l') \<Rightarrow> (Err e, l'))"

definition send_message :: "drivers \<Rightarrow> bytes \<Rightarrow> link \<Rightarrow> (unit, str) result \<times> link" where
  "send_message D msg l = send_fragments D (fragments msg) l"

section \<open>Receiving\<close>

datatype incoming = Plain u8 bytes | Sealed bytes | Rejected seal_error

text \<open>\<open>poll\<close>: the frames of one poll of the device; \<open>None\<close> would be a loop that never ends.\<close>

definition link_poll :: "bytes list \<Rightarrow> link \<Rightarrow> (frame list \<times> link) option" where
  "link_poll pieces l =
     map_option (\<lambda>(fs, d). (fs, l\<lparr>lk_decoder := d\<rparr>)) (poll_all (lk_decoder l) pieces)"

text \<open>The handler of \<open>recv\<close> on one frame, and on the frames of a poll.\<close>

definition open_frame :: "prims \<Rightarrow> frame \<Rightarrow> link \<Rightarrow> incoming \<times> link" where
  "open_frame P f l =
     (if f_kind f \<noteq> SEALED then (Plain (f_kind f) (f_payload f), l)
      else case lk_session l of
             None \<Rightarrow> (Rejected SealAuth, l)
           | Some est \<Rightarrow>
               (case unseal P (es_session est) (f_payload f) (replicate MAX_PAYLOAD 0) of
                  (Ok n, plain, s) \<Rightarrow> (Sealed (take n plain), l\<lparr>lk_session := Some (est\<lparr>es_session := s\<rparr>)\<rparr>)
                | (Err e, plain, s) \<Rightarrow> (Rejected e, l\<lparr>lk_session := Some (est\<lparr>es_session := s\<rparr>)\<rparr>)))"

fun open_frames :: "prims \<Rightarrow> frame list \<Rightarrow> link \<Rightarrow> incoming list \<times> link" where
  "open_frames P [] l = ([], l)"
| "open_frames P (f # fs) l =
     (case open_frame P f l of (m, l') \<Rightarrow> (case open_frames P fs l' of (ms, l'') \<Rightarrow> (m # ms, l'')))"

definition recv :: "prims \<Rightarrow> bytes list \<Rightarrow> link \<Rightarrow> (incoming list \<times> link) option" where
  "recv P pieces l = map_option (\<lambda>(fs, l'). open_frames P fs l') (link_poll pieces l)"

section \<open>The handshake\<close>

datatype secure_error = NoLink | NoPinnedGateway | Timeout | GatewayRejected | Protocol

primrec secure_error_code :: "secure_error \<Rightarrow> u64" where
  "secure_error_code NoLink = 1"
| "secure_error_code NoPinnedGateway = 2"
| "secure_error_code Timeout = 3"
| "secure_error_code GatewayRejected = 4"
| "secure_error_code Protocol = 5"

definition verify_hybrid :: "prims \<Rightarrow> identity \<Rightarrow> bytes \<Rightarrow> signature \<Rightarrow> bool" where
  "verify_hybrid P i d sg =
     public_verify P \<lparr>ip_id = identity_id P i, ip_ed25519 = id_ed i, ip_mldsa65 = id_ml i\<rparr> DomLink d sg"

text \<open>The callback of \<open>wait_handshake\<close>: the first complete message; later frames are dropped.\<close>

definition handshake_frame :: "bytes option \<times> bytes \<Rightarrow> frame \<Rightarrow> bytes option \<times> bytes" where
  "handshake_frame = (\<lambda>(fin, re) f.
     if f_kind f = HANDSHAKE \<and> fin = None then
       (case reassembler_push re (f_flags f, f_payload f) of
          (Ok (Some m), re') \<Rightarrow> (Some m, re')
        | (_, re') \<Rightarrow> (None, re'))
     else (fin, re))"

text \<open>The loop: one element of \<open>polls\<close> per poll of the device before the deadline.\<close>

fun wait_handshake :: "bytes \<Rightarrow> bytes list list \<Rightarrow> link \<Rightarrow> (bytes option \<times> link) option" where
  "wait_handshake re [] l = Some (None, l)"
| "wait_handshake re (pieces # polls) l =
     do { (fs, l') \<leftarrow> link_poll pieces l;
          case foldl handshake_frame (None, re) fs of
            (Some m, re') \<Rightarrow> Some (Some m, l')
          | (None, re') \<Rightarrow> wait_handshake re' polls l' }"

definition link_identity :: "issuer \<Rightarrow> identity" where
  "link_identity I = \<lparr>id_ed = ip_ed25519 (is_public I), id_ml = ip_mldsa65 (is_public I)\<rparr>"

text \<open>The second half of \<open>secure_connect_inner\<close>: check the server hello, answer, keep the session.\<close>

definition connect_finish ::
    "prims \<Rightarrow> issuer \<Rightarrow> drivers \<Rightarrow> identity \<Rightarrow> client_state \<Rightarrow> bytes \<Rightarrow> link \<Rightarrow>
     (bytes, secure_error) result \<times> link" where
  "connect_finish P I D pinned state sh l =
     (case client_finish P state sh (\<lambda>i d sg. i = pinned \<and> verify_hybrid P i d sg)
             (link_identity I) (issuer_sign P I DomLink) of
        Err e \<Rightarrow> (if e = ServerAuth then Err GatewayRejected else Err Protocol, l)
      | Ok (s, cf, gateway) \<Rightarrow>
          (case send_message D cf l of
             (Err e, l') \<Rightarrow> (Err NoLink, l')
           | (Ok _, l') \<Rightarrow> (Ok (identity_id P gateway),
               l'\<lparr>lk_session := Some \<lparr>es_session = s, es_gateway = gateway\<rparr>, lk_epoch := lk_epoch l' + 1\<rparr>)))"

definition secure_connect_inner ::
    "prims \<Rightarrow> issuer \<Rightarrow> drivers \<Rightarrow> ramdisk \<Rightarrow> client_random \<Rightarrow> bytes list list \<Rightarrow> link \<Rightarrow>
     ((bytes, secure_error) result \<times> link) option" where
  "secure_connect_inner P I D r rnd polls l =
     (if transport D = None then Some (Err NoLink, l)
      else case pinned_gateway r of
        None \<Rightarrow> Some (Err NoPinnedGateway, l)
      | Some pinned \<Rightarrow>
          let (state, ch) = client_hello P rnd in
          (case send_message D ch (l\<lparr>lk_session := None\<rparr>) of
             (Err e, l1) \<Rightarrow> Some (Err NoLink, l1)
           | (Ok _, l1) \<Rightarrow>
               do { (sh, l2) \<leftarrow> wait_handshake [] polls l1;
                    case sh of
                      None \<Rightarrow> Some (Err Timeout, l2)
                    | Some sh \<Rightarrow> Some (connect_finish P I D pinned state sh l2) }))"

section \<open>What the operations keep\<close>

lemma transport_write_keeps:
  "transport_write D bs l = (r, l') \<Longrightarrow> lk_session l' = lk_session l \<and> lk_epoch l' = lk_epoch l"
  by (auto simp: transport_write_def)

lemma send_flags_keeps:
  "send_flags D k fl p l = (r, l') \<Longrightarrow> lk_session l' = lk_session l \<and> lk_epoch l' = lk_epoch l"
  by (auto simp: send_flags_def dest: transport_write_keeps split: prod.splits result.splits)

lemma send_message_keeps:
  "send_message D msg l = (r, l') \<Longrightarrow> lk_session l' = lk_session l \<and> lk_epoch l' = lk_epoch l"
proof -
  have "send_fragments D frs l = (r, l') \<Longrightarrow> lk_session l' = lk_session l \<and> lk_epoch l' = lk_epoch l" for frs
  proof (induction D frs l rule: send_fragments.induct)
    case (2 D flags chunk frs l)
    obtain q m where s: "send_flags D HANDSHAKE flags chunk l = (q, m)" by fastforce
    show ?case
    proof (cases q)
      case (Ok u)
      with 2(1) [OF s [symmetric] Ok] 2(2) s send_flags_keeps [OF s] show ?thesis by simp
    qed (use 2(2) s send_flags_keeps [OF s] in auto)
  qed simp
  then show "send_message D msg l = (r, l') \<Longrightarrow> ?thesis" by (simp add: send_message_def)
qed

lemma link_poll_keeps:
  "link_poll pieces l = Some (fs, l') \<Longrightarrow> lk_session l' = lk_session l \<and> lk_epoch l' = lk_epoch l"
  by (auto simp: link_poll_def)

lemma wait_handshake_keeps:
  "wait_handshake re polls l = Some (m, l') \<Longrightarrow> lk_session l' = lk_session l \<and> lk_epoch l' = lk_epoch l"
proof (induction polls arbitrary: re l)
  case (Cons pieces polls)
  from Cons.prems obtain fs k where k: "link_poll pieces l = Some (fs, k)"
    and "(case foldl handshake_frame (None, re) fs of (Some m, re') \<Rightarrow> Some (Some m, k)
      | (None, re') \<Rightarrow> wait_handshake re' polls k) = Some (m, l')"
    by (auto simp: bind_eq_Some_conv)
  then show ?case
    using link_poll_keeps [OF k] Cons.IH by (auto split: prod.splits option.splits)
qed simp

section \<open>Sealed data through frames\<close>

lemma send_flags_Ok:
  assumes "send_flags D k fl p l = (Ok u, l')"
  shows "length p \<le> MAX_PAYLOAD" and "l' = l\<lparr>lk_writes := lk_writes l @ [frame_bytes k fl p]\<rparr>"
proof -
  obtain n b where e: "encode_with_flags k fl p (replicate MAX_FRAME 0) = (Ok n, b)"
    and w: "transport_write D (take n b) l = (Ok u, l')"
    using assms by (auto simp: send_flags_def split: prod.splits result.splits)
  from encode_with_flags_Ok [OF e] w
  show "length p \<le> MAX_PAYLOAD" and "l' = l\<lparr>lk_writes := lk_writes l @ [frame_bytes k fl p]\<rparr>"
    by (auto simp: transport_write_def)
qed

text \<open>Sending messages one after the other, all of them accepted and sealed.\<close>

fun send_all :: "prims \<Rightarrow> drivers \<Rightarrow> bytes list \<Rightarrow> link \<Rightarrow> link option" where
  "send_all P D [] l = Some l"
| "send_all P D (m # ms) l =
     (case send_data P D m l of (Ok True, l') \<Rightarrow> send_all P D ms l' | _ \<Rightarrow> None)"

definition sealed_frame :: "bytes \<Rightarrow> frame" where
  "sealed_frame c = \<lparr>f_kind = SEALED, f_flags = 0, f_payload = c\<rparr>"

lemma send_data_sealed:
  assumes "send_data P D m l = (Ok True, l')"
  obtains est n out s where "lk_session l = Some est"
    "seal P (es_session est) m (replicate MAX_PAYLOAD 0) = (Ok n, out, s)"
    "lk_session l' = Some (est\<lparr>es_session := s\<rparr>)" "lk_writes l' = lk_writes l @ [frame_bytes SEALED 0 (take n out)]"
    "length (take n out) \<le> MAX_PAYLOAD"
proof -
  from assms obtain est n out s where e: "lk_session l = Some est"
    and s: "seal P (es_session est) m (replicate MAX_PAYLOAD 0) = (Ok n, out, s)"
    and w: "send D SEALED (take n out) (l\<lparr>lk_session := Some (est\<lparr>es_session := s\<rparr>)\<rparr>) = (Ok (), l')"
    by (auto simp: send_data_def split: option.splits prod.splits result.splits)
  from send_flags_Ok [OF w [unfolded send_def]] that [OF e s] show ?thesis by simp
qed

lemma open_sealed_frame:
  assumes "aead_correct P" and "seal P s m (replicate MAX_PAYLOAD 0) = (Ok n, out, s')"
    and "lk_session b = Some e" and "rx (es_session e) = tx s" and "rx_seq (es_session e) = tx_seq s"
  shows "open_frame P (sealed_frame (take n out)) b =
    (Sealed m, b\<lparr>lk_session := Some (e\<lparr>es_session := es_session e\<lparr>rx_seq := tx_seq s + 1\<rparr>\<rparr>)\<rparr>)"
proof -
  have "length m \<le> MAX_PAYLOAD"
    using assms(2) by (cases rule: seal_cases) (auto simp: MAX_PLAINTEXT_def)
  from unseal_sealed [OF assms(1,2,4,5), of "replicate MAX_PAYLOAD 0"] this assms(3,5) show ?thesis
    by (simp add: open_frame_def sealed_frame_def)
qed

lemma send_all_open_frames:
  assumes "aead_correct P"
  shows "send_all P D ms a = Some a' \<Longrightarrow> lk_session a = Some ea \<Longrightarrow> lk_session b = Some eb \<Longrightarrow>
    rx (es_session eb) = tx (es_session ea) \<Longrightarrow> rx_seq (es_session eb) = tx_seq (es_session ea) \<Longrightarrow>
    \<exists>cs b'. lk_writes a' = lk_writes a @ map (\<lambda>c. frame_bytes SEALED 0 c) cs \<and>
      (\<forall>c \<in> set cs. length c \<le> MAX_PAYLOAD) \<and> open_frames P (map sealed_frame cs) b = (map Sealed ms, b')"
proof (induction ms arbitrary: a ea b eb)
  case (Cons m ms)
  from Cons.prems(1) obtain a1 where d: "send_data P D m a = (Ok True, a1)" and r: "send_all P D ms a1 = Some a'"
    by (auto split: prod.splits result.splits bool.splits)
  from d Cons.prems(2) obtain n out s where s: "seal P (es_session ea) m (replicate MAX_PAYLOAD 0) = (Ok n, out, s)"
    and a1: "lk_session a1 = Some (ea\<lparr>es_session := s\<rparr>)"
      "lk_writes a1 = lk_writes a @ [frame_bytes SEALED 0 (take n out)]" "length (take n out) \<le> MAX_PAYLOAD"
    by (auto elim!: send_data_sealed)
  have st: "tx s = tx (es_session ea)" "tx_seq s = tx_seq (es_session ea) + 1"
    using s by (cases rule: seal_cases; simp)+
  let ?b = "b\<lparr>lk_session := Some (eb\<lparr>es_session := es_session eb\<lparr>rx_seq := tx_seq (es_session ea) + 1\<rparr>\<rparr>)\<rparr>"
  note o = open_sealed_frame [OF assms s Cons.prems(3,4,5)]
  obtain cs b' where ih: "lk_writes a' = lk_writes a1 @ map (\<lambda>c. frame_bytes SEALED 0 c) cs"
    "\<forall>c \<in> set cs. length c \<le> MAX_PAYLOAD" "open_frames P (map sealed_frame cs) ?b = (map Sealed ms, b')"
    using Cons.IH [OF r a1(1), of ?b "eb\<lparr>es_session := es_session eb\<lparr>rx_seq := tx_seq (es_session ea) + 1\<rparr>\<rparr>"]
      Cons.prems(4) st by auto
  show ?case
    using ih o a1 by (intro exI [of _ "take n out # cs"] exI [of _ b']) auto
qed auto

lemma connect_finish_result:
  assumes "connect_finish P I D g cs sh l = (res, l')" and "lk_session l = None"
  shows "case res of
      Ok gid \<Rightarrow> \<exists>s sg. gid = identity_id P g \<and> lk_session l' = Some \<lparr>es_session = s, es_gateway = g\<rparr> \<and>
        lk_epoch l' = lk_epoch l + 1 \<and>
        verify_hybrid P g (digest P (as_bytes ''server'') [cs_ch cs, take SH_UNSIGNED sh]) sg
    | Err e \<Rightarrow> lk_epoch l' = lk_epoch l \<and> lk_session l' = None"
proof (cases "client_finish P cs sh (\<lambda>i d sg. i = g \<and> verify_hybrid P i d sg) (link_identity I)
    (issuer_sign P I DomLink)")
  case (Ok v)
  obtain s cf i where v: "v = (s, cf, i)" by (cases v)
  with client_finish_OkD(2) Ok obtain sg where i: "i = g"
    "verify_hybrid P g (digest P (as_bytes ''server'') [cs_ch cs, take SH_UNSIGNED sh]) sg" by blast
  obtain q k where k: "send_message D cf l = (q, k)" by fastforce
  with send_message_keeps [OF k] i v Ok assms show ?thesis
    by (cases q) (auto simp: connect_finish_def)
qed (use assms in \<open>auto simp: connect_finish_def\<close>)

section \<open>A handshake that completes\<close>

text \<open>A transport that is there and takes every write.\<close>

definition drivers_accept :: "drivers \<Rightarrow> bool" where
  "drivers_accept D \<longleftrightarrow> transport D \<noteq> None \<and>
     (\<forall>ws b. dr_console_write D ws b = Ok () \<and> dr_vsock_write D ws b = Ok ())"

definition handshake_writes :: "bytes \<Rightarrow> bytes list" where
  "handshake_writes m = map (\<lambda>(fl, c). frame_bytes HANDSHAKE fl c) (fragments m)"

definition fragment_frame :: "u8 \<times> bytes \<Rightarrow> frame" where
  "fragment_frame = (\<lambda>(fl, c). \<lparr>f_kind = HANDSHAKE, f_flags = fl, f_payload = c\<rparr>)"

lemma fragments_fit: "(fl, c) \<in> set (fragments m) \<Longrightarrow> length c \<le> MAX_PAYLOAD"
  by (auto simp: fragments_def Let_def in_set_enumerate_eq chunks_length_le [OF nth_mem] split: if_splits)

lemma send_fragments_accept:
  "drivers_accept D \<Longrightarrow> \<forall>(fl, c) \<in> set frs. length c \<le> MAX_PAYLOAD \<Longrightarrow>
     send_fragments D frs l =
       (Ok (), l\<lparr>lk_writes := lk_writes l @ map (\<lambda>(fl, c). frame_bytes HANDSHAKE fl c) frs\<rparr>)"
proof (induction frs arbitrary: l)
  case (Cons fr frs)
  obtain fl c where fr: "fr = (fl, c)" by fastforce
  have "send_flags D HANDSHAKE fl c l = (Ok (), l\<lparr>lk_writes := lk_writes l @ [frame_bytes HANDSHAKE fl c]\<rparr>)"
    using Cons.prems
    by (simp add: fr send_flags_def encode_with_flags_def transport_write_def drivers_accept_def frame_consts Let_def)
  with Cons fr show ?case by simp
qed simp

lemma send_message_accept:
  "drivers_accept D \<Longrightarrow> send_message D m l = (Ok (), l\<lparr>lk_writes := lk_writes l @ handshake_writes m\<rparr>)"
  using send_fragments_accept [of D "fragments m" l] fragments_fit
  by (fastforce simp: send_message_def handshake_writes_def)

lemma handshake_frames_more:
  assumes "\<forall>fr \<in> set frs. fst fr = FLAG_MORE" and "length re + length (concat (map snd frs)) \<le> REASSEMBLER_MAX"
  shows "foldl handshake_frame (None, re) (map fragment_frame frs) = (None, re @ concat (map snd frs))"
  using assms
proof (induction frs arbitrary: re)
  case (Cons fr frs)
  have "handshake_frame (None, re) (fragment_frame fr) = (None, re @ snd fr)"
    using Cons.prems
    by (cases fr) (simp add: handshake_frame_def fragment_frame_def reassembler_push_def FLAG_MORE_def)
  with Cons show ?case by simp
qed simp

lemma handshake_frames_whole:
  assumes "length m \<le> REASSEMBLER_MAX"
  shows "foldl handshake_frame (None, []) (map fragment_frame (fragments m)) = (Some m, [])"
proof -
  obtain frs c where f: "fragments m = frs @ [(0, c)]" "\<forall>fr \<in> set frs. fst fr = FLAG_MORE"
    "concat (map snd frs) @ c = m"
    using fragments_shape by blast
  have "length (concat (map snd frs)) \<le> length m" using f(3) by (metis le_add1 length_append)
  with handshake_frames_more [OF f(2), of "[]"] assms
  have "foldl handshake_frame (None, []) (map fragment_frame (fragments m)) =
      handshake_frame (None, concat (map snd frs)) (fragment_frame (0, c))" by (simp add: f(1))
  also have "\<dots> = (Some m, [])"
    using f(3) assms by (auto simp: handshake_frame_def fragment_frame_def reassembler_push_def simp flip: length_append)
  finally show ?thesis .
qed

lemma wait_handshake_receives:
  assumes "length m \<le> REASSEMBLER_MAX" and "lk_decoder l = decoder_new"
    and "concat pieces = concat (handshake_writes m)"
  shows "\<exists>d. wait_handshake [] (replicate k [] @ pieces # rest) l = Some (Some m, l\<lparr>lk_decoder := d\<rparr>)"
proof -
  from poll_all_deframe [OF drained_new(1), of pieces] obtain fs d where
    p: "poll_all decoder_new pieces = Some (fs, d)" "deframe (concat pieces) = (fs, live d)"
    by (auto simp: drained_new)
  have "deframe (concat (map (\<lambda>f. frame_bytes (f_kind f) (f_flags f) (f_payload f)) (map fragment_frame (fragments m)))) =
      (map fragment_frame (fragments m), [])"
    by (rule deframe_frame_bytes) (auto simp: fragment_frame_def dest: fragments_fit)
  then have fs: "fs = map fragment_frame (fragments m)"
    using p(2) assms(3) by (simp add: handshake_writes_def fragment_frame_def comp_def case_prod_unfold)
  have "l\<lparr>lk_decoder := decoder_new\<rparr> = l" using assms(2) by simp
  then have silent: "link_poll [] l = Some ([], l)" using assms(2) by (simp add: link_poll_def)
  have "wait_handshake [] (pieces # rest) l = Some (Some m, l\<lparr>lk_decoder := d\<rparr>)"
    using p(1) assms(2) handshake_frames_whole [OF assms(1)] by (simp add: link_poll_def fs)
  then have "wait_handshake [] (replicate k [] @ pieces # rest) l = Some (Some m, l\<lparr>lk_decoder := d\<rparr>)"
    by (induction k) (simp_all add: silent)
  then show ?thesis by blast
qed

lemma secure_connect_run:
  assumes P: "dh_commutes P" "kem_correct P"
    and D: "drivers_accept D" and pin: "pinned_gateway r = Some gid"
    and nonces: "length (cr_nonce rnd) = NONCE_LEN" "length (sr_nonce rs) = NONCE_LEN"
    and ids: "identity_wf (link_identity I)" "identity_wf gid"
    and sigs: "\<And>d. signature_wf (issuer_sign P I DomLink d)" "\<And>d. signature_wf (ssign d)"
    and trusts: "\<And>d. verify_hybrid P gid d (ssign d)" "\<And>d. strust (link_identity I) d (issuer_sign P I DomLink d)"
    and sr: "server_respond P (snd (client_hello P rnd)) rs gid ssign = Ok (ss, sh)"
    and dec: "lk_decoder l = decoder_new" and input: "concat pieces = concat (handshake_writes sh)"
  shows "\<exists>l' s cf ssess. secure_connect_inner P I D r rnd (replicate k [] @ pieces # rest) l =
      Some (Ok (identity_id P gid), l') \<and> lk_session l' = Some \<lparr>es_session = s, es_gateway = gid\<rparr> \<and>
    lk_writes l' = lk_writes l @ handshake_writes (snd (client_hello P rnd)) @ handshake_writes cf \<and>
    server_finish P ss cf strust = Ok (ssess, link_identity I) \<and>
    tx s = rx ssess \<and> rx s = tx ssess \<and> tx_seq s = rx_seq ssess \<and> rx_seq s = tx_seq ssess"
proof -
  let ?t = "\<lambda>i d sg. i = gid \<and> verify_hybrid P i d sg"
  obtain cs ch ss' sh' s cf ssess where h: "client_hello P rnd = (cs, ch)"
    "server_respond P ch rs gid ssign = Ok (ss', sh')"
    "client_finish P cs sh' ?t (link_identity I) (issuer_sign P I DomLink) = Ok (s, cf, gid)"
    "server_finish P ss' cf strust = Ok (ssess, link_identity I)"
    "tx s = rx ssess \<and> rx s = tx ssess \<and> tx_seq s = rx_seq ssess \<and> rx_seq s = tx_seq ssess"
    using handshake_run [where ctrust = ?t and strust = strust and csign = "issuer_sign P I DomLink" and ssign = ssign,
        OF P nonces ids sigs] trusts by blast
  with sr have [simp]: "ss' = ss" "sh' = sh" by simp_all
  have "length sh = SH_LEN" using client_finish_OkD(1) [OF h(3)] by simp
  then have "length sh \<le> REASSEMBLER_MAX" by (simp add: SH_LEN_def SH_UNSIGNED_def secure_lens REASSEMBLER_MAX_def)
  let ?l1 = "l\<lparr>lk_session := None, lk_writes := lk_writes l @ handshake_writes ch\<rparr>"
  obtain d where w: "wait_handshake [] (replicate k [] @ pieces # rest) ?l1 = Some (Some sh, ?l1\<lparr>lk_decoder := d\<rparr>)"
    using wait_handshake_receives [OF \<open>length sh \<le> REASSEMBLER_MAX\<close> _ input, of ?l1] dec by auto
  show ?thesis
    using D pin h w
    by (auto simp: secure_connect_inner_def send_message_accept connect_finish_def drivers_accept_def
        intro!: exI [of _ cf])
qed

section \<open>Properties\<close>

text \<open>
  C23: Data the kernel (or the gateway) sends through \<open>send_data\<close> on an established session
  arrives at the other end sealed, authenticated, complete and in order, however the
  transport splits the byte stream: framing, decoding, sealing and opening compose to the
  identity on messages. Hypotheses: the sessions match as the handshake leaves them, every
  send was accepted, and the AEAD decrypts what it encrypted.
\<close>

theorem link_delivers:
  assumes "aead_correct P" and "send_all P D ms a = Some a'"
    and "lk_session a = Some ea" and "lk_session b = Some eb"
    and "rx (es_session eb) = tx (es_session ea)" and "rx_seq (es_session eb) = tx_seq (es_session ea)"
    and "lk_writes a = []" and "lk_decoder b = decoder_new" and "concat pieces = concat (lk_writes a')"
  shows "\<exists>b'. recv P pieces b = Some (map Sealed ms, b')"
proof -
  from poll_all_deframe [OF drained_new(1), of pieces] obtain fs d where
    p: "poll_all decoder_new pieces = Some (fs, d)" "deframe (concat pieces) = (fs, live d)"
    by (auto simp: drained_new)
  let ?b = "b\<lparr>lk_decoder := d\<rparr>"
  obtain cs b' where cs: "lk_writes a' = map (\<lambda>c. frame_bytes SEALED 0 c) cs"
    "\<forall>c \<in> set cs. length c \<le> MAX_PAYLOAD" "open_frames P (map sealed_frame cs) ?b = (map Sealed ms, b')"
    using send_all_open_frames [OF assms(1,2,3), of ?b eb] assms(4-7) by auto
  have "deframe (concat (map (\<lambda>f. frame_bytes (f_kind f) (f_flags f) (f_payload f)) (map sealed_frame cs))) =
      (map sealed_frame cs, [])"
    by (rule deframe_frame_bytes) (use cs(2) in \<open>auto simp: sealed_frame_def\<close>)
  then have "fs = map sealed_frame cs" using p(2) assms(9) cs(1) by (simp add: sealed_frame_def comp_def)
  with p cs(3) assms(8) show ?thesis by (simp add: recv_def link_poll_def)
qed

text \<open>A kernel and a gateway on a transport that works, for the witnesses.\<close>

definition ok_drivers :: drivers where
  "ok_drivers = \<lparr>dr_console_ready = True, dr_vsock_ready = False,
     dr_console_write = (\<lambda>_ _. Ok ()), dr_vsock_write = (\<lambda>_ _. Ok ())\<rparr>"

definition link_with :: "session \<Rightarrow> link" where
  "link_with s = link_new\<lparr>lk_session := Some \<lparr>es_session = s, es_gateway = zero_identity\<rparr>\<rparr>"

lemma plain_send_all:
  "\<exists>a'. send_all plain_prims ok_drivers [[7]] (link_with (session_new [1] [2])) = Some a' \<and>
     lk_writes a' = [frame_bytes SEALED 0 sealed_7]"
proof -
  have "seal plain_prims (session_new [1] [2]) [7] (replicate MAX_PAYLOAD 0) =
      (Ok 25, sealed_7 @ drop 25 (replicate MAX_PAYLOAD 0), session_new [1] [2]\<lparr>tx_seq := 1\<rparr>)"
    by (simp add: seal_def session_new_def plain_prims_def MAX_PLAINTEXT_eq sealed_7_def Let_def MAX_PAYLOAD_def)
  moreover have "length sealed_7 = 25" by (simp add: sealed_7_def)
  ultimately show ?thesis
    by (simp add: link_with_def link_new_def send_data_def send_def send_flags_def encode_with_flags_def
        transport_write_def ok_drivers_def frame_consts Let_def)
qed

theorem link_delivers_witness:
  "\<exists>b'. recv plain_prims [frame_bytes SEALED 0 sealed_7] (link_with (session_new [2] [1])) = Some ([Sealed [7]], b')"
proof -
  obtain a' where a: "send_all plain_prims ok_drivers [[7]] (link_with (session_new [1] [2])) = Some a'"
    "lk_writes a' = [frame_bytes SEALED 0 sealed_7]" using plain_send_all by blast
  show ?thesis
    using link_delivers [OF plain_aead_correct a(1), of _ "link_with (session_new [2] [1])" _
        "[frame_bytes SEALED 0 sealed_7]"] a(2)
    by (simp add: link_with_def link_new_def session_new_def)
qed



text \<open>A ramdisk that pins a gateway, and that gateway's answer to the kernel's hello.\<close>

definition gateway_file :: tar_file where
  "gateway_file = \<lparr>file_name = ''gateway.pub'', file_data = identity_bytes zero_identity\<rparr>"

definition gateway_disk :: ramdisk where
  "gateway_disk = \<lparr>rd_archive = Some (tar_archive [gateway_file]), rd_locked = False\<rparr>"

definition plain_issuer :: issuer where
  "plain_issuer = issuer_from_seeds plain_prims [] [] True"

lemma gateway_disk_pins: "pinned_gateway gateway_disk = Some zero_identity"
proof -
  have l: "length (identity_bytes zero_identity) = 1984"
    using identity_bytes_length [OF zero_ok(1)] by (simp add: secure_lens)
  then have ok: "tar_file_ok gateway_file"
    by (simp add: tar_file_ok_def gateway_file_def INITRD_MAX_NAME_def is_ascii_graphic_def)
  have "length (tar_entry gateway_file) = 2560"
    unfolding length_tar_entry [OF ok] by (simp add: next_header_def BLOCK_def gateway_file_def l)
  then have "length (tar_archive [gateway_file]) < 2 ^ 64" by (simp add: tar_archive_def BLOCK_def)
  then have "files gateway_disk = [Ok gateway_file]"
    using files_collect_entries [of "[gateway_file]" "[]"] ok
    by (simp add: files_def archive_def parse_def gateway_disk_def)
  then have "find_file gateway_disk PINNED_GATEWAY_FILE = Some gateway_file"
    by (simp add: find_file_def map_filter_def PINNED_GATEWAY_FILE_def gateway_file_def)
  then show ?thesis using identity.dec_enc [OF zero_ok(1)] by (simp add: pinned_gateway_def gateway_file_def)
qed

lemma plain_issuer_wf:
  "identity_wf (link_identity plain_issuer)" "signature_wf (issuer_sign plain_prims plain_issuer DomLink d)"
  "verify_hybrid plain_prims i d' sg"
  by (simp_all add: identity_wf_def signature_wf_def link_identity_def plain_issuer_def issuer_from_seeds_def
      issuer_sign_def verify_hybrid_def public_verify_def verify_ed25519_def verify_mldsa_def plain_prims_def)

lemma plain_gateway_answers:
  obtains ss sh where "server_respond plain_prims (snd (client_hello plain_prims zero_client_random))
    zero_server_random zero_identity (\<lambda>_. zero_signature) = Ok (ss, sh)"
  using handshake_run [OF plain_prims_ok zero_ok(3,4,1,1,2,2), of "\<lambda>_ _ _. True" "\<lambda>_ _ _. True"] by auto

text \<open>
  C25: Against an honest gateway whose key is pinned, over a transport that accepts writes,
  the handshake completes: however long the kernel polls in vain before the gateway's
  answer arrives and however that answer is split, the kernel keeps a session, has written
  its two handshake messages, and the gateway finishing on the second one holds the
  matching session and has authenticated the kernel.
\<close>

theorem secure_connect_completes:
  assumes "dh_commutes P" and "kem_correct P"
    and "drivers_accept D" and "pinned_gateway r = Some gid"
    and "length (cr_nonce rnd) = NONCE_LEN" and "length (sr_nonce rs) = NONCE_LEN"
    and "identity_wf (link_identity I)" and "identity_wf gid"
    and "\<And>d. signature_wf (issuer_sign P I DomLink d)" and "\<And>d. signature_wf (ssign d)"
    and "\<And>d. verify_hybrid P gid d (ssign d)" and "\<And>d. strust (link_identity I) d (issuer_sign P I DomLink d)"
    and "server_respond P (snd (client_hello P rnd)) rs gid ssign = Ok (ss, sh)"
    and "lk_decoder l = decoder_new" and "concat pieces = concat (handshake_writes sh)"
  shows "\<exists>l' s cf ssess. secure_connect_inner P I D r rnd (replicate k [] @ pieces # rest) l =
      Some (Ok (identity_id P gid), l') \<and> lk_session l' = Some \<lparr>es_session = s, es_gateway = gid\<rparr> \<and>
    lk_writes l' = lk_writes l @ handshake_writes (snd (client_hello P rnd)) @ handshake_writes cf \<and>
    server_finish P ss cf strust = Ok (ssess, link_identity I) \<and>
    tx s = rx ssess \<and> rx s = tx ssess \<and> tx_seq s = rx_seq ssess \<and> rx_seq s = tx_seq ssess"
  using assms by (rule secure_connect_run)

theorem secure_connect_completes_witness:
  "\<exists>polls l'. secure_connect_inner plain_prims plain_issuer ok_drivers gateway_disk zero_client_random polls link_new =
     Some (Ok (identity_id plain_prims zero_identity), l')"
proof -
  obtain ss sh where sr: "server_respond plain_prims (snd (client_hello plain_prims zero_client_random))
    zero_server_random zero_identity (\<lambda>_. zero_signature) = Ok (ss, sh)" by (rule plain_gateway_answers)
  have "drivers_accept ok_drivers" by (simp add: drivers_accept_def ok_drivers_def transport_def)
  from secure_connect_completes [where strust = "\<lambda>_ _ _. True" and k = 1 and rest = "[]" and l = link_new
      and pieces = "handshake_writes sh",
      OF plain_prims_ok this gateway_disk_pins zero_ok(3,4) plain_issuer_wf(1) zero_ok(1) plain_issuer_wf(2)
        zero_ok(2) plain_issuer_wf(3) _ sr]
  show ?thesis by (fastforce simp: link_new_def)
qed


end
