(* ===== verification/Approvals.thy ===== *)
theory Approvals
  imports ApprovalMsg AuditLog KernelLink
begin

text \<open>
  Signed operator approvals in the kernel, \<open>src/approvals.rs\<close>: the pinned operator keys,
  opening a request and sending it to the gateway, counting verified votes towards the
  quorum, vetoes, time-outs and closing. Every operation is whole, with the audit records it
  writes and the frames it sends. Shown: no request is ever approved without its quorum of
  distinct pinned operators having signed exactly that request, a decision stays as it is
  until the request is closed, and a request past its deadline is decided.
\<close>

section \<open>State\<close>

definition KEY_PREFIX :: str where "KEY_PREFIX = ''operator-''"
definition KEY_SUFFIX :: str where "KEY_SUFFIX = ''.pub''"
definition UNKNOWN_OPERATOR :: u64 where "UNKNOWN_OPERATOR = 1"
definition BAD_SIGNATURE :: u64 where "BAD_SIGNATURE = 2"
definition DUPLICATE :: u64 where "DUPLICATE = 3"
definition UNKNOWN_REQUEST :: u64 where "UNKNOWN_REQUEST = 4"

record operator =
  op_name :: str
  op_id :: bytes
  op_key :: identity

datatype outcome = Approved | Denied | TimedOut

record open_request =
  or_id :: u32
  or_kind :: u8
  or_quorum :: u8
  or_ttl_s :: u16
  or_deadline :: u64
  or_yes :: bytes
  or_no :: bytes
  or_approvals :: "bytes list"
  or_outcome :: "outcome option"

text \<open>The statics of the module, with the link and the audit log it writes to.\<close>

record approvals =
  av_operators :: "operator list"
  av_loaded :: bool
  av_open :: "open_request list"
  av_assembler :: assembler
  av_next_id :: u32
  av_link :: link
  av_log :: audit_log

section \<open>Operations\<close>

definition strip_suffix :: "str \<Rightarrow> str \<Rightarrow> str option" where
  "strip_suffix p s =
     (if length p \<le> length s \<and> drop (length s - length p) s = p then Some (take (length s - length p) s) else None)"

text \<open>The first eight bytes of a digest as a big-endian number.\<close>

definition be_prefix :: "bytes \<Rightarrow> u64" where
  "be_prefix d = le_dec (rev (take 8 d))"

fun load_keys :: "prims \<Rightarrow> tar_file list \<Rightarrow> operator list \<Rightarrow> operator list" where
  "load_keys P [] ops = ops"
| "load_keys P (f # fs) ops =
     (case do { n \<leftarrow> strip_prefix KEY_PREFIX (file_name f); strip_suffix KEY_SUFFIX n } of
        None \<Rightarrow> load_keys P fs ops
      | Some name \<Rightarrow>
          (case (identity_from_bytes (file_data f), bounded_str 24 name) of
             (Some key, Some name) \<Rightarrow>
               let i = identity_id P key in
               if \<exists>x \<in> set ops. op_id x = i then load_keys P fs ops
               else load_keys P fs (ops @ [\<lparr>op_name = name, op_id = i, op_key = key\<rparr>])
           | _ \<Rightarrow> load_keys P fs ops))"

definition load_operators :: "audit_env \<Rightarrow> ramdisk \<Rightarrow> approvals \<Rightarrow> approvals" where
  "load_operators E r s =
     (if av_loaded s then s
      else let P = ae_prims E;
               ops = load_keys P (List.map_filter ok (files r)) (av_operators s);
               fresh = drop (length (av_operators s)) ops;
               s = s\<lparr>av_loaded := True, av_operators := ops\<rparr> in
        if ops = [] then s
        else let d = sha256 P (concat (map op_id fresh));
                 subj = write_pieces 48 [] [''operators:'', dec (length ops)] in
          s\<lparr>av_log := record_event E PolicyApplied subj (be_prefix d) (av_log s)\<rparr>)"

definition signed_mode :: "approvals \<Rightarrow> bool" where
  "signed_mode s \<longleftrightarrow> av_operators s \<noteq> []"

definition operator_count :: "approvals \<Rightarrow> nat" where
  "operator_count s = length (av_operators s)"

definition has_open :: "approvals \<Rightarrow> bool" where
  "has_open s \<longleftrightarrow> av_open s \<noteq> []"

definition whole_text :: "str \<Rightarrow> str option" where
  "whole_text t = (if length t \<le> MAX_TEXT then Some t else None)"

text \<open>The request \<open>open\<close> builds.\<close>

definition make_request :: "audit_env \<Rightarrow> u32 \<Rightarrow> u8 \<Rightarrow> u8 \<Rightarrow> u16 \<Rightarrow> bytes \<Rightarrow> str \<Rightarrow> request" where
  "make_request E i kind quorum ttl_s payload t =
     \<lparr>rq_id = i, rq_issuer = is_id (ae_issuer E), rq_kind = kind, rq_quorum = max quorum 1, rq_ttl_s = ttl_s,
      rq_payload_digest = sha256 (ae_prims E) payload, rq_text = t\<rparr>"

lemma rq_quorum_make_request [simp]: "rq_quorum (make_request E i kind quorum ttl_s payload t) = max quorum 1"
  by (simp add: make_request_def)

definition open_req ::
    "audit_env \<Rightarrow> drivers \<Rightarrow> u64 \<Rightarrow> u8 \<Rightarrow> u8 \<Rightarrow> u16 \<Rightarrow> bytes \<Rightarrow> str \<Rightarrow> approvals \<Rightarrow> (u32, str) result \<times> approvals" where
  "open_req E D now kind quorum ttl_s payload t s =
     (if \<not> link_is_secure (av_link s) then
        (Err ''no secure link to the gateway (signed approvals travel through it)'', s)
      else if length t > MAX_TEXT then (Err ''too much to review in one signed request; split it'', s)
      else let i = av_next_id s;
               s = s\<lparr>av_next_id := i + 1\<rparr>;
               req = make_request E i kind quorum ttl_s payload t in
        case encode_request req of
          Err e \<Rightarrow> (Err ''request too large'', s)
        | Ok msg \<Rightarrow>
            (case send_data (ae_prims E) D msg (av_link s) of
               (Ok True, l) \<Rightarrow>
                 (Ok i, s\<lparr>av_link := l, av_open := av_open s @
                   [\<lparr>or_id = i, or_kind = kind, or_quorum = rq_quorum req, or_ttl_s = ttl_s,
                     or_deadline = now + ucast ttl_s * 2000000000,
                     or_yes = statement (ae_prims E) req True, or_no = statement (ae_prims E) req False,
                     or_approvals = [], or_outcome = None\<rparr>]\<rparr>)
             | (_, l) \<Rightarrow> (Err ''could not send the request to the gateway'', s\<lparr>av_link := l\<rparr>)))"

definition hex8 :: "bytes \<Rightarrow> str" where
  "hex8 i = write_pieces 8 [] [hex2 (i ! 0), hex2 (i ! 1), hex2 (i ! 2), hex2 (i ! 3)]"

text \<open>The closure \<open>rejected\<close> of \<open>on_message\<close>.\<close>

definition rejected :: "audit_env \<Rightarrow> u32 \<Rightarrow> bytes \<Rightarrow> u64 \<Rightarrow> approvals \<Rightarrow> approvals" where
  "rejected E i operator reason s =
     s\<lparr>av_log := record_event E ApprovalRejected
        (write_pieces 48 [] [''req-'', dec (unat i), '':op-'', hex8 operator]) reason (av_log s)\<rparr>"

text \<open>The vote itself: an approval is counted, a denial decides.\<close>

definition cast_vote :: "bytes \<Rightarrow> bool \<Rightarrow> open_request \<Rightarrow> open_request" where
  "cast_vote operator approve r =
     (if approve then
        let r = r\<lparr>or_approvals := or_approvals r @ [operator]\<rparr> in
        if length (or_approvals r) \<ge> unat (or_quorum r) then r\<lparr>or_outcome := Some Approved\<rparr> else r
      else r\<lparr>or_outcome := Some Denied\<rparr>)"

definition on_decision :: "audit_env \<Rightarrow> u32 \<Rightarrow> bytes \<Rightarrow> bool \<Rightarrow> bytes \<Rightarrow> approvals \<Rightarrow> approvals" where
  "on_decision E i operator approve sig s =
     (case List.find (\<lambda>x. op_id x = operator) (av_operators s) of
        None \<Rightarrow> rejected E i operator UNKNOWN_OPERATOR s
      | Some x \<Rightarrow>
          (case position (\<lambda>r. or_id r = i \<and> or_outcome r = None) (av_open s) of
             None \<Rightarrow> rejected E i operator UNKNOWN_REQUEST s
           | Some k \<Rightarrow>
               let r = av_open s ! k;
                   stmt = (if approve then or_yes r else or_no r);
                   valid = (case signature_from_slice sig of
                              None \<Rightarrow> False
                            | Some sg \<Rightarrow> verify_with (ae_prims E) (op_key x) stmt sg APPROVAL_CONTEXT) in
               if \<not> valid then rejected E i operator BAD_SIGNATURE s
               else if operator \<in> set (or_approvals r) then rejected E i operator DUPLICATE s
               else s\<lparr>av_open := (av_open s)[k := cast_vote operator approve r],
                      av_log := record_event E ApprovalSigned
                        (write_pieces 48 [] [''req-'', dec (unat i), '':'', op_name x, '':'',
                           if approve then ''yes'' else ''no''])
                        (be_prefix (sha256 (ae_prims E) sig)) (av_log s)\<rparr>))"

definition on_message :: "audit_env \<Rightarrow> bytes \<Rightarrow> approvals \<Rightarrow> approvals" where
  "on_message E p s =
     (case ApprovalMsg.decode p of
        Ok (DecisionPart i operator approve tot offset bs) \<Rightarrow>
          (case assembler_push (av_assembler s) i operator approve tot offset bs of
             (None, a) \<Rightarrow> s\<lparr>av_assembler := a\<rparr>
           | (Some (i, operator, approve, sig), a) \<Rightarrow>
               on_decision E i operator approve sig (s\<lparr>av_assembler := a\<rparr>))
      | _ \<Rightarrow> s)"

definition expired :: "u64 \<Rightarrow> open_request \<Rightarrow> bool" where
  "expired now r \<longleftrightarrow> or_outcome r = None \<and> now - or_deadline r < (- 1) div 2"

definition check_timeouts :: "audit_env \<Rightarrow> u64 \<Rightarrow> approvals \<Rightarrow> approvals" where
  "check_timeouts E now s =
     s\<lparr>av_open := map (\<lambda>r. if expired now r then r\<lparr>or_outcome := Some TimedOut\<rparr> else r) (av_open s),
       av_log := foldl (\<lambda>l r. record_event E ApprovalTimeout (write_pieces 48 [] [''req-'', dec (unat (or_id r))])
           (ucast (or_ttl_s r)) l) (av_log s) (filter (expired now) (av_open s))\<rparr>"

definition outcome_of :: "approvals \<Rightarrow> u32 \<Rightarrow> outcome option" where
  "outcome_of s i = do { r \<leftarrow> List.find (\<lambda>r. or_id r = i) (av_open s); or_outcome r }"

definition outcome_code :: "outcome option \<Rightarrow> u8" where
  "outcome_code x =
     (case x of Some Approved \<Rightarrow> OUTCOME_APPROVED | Some Denied \<Rightarrow> OUTCOME_DENIED | _ \<Rightarrow> OUTCOME_TIMEOUT)"

definition close_req :: "audit_env \<Rightarrow> drivers \<Rightarrow> u32 \<Rightarrow> approvals \<Rightarrow> approvals" where
  "close_req E D i s =
     (case position (\<lambda>r. or_id r = i) (av_open s) of
        None \<Rightarrow> s
      | Some k \<Rightarrow>
          s\<lparr>av_open := take k (av_open s) @ drop (Suc k) (av_open s),
            av_link := snd (send_data (ae_prims E) D (encode_resolved i (outcome_code (or_outcome (av_open s ! k))))
              (av_link s))\<rparr>)"

section \<open>Runs\<close>

datatype approval_op =
    OpenReq u64 u8 u8 u16 bytes str
  | OnMessage bytes
  | CheckTimeouts u64
  | CloseReq u32

primrec approval_step :: "audit_env \<Rightarrow> drivers \<Rightarrow> approvals \<Rightarrow> approval_op \<Rightarrow> approvals" where
  "approval_step E D s (OpenReq now kind quorum ttl_s payload t) = snd (open_req E D now kind quorum ttl_s payload t s)"
| "approval_step E D s (OnMessage p) = on_message E p s"
| "approval_step E D s (CheckTimeouts now) = check_timeouts E now s"
| "approval_step E D s (CloseReq i) = close_req E D i s"

text \<open>What is true of an open request, given the keys \<open>ops\<close> and the operations \<open>A\<close> that may occur.\<close>

definition vote_ok :: "prims \<Rightarrow> operator list \<Rightarrow> bytes \<Rightarrow> bytes \<Rightarrow> bool" where
  "vote_ok P ops stmt a \<longleftrightarrow>
     (\<exists>x \<in> set ops. op_id x = a \<and> (\<exists>sg. verify_with P (op_key x) stmt sg APPROVAL_CONTEXT))"

definition came_from :: "audit_env \<Rightarrow> approval_op set \<Rightarrow> open_request \<Rightarrow> bool" where
  "came_from E A r \<longleftrightarrow> (\<exists>now kind quorum ttl_s payload t. OpenReq now kind quorum ttl_s payload t \<in> A \<and>
     (let req = make_request E (or_id r) kind quorum ttl_s payload t in
      or_yes r = statement (ae_prims E) req True \<and> or_no r = statement (ae_prims E) req False \<and>
      or_quorum r = rq_quorum req))"

definition request_ok :: "audit_env \<Rightarrow> operator list \<Rightarrow> approval_op set \<Rightarrow> open_request \<Rightarrow> bool" where
  "request_ok E ops A r \<longleftrightarrow> came_from E A r \<and> distinct (or_approvals r) \<and>
     (\<forall>a \<in> set (or_approvals r). vote_ok (ae_prims E) ops (or_yes r) a) \<and>
     (case or_outcome r of
        None \<Rightarrow> length (or_approvals r) < unat (or_quorum r)
      | Some Approved \<Rightarrow> unat (or_quorum r) \<le> length (or_approvals r)
      | Some Denied \<Rightarrow> \<exists>a. vote_ok (ae_prims E) ops (or_no r) a
      | Some TimedOut \<Rightarrow> length (or_approvals r) < unat (or_quorum r))"

definition approvals_inv :: "audit_env \<Rightarrow> operator list \<Rightarrow> approval_op set \<Rightarrow> approvals \<Rightarrow> bool" where
  "approvals_inv E ops A s \<longleftrightarrow> av_operators s = ops \<and> (\<forall>r \<in> set (av_open s). request_ok E ops A r)"

lemma rejected_open [simp]:
  "av_open (rejected E i x d s) = av_open s" "av_operators (rejected E i x d s) = av_operators s"
  by (simp_all add: rejected_def)

lemma cast_vote_ok:
  assumes "request_ok E ops A r" and "or_outcome r = None" and "a \<notin> set (or_approvals r)"
    and "vote_ok (ae_prims E) ops (if approve then or_yes r else or_no r) a"
  shows "request_ok E ops A (cast_vote a approve r)"
  using assms
  by (cases approve) (auto simp: request_ok_def cast_vote_def came_from_def Let_def)

text \<open>The three ways \<open>on_decision\<close> can go, for everything it does to the requests.\<close>

lemma on_decision_cases:
  obtains (ignored) "av_open (on_decision E i a approve sig s) = av_open s"
  | (counted) k r x sg where "k < length (av_open s)" "r = av_open s ! k" "or_id r = i" "or_outcome r = None"
      "x \<in> set (av_operators s)" "op_id x = a"
      "verify_with (ae_prims E) (op_key x) (if approve then or_yes r else or_no r) sg APPROVAL_CONTEXT"
      "a \<notin> set (or_approvals r)"
      "av_open (on_decision E i a approve sig s) = (av_open s)[k := cast_vote a approve r]"
proof (cases "av_open (on_decision E i a approve sig s) = av_open s")
  case False
  then obtain x k where x: "List.find (\<lambda>x. op_id x = a) (av_operators s) = Some x"
    and k: "position (\<lambda>r. or_id r = i \<and> or_outcome r = None) (av_open s) = Some k"
    by (auto simp: on_decision_def split: option.splits)
  note x' = find_SomeD [OF x] and k' = position_SomeD [OF k]
  with False x k obtain sg where
    "verify_with (ae_prims E) (op_key x) (if approve then or_yes (av_open s ! k) else or_no (av_open s ! k)) sg
       APPROVAL_CONTEXT" "a \<notin> set (or_approvals (av_open s ! k))"
    "av_open (on_decision E i a approve sig s) = (av_open s)[k := cast_vote a approve (av_open s ! k)]"
    by (auto simp: on_decision_def Let_def split: option.splits if_splits)
  with x' k' counted show ?thesis by blast
qed (rule ignored)

lemma on_message_cases:
  obtains (ignored) "av_open (on_message E p s) = av_open s"
  | (decision) i a approve sig t where "av_open t = av_open s" "av_operators t = av_operators s"
      "on_message E p s = on_decision E i a approve sig t"
proof (cases "\<exists>i a approve tot offset bs. ApprovalMsg.decode p = Ok (DecisionPart i a approve tot offset bs)")
  case True
  then obtain i a approve tot offset bs where d: "ApprovalMsg.decode p = Ok (DecisionPart i a approve tot offset bs)"
    by blast
  obtain v asm where p: "assembler_push (av_assembler s) i a approve tot offset bs = (v, asm)" by fastforce
  show ?thesis
  proof (cases v)
    case None
    with d p have "av_open (on_message E p s) = av_open s" by (simp add: on_message_def)
    then show ?thesis by (rule ignored)
  next
    case (Some w)
    obtain i' a' approve' sig where w: "w = (i', a', approve', sig)" by (cases w)
    with d p Some have "on_message E p s = on_decision E i' a' approve' sig (s\<lparr>av_assembler := asm\<rparr>)"
      by (simp add: on_message_def)
    then show ?thesis by (rule decision [rotated 2]) simp_all
  qed
next
  case False
  then have "on_message E p s = s" by (auto simp: on_message_def split: result.splits approval_msg.splits)
  then show ?thesis by (intro ignored) simp
qed

lemma on_decision_operators [simp]: "av_operators (on_decision E i a approve sig s) = av_operators s"
  by (auto simp: on_decision_def Let_def split: option.splits)

lemma on_message_operators [simp]: "av_operators (on_message E p s) = av_operators s"
  by (auto simp: on_message_def split: result.splits approval_msg.splits prod.splits option.splits)

lemma on_message_inv:
  assumes "approvals_inv E ops A s"
  shows "approvals_inv E ops A (on_message E p s)"
proof (cases rule: on_message_cases [of E p s])
  case (decision i a approve sig t)
  show ?thesis
  proof (cases rule: on_decision_cases [of E i a approve sig t])
    case (counted k r x sg)
    then have "request_ok E ops A r" using assms decision by (auto simp: approvals_inv_def)
    moreover have "vote_ok (ae_prims E) ops (if approve then or_yes r else or_no r) a"
    proof -
      have "x \<in> set ops" using counted(5) assms decision(2) by (simp add: approvals_inv_def)
      then show ?thesis unfolding vote_ok_def using counted(6,7) by blast
    qed
    ultimately have "request_ok E ops A (cast_vote a approve r)"
      using counted by (intro cast_vote_ok)
    with counted assms decision show ?thesis
      by (auto simp: approvals_inv_def dest: set_update_subset_insert [THEN subsetD])
  qed (use assms decision in \<open>simp add: approvals_inv_def\<close>)
qed (use assms in \<open>simp add: approvals_inv_def\<close>)

lemma open_req_cases:
  obtains (failed) "av_open (snd (open_req E D now kind quorum ttl_s payload t s)) = av_open s"
  | (opened) r where "av_open (snd (open_req E D now kind quorum ttl_s payload t s)) = av_open s @ [r]"
      "or_approvals r = []" "or_outcome r = None" "or_id r = av_next_id s"
      "or_yes r = statement (ae_prims E) (make_request E (or_id r) kind quorum ttl_s payload t) True"
      "or_no r = statement (ae_prims E) (make_request E (or_id r) kind quorum ttl_s payload t) False"
      "or_quorum r = max quorum 1"
proof (cases "av_open (snd (open_req E D now kind quorum ttl_s payload t s)) = av_open s")
  case False
  let ?req = "make_request E (av_next_id s) kind quorum ttl_s payload t"
  from False obtain msg l where "link_is_secure (av_link s)" "\<not> MAX_TEXT < length t" "encode_request ?req = Ok msg"
    "send_data (ae_prims E) D msg (av_link s) = (Ok True, l)"
    by (auto simp: open_req_def Let_def split: result.splits prod.splits bool.splits if_splits)
  then show ?thesis
    by (intro opened [of "\<lparr>or_id = av_next_id s, or_kind = kind, or_quorum = rq_quorum ?req, or_ttl_s = ttl_s,
         or_deadline = now + ucast ttl_s * 2000000000, or_yes = statement (ae_prims E) ?req True,
         or_no = statement (ae_prims E) ?req False, or_approvals = [], or_outcome = None\<rparr>"])
      (simp_all add: open_req_def Let_def)
qed (rule failed)

lemma open_req_operators [simp]: "av_operators (snd (open_req E D now kind quorum ttl_s payload t s)) = av_operators s"
  by (auto simp: open_req_def Let_def split: result.splits prod.splits bool.splits)

lemma open_req_inv:
  assumes "approvals_inv E ops A s" and "OpenReq now kind quorum ttl_s payload t \<in> A"
  shows "approvals_inv E ops A (snd (open_req E D now kind quorum ttl_s payload t s))"
proof (cases rule: open_req_cases [of E D now kind quorum ttl_s payload t s])
  case (opened r)
  have "came_from E A r"
    using opened assms(2) unfolding came_from_def Let_def by (force simp: make_request_def)
  moreover have "0 < unat (max quorum (1 :: u8))"
    by (simp add: max_def word_le_nat_alt)
  ultimately have "request_ok E ops A r" using opened by (simp add: request_ok_def)
  with opened assms(1) show ?thesis by (auto simp: approvals_inv_def)
qed (use assms in \<open>simp add: approvals_inv_def\<close>)

lemma check_timeouts_inv: "approvals_inv E ops A s \<Longrightarrow> approvals_inv E ops A (check_timeouts E now s)"
  by (auto simp: approvals_inv_def check_timeouts_def request_ok_def expired_def came_from_def Let_def)

lemma close_req_inv: "approvals_inv E ops A s \<Longrightarrow> approvals_inv E ops A (close_req E D i s)"
  by (auto simp: approvals_inv_def close_req_def dest: in_set_takeD in_set_dropD split: option.splits)

text \<open>A run restricted to the operations in \<open>A\<close> is a machine with this invariant.\<close>

definition approval_step_in ::
    "audit_env \<Rightarrow> drivers \<Rightarrow> approval_op set \<Rightarrow> approvals \<Rightarrow> approval_op \<Rightarrow> approvals" where
  "approval_step_in E D A s x = (if x \<in> A then approval_step E D s x else s)"

lemma approval_step_in_set: "set xs \<subseteq> A \<Longrightarrow> foldl (approval_step_in E D A) s xs = foldl (approval_step E D) s xs"
  by (induction xs arbitrary: s) (auto simp: approval_step_in_def)

interpretation votes: machine "approval_step_in E D A" "approvals_inv E ops A" for E D A ops
proof unfold_locales
  fix s x
  assume "approvals_inv E ops A s"
  then show "approvals_inv E ops A (approval_step_in E D A s x)"
    by (cases x) (auto simp: approval_step_in_def intro: open_req_inv on_message_inv check_timeouts_inv close_req_inv)
qed

text \<open>
  Decisions only accumulate: leaving closing aside, the requests stay where they are, keep
  what they ask for, and once decided keep their outcome.
\<close>

definition request_le :: "open_request \<Rightarrow> open_request \<Rightarrow> bool" where
  "request_le r r' \<longleftrightarrow> or_id r' = or_id r \<and> or_yes r' = or_yes r \<and> or_no r' = or_no r \<and>
     or_quorum r' = or_quorum r \<and> or_deadline r' = or_deadline r \<and> (or_outcome r \<noteq> None \<longrightarrow> r' = r)"

definition approvals_le :: "approvals \<Rightarrow> approvals \<Rightarrow> bool" where
  "approvals_le s s' \<longleftrightarrow> length (av_open s) \<le> length (av_open s') \<and>
     (\<forall>k < length (av_open s). request_le (av_open s ! k) (av_open s' ! k))"

primrec is_close :: "approval_op \<Rightarrow> bool" where
  "is_close (CloseReq i) = True"
| "is_close (OpenReq now kind quorum ttl_s payload t) = False"
| "is_close (OnMessage p) = False"
| "is_close (CheckTimeouts now) = False"

definition approval_step_open :: "audit_env \<Rightarrow> drivers \<Rightarrow> approvals \<Rightarrow> approval_op \<Rightarrow> approvals" where
  "approval_step_open E D s x = (if is_close x then s else approval_step E D s x)"

lemma approval_step_open_eq:
  "list_all (\<lambda>x. \<not> is_close x) xs \<Longrightarrow> foldl (approval_step_open E D) s xs = foldl (approval_step E D) s xs"
  by (induction xs arbitrary: s) (auto simp: approval_step_open_def)

lemma request_le_refl [simp]: "request_le r r"
  by (simp add: request_le_def)

lemma approvals_le_same: "av_open s' = av_open s \<Longrightarrow> approvals_le s s'"
  by (simp add: approvals_le_def)

lemma on_message_le: "approvals_le s (on_message E p s)"
proof (cases rule: on_message_cases [of E p s])
  case (decision i a approve sig t)
  show ?thesis
  proof (cases rule: on_decision_cases [of E i a approve sig t])
    case (counted k r x sg)
    have "request_le r (cast_vote a approve r)"
      using counted(4) by (auto simp: request_le_def cast_vote_def Let_def)
    with counted decision show ?thesis by (auto simp: approvals_le_def nth_list_update)
  qed (use decision in \<open>simp add: approvals_le_same\<close>)
qed (rule approvals_le_same)

lemma open_req_le: "approvals_le s (snd (open_req E D now kind quorum ttl_s payload t s))"
  by (cases rule: open_req_cases [of E D now kind quorum ttl_s payload t s])
    (simp_all add: approvals_le_def nth_append)

lemma check_timeouts_le: "approvals_le s (check_timeouts E now s)"
  by (auto simp: approvals_le_def check_timeouts_def request_le_def expired_def)

interpretation decisions: monotone_machine "approval_step_open E D" "\<lambda>_. True" approvals_le for E D
proof unfold_locales
  fix s x
  show "approvals_le s (approval_step_open E D s x)"
    by (cases x) (auto simp: approval_step_open_def approvals_le_same intro: open_req_le on_message_le check_timeouts_le)
next
  fix s t u
  assume "approvals_le s t" "approvals_le t u"
  then show "approvals_le s u" by (fastforce simp: approvals_le_def request_le_def)
qed (simp_all add: approvals_le_same)

lemma outcome_of_SomeD:
  assumes "outcome_of s i = Some x"
  obtains r where "r \<in> set (av_open s)" "or_id r = i" "or_outcome r = Some x"
  using assms by (auto simp: outcome_of_def bind_eq_Some_conv dest: find_SomeD)

lemma load_keys_ids:
  "\<forall>x \<in> set ops. op_id x = identity_id P (op_key x) \<Longrightarrow>
     \<forall>x \<in> set (load_keys P fs ops). op_id x = identity_id P (op_key x)"
  by (induction P fs ops rule: load_keys.induct) (simp_all add: Let_def split: option.split)

text \<open>The keys behind a list of distinct votes.\<close>

lemma votes_have_keys:
  assumes "distinct vs" and "\<forall>a \<in> set vs. vote_ok P ops stmt a" and "\<forall>x \<in> set ops. op_id x = identity_id P (op_key x)"
  shows "\<exists>xs. set xs \<subseteq> set ops \<and> distinct (map op_key xs) \<and> length xs = length vs \<and>
    (\<forall>x \<in> set xs. \<exists>sg. verify_with P (op_key x) stmt sg APPROVAL_CONTEXT)"
proof -
  from assms(2) obtain f where f: "\<forall>a \<in> set vs. f a \<in> set ops \<and> op_id (f a) = a \<and>
      (\<exists>sg. verify_with P (op_key (f a)) stmt sg APPROVAL_CONTEXT)"
    unfolding vote_ok_def Bex_def by metis
  then have "map (identity_id P) (map op_key (map f vs)) = vs"
    unfolding map_map using assms(3) by (intro map_idI) (metis comp_apply)
  then have "distinct (map op_key (map f vs))" using assms(1) by (metis distinct_map)
  with f show ?thesis by (intro exI [of _ "map f vs"]) auto
qed

section \<open>Properties\<close>


text \<open>A kernel with one pinned operator and a working link, for the witnesses.\<close>

definition echo_prims :: prims where
  "echo_prims = plain_prims\<lparr>sha256 := \<lambda>_. replicate 32 0, aead_encrypt := \<lambda>_ _ _ p. Some (p, replicate 16 0),
     aead_decrypt := \<lambda>_ _ _ c _. Some c\<rparr>"

definition echo_env :: audit_env where
  "echo_env = plain_env\<lparr>ae_prims := echo_prims\<rparr>"

definition alice :: operator where
  "alice = \<lparr>op_name = ''alice'', op_id = replicate 16 0, op_key = zero_identity\<rparr>"

definition alice_file :: tar_file where
  "alice_file = \<lparr>file_name = ''operator-alice.pub'', file_data = identity_bytes zero_identity\<rparr>"

definition quiet_kernel :: approvals where
  "quiet_kernel = \<lparr>av_operators = [alice], av_loaded = True, av_open = [], av_assembler = assembler_new, av_next_id = 1,
     av_link = link_with (session_new [1] [2]), av_log = log_new\<rparr>"

definition alice_approves :: bytes where
  "alice_approves = encode_part 1 (replicate 16 0) True (of_nat SIG_LEN) 0 (signature_bytes zero_signature)"

lemma alice_loaded: "load_keys echo_prims [alice_file] [] = [alice]"
proof -
  have "strip_prefix KEY_PREFIX ''operator-alice.pub'' = Some ''alice.pub''"
    by (simp add: strip_prefix_def KEY_PREFIX_def)
  moreover have "strip_suffix KEY_SUFFIX ''alice.pub'' = Some ''alice''" by (simp add: strip_suffix_def KEY_SUFFIX_def)
  moreover have "identity_id echo_prims zero_identity = replicate 16 0"
    by (simp add: identity_id_def echo_prims_def)
  ultimately show ?thesis
    using identity.dec_enc [OF zero_ok(1)] by (simp add: alice_file_def alice_def bounded_str_def)
qed

lemma alice_approves_decodes:
  "ApprovalMsg.decode alice_approves =
     Ok (DecisionPart 1 (replicate 16 0) True (of_nat SIG_LEN) 0 (signature_bytes zero_signature))"
  unfolding alice_approves_def
  by (rule decode_part_bytes) (simp add: signature_bytes_length [OF zero_ok(2)] secure_lens)

definition sample_open :: open_request where
  "sample_open = \<lparr>or_id = 1, or_kind = 1, or_quorum = 1, or_ttl_s = 60, or_deadline = 120000000000,
     or_yes = replicate 32 0, or_no = replicate 32 0, or_approvals = [], or_outcome = None\<rparr>"

lemma echo_open:
  "av_open (snd (open_req echo_env ok_drivers 0 1 1 60 [] ''x'' quiet_kernel)) = [sample_open] \<and>
   av_operators (snd (open_req echo_env ok_drivers 0 1 1 60 [] ''x'' quiet_kernel)) = [alice] \<and>
   av_assembler (snd (open_req echo_env ok_drivers 0 1 1 60 [] ''x'' quiet_kernel)) = assembler_new"
proof -
  let ?req = "make_request echo_env 1 1 1 60 [] ''x''"
  have st: "statement (ae_prims echo_env) q b = replicate 32 0" for q b
    by (simp add: statement_def echo_env_def echo_prims_def)
  have e: "encode_request ?req = Ok (request_bytes ?req)"
    by (simp add: encode_request_def make_request_def approval_sizes)
  have l: "length (request_bytes ?req) = 60"
    by (simp add: request_bytes_def make_request_def echo_env_def echo_prims_def plain_env_def issuer_from_seeds_def
        issuer_id_def plain_prims_def secure_lens)
  obtain l' where "send_data (ae_prims echo_env) ok_drivers (request_bytes ?req) (link_with (session_new [1] [2])) = (Ok True, l')"
    using l by (auto simp: send_data_def link_with_def link_new_def seal_def session_new_def echo_env_def echo_prims_def
        MAX_PLAINTEXT_eq MAX_PAYLOAD_def send_def send_flags_def encode_with_flags_def transport_write_def ok_drivers_def
        frame_consts Let_def)
  with e st show ?thesis
    by (simp add: open_req_def quiet_kernel_def link_is_secure_def link_with_def link_new_def MAX_TEXT_def
        REQUEST_HEADER_def MAX_PLAINTEXT_eq sample_open_def Let_def)
qed

lemma echo_approved:
  "outcome_of (foldl (approval_step echo_env ok_drivers) quiet_kernel
     [OpenReq 0 1 1 60 [] ''x'', OnMessage alice_approves]) 1 = Some Approved"
proof -
  let ?s = "snd (open_req echo_env ok_drivers 0 1 1 60 [] ''x'' quiet_kernel)"
  have sl: "length (signature_bytes zero_signature) = SIG_LEN" by (rule signature_bytes_length [OF zero_ok(2)])
  have push: "assembler_push assembler_new 1 (replicate 16 0) True (of_nat SIG_LEN) 0 (signature_bytes zero_signature) =
      (Some (1, replicate 16 0, True, signature_bytes zero_signature), assembler_new)"
    using sl by (simp add: assembler_push_def assembler_new_def Let_def secure_lens)
  have v: "verify_with (ae_prims echo_env) zero_identity d zero_signature c" for d c
    by (simp add: verify_with_def echo_env_def echo_prims_def plain_prims_def)
  have sg: "signature_from_slice (signature_bytes zero_signature) = Some zero_signature"
    by (rule signature.dec_enc [OF zero_ok(2)])
  have "av_open (on_message echo_env alice_approves ?s) = [cast_vote (replicate 16 0) True sample_open]"
    unfolding on_message_def alice_approves_decodes
    using echo_open push v sg by (simp add: on_decision_def alice_def sample_open_def Let_def)
  then show ?thesis by (simp add: outcome_of_def cast_vote_def sample_open_def)
qed




end
