(* ===== verification/Capability.thy ===== *)
theory Capability
  imports AuditLog
begin

text \<open>
  Capability tokens, \<open>src/capability.rs\<close>: permissions and their mask, the canonical digest,
  issuing, verification against a pinned issuer, and the cache of proofs that verified. The
  permission set of the source is a list without repetition here; its order is observable
  nowhere (the mask folds with OR, the digest sorts). Shown: an issued token verifies, a
  token that verifies carries a signature over exactly its object and permissions, and the
  cache changes no answer unless SHA-256 collides.
\<close>

section \<open>Permissions\<close>

datatype permission = Read | Write | Execute | SendMessage | ReceiveMessage | Delete | RequiresApproval

primrec tag :: "permission \<Rightarrow> u8" where
  "tag Read = 0x01"
| "tag Write = 0x02"
| "tag Execute = 0x03"
| "tag SendMessage = 0x04"
| "tag ReceiveMessage = 0x05"
| "tag Delete = 0x06"
| "tag RequiresApproval = 0x07"

definition MAX_PERMISSIONS :: nat where "MAX_PERMISSIONS = 16"
definition MAX_ID_LEN :: nat where "MAX_ID_LEN = 64"
definition TOKEN_FORMAT_V1 :: u8 where "TOKEN_FORMAT_V1 = 1"

datatype signature_algorithm = HybridEd25519MlDsa65

primrec algorithm_u8 :: "signature_algorithm \<Rightarrow> u8" where
  "algorithm_u8 HybridEd25519MlDsa65 = 0x01"

record capability_proof =
  pr_format :: u8
  pr_algorithm :: signature_algorithm
  pr_issuer_id :: bytes
  pr_signature :: signature

record capability =
  cap_object_id :: str
  cap_permissions :: "permission list"
  cap_proof :: "capability_proof option"

datatype capability_error = PermissionSetFull | UnknownIssuer | UnsupportedFormat

text \<open>\<open>FnvIndexSet::insert\<close>: fails only when a new element does not fit.\<close>

definition perm_insert :: "permission \<Rightarrow> permission list \<Rightarrow> permission list option" where
  "perm_insert p ps =
     (if p \<in> set ps then Some ps else if length ps < MAX_PERMISSIONS then Some (ps @ [p]) else None)"

fun perm_insert_all :: "permission list \<Rightarrow> permission list \<Rightarrow> permission list" where
  "perm_insert_all [] ps = ps"
| "perm_insert_all (p # qs) ps =
     perm_insert_all qs (case perm_insert p ps of None \<Rightarrow> ps | Some ps' \<Rightarrow> ps')"

definition with_permissions :: "str \<Rightarrow> permission list \<Rightarrow> capability" where
  "with_permissions obj_id perms =
     \<lparr>cap_object_id = (case bounded_str MAX_ID_LEN obj_id of None \<Rightarrow> [] | Some s \<Rightarrow> s),
      cap_permissions = perm_insert_all perms [], cap_proof = None\<rparr>"

definition capability_new :: "str \<Rightarrow> capability" where
  "capability_new obj_id = with_permissions obj_id [Read, Execute, SendMessage, ReceiveMessage]"

definition permission_mask :: "capability \<Rightarrow> u64" where
  "permission_mask c = foldl (\<lambda>mask p. mask OR push_bit (unat (tag p)) 1) 0 (cap_permissions c)"

definition has_permission :: "capability \<Rightarrow> permission \<Rightarrow> bool" where
  "has_permission c p \<longleftrightarrow> p \<in> set (cap_permissions c)"

definition add_permission :: "permission \<Rightarrow> capability \<Rightarrow> (unit, capability_error) result \<times> capability" where
  "add_permission p c =
     (case perm_insert p (cap_permissions c) of
        None \<Rightarrow> (Err PermissionSetFull, c)
      | Some ps \<Rightarrow> (Ok (), c\<lparr>cap_permissions := ps, cap_proof := None\<rparr>))"

definition remove_permission :: "permission \<Rightarrow> capability \<Rightarrow> capability" where
  "remove_permission p c = c\<lparr>cap_permissions := remove1 p (cap_permissions c), cap_proof := None\<rparr>"

section \<open>Digest, issuing and verification\<close>

definition sorted_tags :: "capability \<Rightarrow> u8 list" where
  "sorted_tags c = sort (map tag (cap_permissions c))"

definition signable_bytes :: "capability \<Rightarrow> u8 \<Rightarrow> signature_algorithm \<Rightarrow> bytes \<Rightarrow> bytes" where
  "signable_bytes c format algorithm iid =
     as_bytes ''CDK-CAP'' @ [format, algorithm_u8 algorithm] @ iid @
     le_enc (of_nat (length (cap_object_id c)) :: u16) @ as_bytes (cap_object_id c) @
     of_nat (length (sorted_tags c)) # sorted_tags c"

definition signable_digest :: "prims \<Rightarrow> capability \<Rightarrow> u8 \<Rightarrow> signature_algorithm \<Rightarrow> bytes \<Rightarrow> bytes" where
  "signable_digest P c format algorithm iid = sha256 P (signable_bytes c format algorithm iid)"

definition issue_with :: "prims \<Rightarrow> issuer \<Rightarrow> capability \<Rightarrow> capability" where
  "issue_with P i c =
     (let d = signable_digest P c TOKEN_FORMAT_V1 HybridEd25519MlDsa65 (is_id i) in
      c\<lparr>cap_proof := Some \<lparr>pr_format = TOKEN_FORMAT_V1, pr_algorithm = HybridEd25519MlDsa65,
        pr_issuer_id = is_id i, pr_signature = issuer_sign P i DomCapability d\<rparr>\<rparr>)"

definition issue :: "audit_env \<Rightarrow> capability \<Rightarrow> audit_log \<Rightarrow> capability \<times> audit_log" where
  "issue E c l =
     (let c' = issue_with (ae_prims E) (ae_issuer E) c in
      (c', record_event E CapIssued (cap_object_id c') (permission_mask c') l))"

definition is_signed :: "capability \<Rightarrow> bool" where
  "is_signed c \<longleftrightarrow> cap_proof c \<noteq> None"

text \<open>\<open>check\<close> may update a state (the cache), so the state is passed through.\<close>

definition verify_by ::
    "prims \<Rightarrow> capability \<Rightarrow> bytes \<Rightarrow> (bytes \<Rightarrow> signature \<Rightarrow> 's \<Rightarrow> bool \<times> 's) \<Rightarrow> 's \<Rightarrow>
     (bool, capability_error) result \<times> 's" where
  "verify_by P c trusted check s =
     (case cap_proof c of
        None \<Rightarrow> (Ok False, s)
      | Some proof \<Rightarrow>
          if pr_format proof \<noteq> TOKEN_FORMAT_V1 then (Err UnsupportedFormat, s)
          else if pr_issuer_id proof \<noteq> trusted then (Err UnknownIssuer, s)
          else let d = signable_digest P c (pr_format proof) (pr_algorithm proof) (pr_issuer_id proof) in
            (case check d (pr_signature proof) s of (b, s') \<Rightarrow> (Ok b, s')))"

definition verify_uncached :: "prims \<Rightarrow> issuer \<Rightarrow> capability \<Rightarrow> (bool, capability_error) result" where
  "verify_uncached P i c =
     fst (verify_by P c (is_id i) (\<lambda>d sig _. (issuer_verify P i DomCapability d sig, ())) ())"

definition cap_verify_with :: "prims \<Rightarrow> issuer_public \<Rightarrow> capability \<Rightarrow> (bool, capability_error) result" where
  "cap_verify_with P i c =
     fst (verify_by P c (ip_id i) (\<lambda>d sig _. (public_verify P i DomCapability d sig, ())) ())"

section \<open>The cache of verified proofs\<close>

definition CACHE_CAPACITY :: nat where "CACHE_CAPACITY = 64"

record verify_cache =
  vc_keys :: "bytes list"
  vc_len :: nat
  vc_next :: nat
  vc_hits :: nat
  vc_misses :: nat

definition cache_empty :: verify_cache where
  "cache_empty = \<lparr>vc_keys = replicate CACHE_CAPACITY (replicate 32 0), vc_len = 0, vc_next = 0,
     vc_hits = 0, vc_misses = 0\<rparr>"

definition cache_key_bytes :: "bytes \<Rightarrow> signature \<Rightarrow> bytes" where
  "cache_key_bytes d sig = as_bytes ''CDK-CAP-CACHE'' @ d @ sig_ed sig @ sig_ml sig"

definition cache_key :: "prims \<Rightarrow> bytes \<Rightarrow> signature \<Rightarrow> bytes" where
  "cache_key P d sig = sha256 P (cache_key_bytes d sig)"

definition cache_lookup :: "bytes \<Rightarrow> verify_cache \<Rightarrow> bool \<times> verify_cache" where
  "cache_lookup key c =
     (if key \<in> set (take (vc_len c) (vc_keys c)) then (True, c\<lparr>vc_hits := vc_hits c + 1\<rparr>)
      else (False, c\<lparr>vc_misses := vc_misses c + 1\<rparr>))"

definition cache_insert :: "bytes \<Rightarrow> verify_cache \<Rightarrow> verify_cache" where
  "cache_insert key c =
     c\<lparr>vc_keys := (vc_keys c)[vc_next c := key], vc_next := (vc_next c + 1) mod CACHE_CAPACITY,
       vc_len := min (vc_len c + 1) CACHE_CAPACITY\<rparr>"

definition cache_clear :: "verify_cache \<Rightarrow> verify_cache" where
  "cache_clear c = c\<lparr>vc_len := 0, vc_next := 0\<rparr>"

definition check_cached :: "prims \<Rightarrow> issuer \<Rightarrow> bytes \<Rightarrow> signature \<Rightarrow> verify_cache \<Rightarrow> bool \<times> verify_cache" where
  "check_cached P i d sig c =
     (let key = cache_key P d sig in
      case cache_lookup key c of
        (True, c') \<Rightarrow> (True, c')
      | (False, c') \<Rightarrow>
          let good = issuer_verify P i DomCapability d sig in
          (good, if good then cache_insert key c' else c'))"

definition cap_verify ::
    "prims \<Rightarrow> issuer \<Rightarrow> capability \<Rightarrow> verify_cache \<Rightarrow> (bool, capability_error) result \<times> verify_cache" where
  "cap_verify P i c vc = verify_by P c (is_id i) (check_cached P i) vc"

section \<open>Permission sets\<close>

lemma tag_inject [simp]: "tag a = tag b \<longleftrightarrow> a = b"
  by (cases a; cases b) simp_all

lemma tag_less: "unat (tag p) < 8"
  by (cases p) simp_all

lemma UNIV_permission: "UNIV = {Read, Write, Execute, SendMessage, ReceiveMessage, Delete, RequiresApproval}"
  by (auto intro: permission.exhaust)

text \<open>The set never fills up: there are seven permissions and room for sixteen.\<close>

lemma distinct_permissions_length: "distinct (ps :: permission list) \<Longrightarrow> length ps \<le> 7"
proof -
  assume "distinct ps"
  then have "length ps = card (set ps)" by (simp add: distinct_card)
  also have "\<dots> \<le> card (UNIV :: permission set)" by (rule card_mono [OF _ subset_UNIV]) (simp add: UNIV_permission)
  finally show ?thesis by (simp add: UNIV_permission)
qed

lemma perm_insert_Some:
  "distinct ps \<Longrightarrow> \<exists>ps'. perm_insert p ps = Some ps' \<and> distinct ps' \<and> set ps' = insert p (set ps)"
  using distinct_permissions_length [of ps] by (auto simp: perm_insert_def MAX_PERMISSIONS_def)

lemma perm_insert_all_set:
  "distinct ps \<Longrightarrow> distinct (perm_insert_all qs ps) \<and> set (perm_insert_all qs ps) = set qs \<union> set ps"
proof (induction qs arbitrary: ps)
  case (Cons q qs)
  obtain ps' where "perm_insert q ps = Some ps'" "distinct ps'" "set ps' = insert q (set ps)"
    using perm_insert_Some [OF Cons.prems] by blast
  with Cons.IH [of ps'] show ?case by auto
qed simp

lemma bit_one_shift: "bit (2 ^ m :: u64) n \<longleftrightarrow> n = m \<and> n < 64"
  by (auto simp: bit_exp_iff)

lemma permission_mask_bit:
  "bit (permission_mask c) n \<longleftrightarrow> (\<exists>p \<in> set (cap_permissions c). n = unat (tag p))"
proof -
  have "bit (foldl (\<lambda>mask p. mask OR push_bit (unat (tag p)) 1) (m :: u64) ps) n \<longleftrightarrow>
      bit m n \<or> (\<exists>p \<in> set ps. n = unat (tag p))" for m ps
  proof (induction ps arbitrary: m)
    case (Cons p ps)
    have "unat (tag p) < 64" using tag_less [of p] by simp
    with Cons show ?case by (auto simp: bit_or_iff bit_one_shift)
  qed simp
  from this [of 0 "cap_permissions c"] show ?thesis by (simp add: permission_mask_def)
qed

lemma unat_tag_inject [simp]: "unat (tag a) = unat (tag b) \<longleftrightarrow> a = b"
  by (cases a; cases b) simp_all

lemma permission_mask_has: "bit (permission_mask c) (unat (tag p)) \<longleftrightarrow> has_permission c p"
  by (auto simp: permission_mask_bit has_permission_def)

section \<open>What a valid proof covers\<close>

definition cap_wf :: "capability \<Rightarrow> bool" where
  "cap_wf c \<longleftrightarrow> length (cap_object_id c) \<le> MAX_ID_LEN \<and> distinct (cap_permissions c)"

lemma with_permissions_wf: "cap_wf (with_permissions obj perms)"
  using perm_insert_all_set [of "[]" perms]
  by (auto simp: cap_wf_def with_permissions_def dest: bounded_str_SomeD split: option.splits)

lemma with_permissions_has: "has_permission (with_permissions obj perms) p \<longleftrightarrow> p \<in> set perms"
  using perm_insert_all_set [of "[]" perms] by (simp add: has_permission_def with_permissions_def)

lemma sorted_tags_set: "sorted_tags c = sorted_tags c' \<Longrightarrow> set (cap_permissions c) = set (cap_permissions c')"
proof -
  assume "sorted_tags c = sorted_tags c'"
  then have "tag ` set (cap_permissions c) = tag ` set (cap_permissions c')"
    by (metis sorted_tags_def set_sort list.set_map)
  moreover have "inj tag" by (rule injI) simp
  ultimately show ?thesis by (metis inj_image_eq_iff)
qed

lemma signable_bytes_inject:
  assumes "signable_bytes c f a i = signable_bytes c' f' a' i'" and "length i = length i'"
    and "cap_wf c" and "cap_wf c'"
  shows "f = f' \<and> i = i' \<and> cap_object_id c = cap_object_id c' \<and> set (cap_permissions c) = set (cap_permissions c')"
proof -
  have l: "unat (of_nat (length (cap_object_id q)) :: u16) = length (cap_object_id q)" if "cap_wf q" for q
    using that by (simp add: cap_wf_def MAX_ID_LEN_def unat_of_nat)
  have "f = f' \<and> i = i' \<and> as_bytes (cap_object_id c) @ of_nat (length (sorted_tags c)) # sorted_tags c =
      as_bytes (cap_object_id c') @ of_nat (length (sorted_tags c')) # sorted_tags c' \<and>
      (of_nat (length (cap_object_id c)) :: u16) = of_nat (length (cap_object_id c'))"
    using assms(1,2) by (simp add: signable_bytes_def)
  moreover from this l assms(3,4) have "length (cap_object_id c) = length (cap_object_id c')" by metis
  ultimately show ?thesis using sorted_tags_set [of c c'] by simp
qed

lemma verify_by_issued:
  "verify_by P (issue_with P i c) (is_id i) check s =
     (case check (signable_digest P c TOKEN_FORMAT_V1 HybridEd25519MlDsa65 (is_id i))
        (issuer_sign P i DomCapability (signable_digest P c TOKEN_FORMAT_V1 HybridEd25519MlDsa65 (is_id i))) s of
       (b, s') \<Rightarrow> (Ok b, s'))"
  by (simp add: verify_by_def issue_with_def Let_def signable_digest_def signable_bytes_def sorted_tags_def)

section \<open>Correctness of the cache\<close>

text \<open>SHA-256 digests have 32 bytes, and the verifiers accept signatures of their fixed size only.\<close>

definition hash_sizes :: "prims \<Rightarrow> bool" where
  "hash_sizes P \<longleftrightarrow> (\<forall>b. length (sha256 P b) = 32)"

definition verify_sizes :: "prims \<Rightarrow> bool" where
  "verify_sizes P \<longleftrightarrow> (\<forall>pk d s. ed_verify P pk d s \<longrightarrow> length s = ED_SIG_LEN) \<and>
     (\<forall>pk d ctx s. ml_verify P pk d ctx s \<longrightarrow> length s = ML_SIG_LEN)"

definition cache_inv :: "prims \<Rightarrow> issuer \<Rightarrow> verify_cache \<Rightarrow> bool" where
  "cache_inv P i c \<longleftrightarrow> length (vc_keys c) = CACHE_CAPACITY \<and> vc_len c \<le> CACHE_CAPACITY \<and>
     vc_next c < CACHE_CAPACITY \<and> (vc_len c < CACHE_CAPACITY \<longrightarrow> vc_next c = vc_len c) \<and>
     (\<forall>k \<in> set (take (vc_len c) (vc_keys c)). \<exists>d sig. k = cache_key P d sig \<and> issuer_verify P i DomCapability d sig \<and>
       (hash_sizes P \<longrightarrow> length d = 32))"

lemma cache_inv_empty: "cache_inv P i cache_empty"
  by (simp add: cache_inv_def cache_empty_def CACHE_CAPACITY_def)

lemma cache_inv_clear: "cache_inv P i c \<Longrightarrow> cache_inv P i (cache_clear c)"
  by (simp add: cache_inv_def cache_clear_def CACHE_CAPACITY_def)

lemma cache_inv_insert:
  assumes "cache_inv P i c" and "issuer_verify P i DomCapability d sig" and "hash_sizes P \<longrightarrow> length d = 32"
  shows "cache_inv P i (cache_insert (cache_key P d sig) c)"
proof -
  define good where "good = (\<lambda>k. \<exists>d sig. k = cache_key P d sig \<and> issuer_verify P i DomCapability d sig \<and>
    (hash_sizes P \<longrightarrow> length d = 32))"
  have sub: "set (take (min (vc_len c + 1) CACHE_CAPACITY) ((vc_keys c)[vc_next c := k])) \<subseteq>
      insert k (set (take (vc_len c) (vc_keys c)))" for k
  proof (cases "vc_len c < CACHE_CAPACITY")
    case True
    with assms(1) show ?thesis by (simp add: cache_inv_def take_Suc_conv_app_nth)
  next
    case False
    with assms(1) set_update_subset_insert [of "vc_keys c" "vc_next c" k] show ?thesis by (simp add: cache_inv_def)
  qed
  have "good (cache_key P d sig)" using assms(2,3) unfolding good_def by blast
  moreover have "\<forall>k \<in> set (take (vc_len c) (vc_keys c)). good k" using assms(1) by (simp add: cache_inv_def good_def)
  ultimately have "\<forall>k \<in> set (take (min (vc_len c + 1) CACHE_CAPACITY) ((vc_keys c)[vc_next c := cache_key P d sig])). good k"
    using sub by blast
  with assms(1) show ?thesis
    unfolding cache_inv_def good_def [symmetric] by (auto simp: cache_insert_def CACHE_CAPACITY_def)
qed

lemma check_cached_inv:
  assumes "cache_inv P i c" and "hash_sizes P \<longrightarrow> length d = 32"
  shows "cache_inv P i (snd (check_cached P i d sig c))"
proof -
  have "cache_inv P i (c\<lparr>vc_hits := h\<rparr>)" "cache_inv P i (c\<lparr>vc_misses := h\<rparr>)" for h
    using assms by (simp_all add: cache_inv_def)
  then show ?thesis
    using assms(2) by (auto simp: check_cached_def cache_lookup_def Let_def intro: cache_inv_insert)
qed

lemma cap_verify_inv: "cache_inv P i vc \<Longrightarrow> cache_inv P i (snd (cap_verify P i c vc))"
  by (auto simp: cap_verify_def verify_by_def Let_def split_def signable_digest_def hash_sizes_def
      intro!: check_cached_inv split: option.splits)

datatype cache_op = OpVerify capability | OpClear

primrec cache_step :: "prims \<Rightarrow> issuer \<Rightarrow> verify_cache \<Rightarrow> cache_op \<Rightarrow> verify_cache" where
  "cache_step P i vc (OpVerify c) = snd (cap_verify P i c vc)"
| "cache_step P i vc OpClear = cache_clear vc"

interpretation vcache: machine "cache_step P i" "cache_inv P i" for P i
proof unfold_locales
  fix vc op
  assume "cache_inv P i vc"
  then show "cache_inv P i (cache_step P i vc op)" by (cases op) (auto intro: cap_verify_inv cache_inv_clear)
qed

lemma cache_key_bytes_inject:
  assumes "cache_key_bytes d sig = cache_key_bytes d' sig'" and "length d = length d'"
    and "signature_wf sig" and "signature_wf sig'"
  shows "d = d' \<and> sig = sig'"
  using assms by (auto simp: cache_key_bytes_def signature_wf_def)

lemma check_cached_answer:
  assumes "cache_inv P i vc" and "verify_sizes P" and "length d = 32" and "signature_wf sig" and "hash_sizes P"
  shows "fst (check_cached P i d sig vc) = issuer_verify P i DomCapability d sig \<or>
    (\<exists>d' sig'. issuer_verify P i DomCapability d' sig' \<and> cache_key_bytes d' sig' \<noteq> cache_key_bytes d sig \<and>
       sha256 P (cache_key_bytes d' sig') = sha256 P (cache_key_bytes d sig))"
proof (cases "cache_key P d sig \<in> set (take (vc_len vc) (vc_keys vc))")
  case True
  with assms(1) obtain d' sig' where v: "issuer_verify P i DomCapability d' sig'" "cache_key P d' sig' = cache_key P d sig"
    "length d' = 32"
    using assms(5) by (fastforce simp: cache_inv_def)
  have "signature_wf sig'"
    using v(1) assms(2)
    by (auto simp: issuer_verify_def verify_ed25519_def verify_mldsa_def verify_sizes_def signature_wf_def)
  with v(3) have "cache_key_bytes d' sig' = cache_key_bytes d sig \<Longrightarrow> issuer_verify P i DomCapability d sig"
    using cache_key_bytes_inject [of d' sig' d sig] assms(3,4) v(1) by simp
  with v True show ?thesis by (auto simp: check_cached_def cache_lookup_def Let_def cache_key_def)
qed (simp add: check_cached_def cache_lookup_def Let_def)

lemma issued_verifies:
  assumes "signatures_correct P" and "issuer_ok P i"
  shows "verify_uncached P i (issue_with P i c) = Ok True \<and> fst (cap_verify P i (issue_with P i c) vc) = Ok True"
proof -
  have "issuer_verify P i DomCapability d (issuer_sign P i DomCapability d)" for d using assms by simp
  then show ?thesis
    by (simp add: verify_uncached_def cap_verify_def verify_by_issued check_cached_def cache_lookup_def Let_def)
qed

text \<open>The cache answers as the full check does, or two cache keys collide.\<close>

definition key_collision :: "prims \<Rightarrow> issuer \<Rightarrow> capability \<Rightarrow> bool" where
  "key_collision P i c \<longleftrightarrow> (\<exists>pf d' sig'. cap_proof c = Some pf \<and> issuer_verify P i DomCapability d' sig' \<and>
     (let key = cache_key_bytes (signable_digest P c (pr_format pf) (pr_algorithm pf) (pr_issuer_id pf))
            (pr_signature pf) in
      cache_key_bytes d' sig' \<noteq> key \<and> sha256 P (cache_key_bytes d' sig') = sha256 P key))"

definition proof_sized :: "capability \<Rightarrow> bool" where
  "proof_sized c \<longleftrightarrow> (\<forall>pf. cap_proof c = Some pf \<longrightarrow> signature_wf (pr_signature pf))"

lemma cap_verify_answer:
  assumes "cache_inv P i vc" and "verify_sizes P" and "hash_sizes P" and "proof_sized c"
  shows "fst (cap_verify P i c vc) = verify_uncached P i c \<or> key_collision P i c"
proof (cases "cap_proof c")
  case None
  then show ?thesis by (simp add: cap_verify_def verify_uncached_def verify_by_def)
next
  case (Some pf)
  let ?d = "signable_digest P c (pr_format pf) (pr_algorithm pf) (pr_issuer_id pf)"
  have "length ?d = 32" using assms(3) by (simp add: signable_digest_def hash_sizes_def)
  from check_cached_answer [OF assms(1,2) this _ assms(3)] assms(4) Some
  have "fst (check_cached P i ?d (pr_signature pf) vc) = issuer_verify P i DomCapability ?d (pr_signature pf) \<or>
    (\<exists>d' sig'. issuer_verify P i DomCapability d' sig' \<and>
       cache_key_bytes d' sig' \<noteq> cache_key_bytes ?d (pr_signature pf) \<and>
       sha256 P (cache_key_bytes d' sig') = sha256 P (cache_key_bytes ?d (pr_signature pf)))"
    unfolding proof_sized_def by blast
  then show ?thesis
  proof (elim disjE)
    assume "fst (check_cached P i ?d (pr_signature pf) vc) = issuer_verify P i DomCapability ?d (pr_signature pf)"
    then have "fst (cap_verify P i c vc) = verify_uncached P i c"
      using Some by (auto simp: cap_verify_def verify_uncached_def verify_by_def Let_def split_def)
    then show ?thesis ..
  qed (use Some in \<open>auto simp: Let_def key_collision_def\<close>)
qed

section \<open>Properties\<close>

text \<open>
  A capability issued by the kernel verifies, directly and through the cache in
  whatever state the cache is, and keeps its object and permissions; changing its
  permission set afterwards removes the proof.
\<close>

theorem issued_capability_verifies:
  assumes "signatures_correct P" and "issuer_ok P i"
  shows "verify_uncached P i (issue_with P i c) = Ok True \<and> fst (cap_verify P i (issue_with P i c) vc) = Ok True \<and>
    cap_object_id (issue_with P i c) = cap_object_id c \<and> cap_permissions (issue_with P i c) = cap_permissions c \<and>
    cap_proof (remove_permission p (issue_with P i c)) = None \<and>
    (fst (add_permission p (issue_with P i c)) = Ok () \<longrightarrow> cap_proof (snd (add_permission p (issue_with P i c))) = None)"
  using issued_verifies [OF assms, of c vc]
  by (simp add: remove_permission_def add_permission_def split: option.splits) (simp add: issue_with_def Let_def)

theorem issued_capability_verifies_witness:
  "verify_uncached plain_prims (ae_issuer plain_env) (issue_with plain_prims (ae_issuer plain_env) (capability_new ''obj-1'')) = Ok True"
  using issued_capability_verifies [OF plain_env_ok] by (simp add: plain_env_def)





end
