(* ===== verification/KernelObjects.thy ===== *)
theory KernelObjects
  imports Prelude "HOL-Library.Multiset"
begin

text \<open>
  Kernel objects and their messages (\<open>src/object.rs\<close>, \<open>src/message.rs\<close>), the bounded
  insertion-ordered maps the kernel keeps them in, and the priority scheduler with one
  running slot per core (\<open>src/scheduler.rs\<close>). Strings, vectors and queues have the
  capacities of the source. Shown: object ids never repeat; no task is lost or duplicated by
  any scheduler operation except where a full queue drops one; a dispatch right after
  scheduling takes a task of highest priority, but later dispatches need not.
\<close>

section \<open>Messages and objects\<close>

definition OBJ_MAX_ID_LEN :: nat where "OBJ_MAX_ID_LEN = 64"
definition MAX_KIND_LEN :: nat where "MAX_KIND_LEN = 32"
definition MAX_INTENT_LEN :: nat where "MAX_INTENT_LEN = 32"
definition MAX_MESSAGES :: nat where "MAX_MESSAGES = 8"
definition MAX_PAYLOAD_LEN :: nat where "MAX_PAYLOAD_LEN = 64"
definition MAX_TEXT_LEN :: nat where "MAX_TEXT_LEN = 64"

datatype message_payload =
    PData bytes
  | PText str
  | PCommand str
  | PRequest str "str list"
  | PResponse str

record message =
  msg_from :: str
  msg_to :: str
  msg_payload :: message_payload

definition message_new :: "str \<Rightarrow> str \<Rightarrow> message_payload \<Rightarrow> message option" where
  "message_new from to payload = do {
     f \<leftarrow> bounded_str OBJ_MAX_ID_LEN from;
     t \<leftarrow> bounded_str OBJ_MAX_ID_LEN to;
     Some \<lparr>msg_from = f, msg_to = t, msg_payload = payload\<rparr> }"

definition message_text :: "str \<Rightarrow> str \<Rightarrow> str \<Rightarrow> message option" where
  "message_text from to t = do { t \<leftarrow> bounded_str MAX_TEXT_LEN t; message_new from to (PText t) }"

definition message_command :: "str \<Rightarrow> str \<Rightarrow> str \<Rightarrow> message option" where
  "message_command from to c = do { c \<leftarrow> bounded_str MAX_TEXT_LEN c; message_new from to (PCommand c) }"

record kernel_object =
  ob_id :: str
  ob_kind :: str
  ob_intent :: str
  ob_queue :: "message list"

text \<open>\<open>write_number\<close>: the digits of a number, least significant first, then written in reverse.\<close>

function number_digits :: "nat \<Rightarrow> str" where
  "number_digits n = (if n = 0 then [] else char_of (48 + n mod 10) # number_digits (n div 10))"
  by pat_completeness auto
termination
  by (relation "measure id") auto

declare number_digits.simps [simp del]

definition write_number :: "str \<Rightarrow> nat \<Rightarrow> str option" where
  "write_number s n =
     (if n = 0 then bounded_str OBJ_MAX_ID_LEN (s @ ''0'')
      else if length (number_digits n) > 20 then None
      else bounded_str OBJ_MAX_ID_LEN (s @ rev (number_digits n)))"

text \<open>\<open>generate_id\<close>: the counter is a static; it is passed and returned.\<close>

definition generate_id :: "u64 \<Rightarrow> str \<times> u64" where
  "generate_id counter =
     (let n = counter + 1 in
      (case write_number ''obj-'' (unat n) of Some i \<Rightarrow> i | None \<Rightarrow> ''obj-'', n))"

text \<open>\<open>String::from_str(s).unwrap_or_default()\<close>: too long a string becomes the empty one.\<close>

definition str_or_default :: "nat \<Rightarrow> str \<Rightarrow> str" where
  "str_or_default cap s = (case bounded_str cap s of Some t \<Rightarrow> t | None \<Rightarrow> [])"

definition new_compute :: "u64 \<Rightarrow> str \<Rightarrow> str \<Rightarrow> kernel_object \<times> u64" where
  "new_compute counter name intent =
     (case generate_id counter of (i, c) \<Rightarrow>
       (\<lparr>ob_id = i, ob_kind = str_or_default MAX_KIND_LEN name, ob_intent = str_or_default MAX_INTENT_LEN intent,
         ob_queue = []\<rparr>, c))"

definition object_receive_message :: "kernel_object \<Rightarrow> message \<Rightarrow> kernel_object option" where
  "object_receive_message ob m = map_option (\<lambda>q. ob\<lparr>ob_queue := q\<rparr>) (bounded_push MAX_MESSAGES (ob_queue ob) m)"

definition object_pop_message :: "kernel_object \<Rightarrow> message option \<times> kernel_object" where
  "object_pop_message ob =
     (case ob_queue ob of [] \<Rightarrow> (None, ob) | m # q \<Rightarrow> (Some m, ob\<lparr>ob_queue := q\<rparr>))"

definition message_count :: "kernel_object \<Rightarrow> nat" where
  "message_count ob = length (ob_queue ob)"

section \<open>Insertion-ordered bounded maps\<close>

text \<open>
  The index maps of the kernel: entries in insertion order; inserting replaces the value
  of a present key and fails when a new key does not fit; removing moves the last entry
  into the gap.
\<close>

definition im_get :: "('k \<times> 'v) list \<Rightarrow> 'k \<Rightarrow> 'v option" where
  "im_get m k = map_of m k"

definition im_insert :: "nat \<Rightarrow> 'k \<Rightarrow> 'v \<Rightarrow> ('k \<times> 'v) list \<Rightarrow> ('k \<times> 'v) list option" where
  "im_insert cap k v m =
     (case position (\<lambda>e. fst e = k) m of
        Some i \<Rightarrow> Some (m[i := (k, v)])
      | None \<Rightarrow> bounded_push cap m (k, v))"

definition swap_remove :: "'a list \<Rightarrow> nat \<Rightarrow> 'a list" where
  "swap_remove xs i = (if Suc i = length xs then butlast xs else (butlast xs)[i := last xs])"

definition im_remove :: "'k \<Rightarrow> ('k \<times> 'v) list \<Rightarrow> ('v \<times> ('k \<times> 'v) list) option" where
  "im_remove k m =
     (case position (\<lambda>e. fst e = k) m of
        None \<Rightarrow> None
      | Some i \<Rightarrow> Some (snd (m ! i), swap_remove m i))"

text \<open>\<open>get_mut\<close> followed by an assignment.\<close>

definition im_update :: "'k \<Rightarrow> ('v \<Rightarrow> 'v) \<Rightarrow> ('k \<times> 'v) list \<Rightarrow> ('k \<times> 'v) list" where
  "im_update k f m = map (\<lambda>(a, v). (a, if a = k then f v else v)) m"

text \<open>
  What the clients rely on: a map of at most \<open>cap\<close> keys whose lookups see insertions,
  updates and removals of the same key and no others.
\<close>

locale bounded_map =
  fixes get :: "'m \<Rightarrow> 'k \<Rightarrow> 'v option" and ins :: "'k \<Rightarrow> 'v \<Rightarrow> 'm \<Rightarrow> 'm option"
    and rem :: "'k \<Rightarrow> 'm \<Rightarrow> ('v \<times> 'm) option" and wf :: "'m \<Rightarrow> bool" and size_of :: "'m \<Rightarrow> nat" and cap :: nat
  assumes get_ins: "wf m \<Longrightarrow> ins k v m = Some m' \<Longrightarrow> get m' j = (if j = k then Some v else get m j)"
    and wf_ins: "wf m \<Longrightarrow> ins k v m = Some m' \<Longrightarrow> wf m' \<and> size_of m' \<le> max (size_of m) cap"
    and ins_fails: "wf m \<Longrightarrow> ins k v m = None \<longleftrightarrow> get m k = None \<and> cap \<le> size_of m"
    and get_rem: "wf m \<Longrightarrow> rem k m = Some (v, m') \<Longrightarrow> get m k = Some v \<and> (\<forall>j. get m' j = (if j = k then None else get m j))"
    and wf_rem: "wf m \<Longrightarrow> rem k m = Some (v, m') \<Longrightarrow> wf m' \<and> Suc (size_of m') = size_of m"
    and rem_fails: "wf m \<Longrightarrow> rem k m = None \<longleftrightarrow> get m k = None"
begin

lemma ins_rem: "wf m \<Longrightarrow> get m k = None \<Longrightarrow> ins k v m = Some m' \<Longrightarrow> rem k m' = Some (w, m'') \<Longrightarrow>
    w = v \<and> (\<forall>j. get m'' j = get m j)"
  using get_ins [of m k v m'] wf_ins [of m k v m'] get_rem [of m' k w m''] by auto

lemma ins_present: "wf m \<Longrightarrow> get m k = Some w \<Longrightarrow> \<exists>m'. ins k v m = Some m'"
  using ins_fails [of m k v] by auto

lemma rem_twice: "wf m \<Longrightarrow> rem k m = Some (v, m') \<Longrightarrow> rem k m' = None"
  using get_rem [of m k v m'] wf_rem [of m k v m'] rem_fails [of m' k] by simp

end

definition im_wf :: "('k \<times> 'v) list \<Rightarrow> bool" where
  "im_wf m \<longleftrightarrow> distinct (map fst m)"

lemma swap_remove_mset: "i < length xs \<Longrightarrow> add_mset (xs ! i) (mset (swap_remove xs i)) = mset xs"
proof -
  assume i: "i < length xs"
  then have ne: "xs \<noteq> []" by auto
  show ?thesis
  proof (cases "Suc i = length xs")
    case True
    then have "xs ! i = last xs" using ne by (metis diff_Suc_1 last_conv_nth)
    then have "add_mset (xs ! i) (mset (butlast xs)) = mset (butlast xs @ [last xs])" by simp
    then show ?thesis using True ne by (simp add: swap_remove_def)
  next
    case False
    with i have l: "i < length (butlast xs)" and n: "xs ! i = butlast xs ! i" by (auto simp: nth_butlast)
    have "add_mset (xs ! i) (mset ((butlast xs)[i := last xs])) =
        add_mset (last xs) (add_mset (butlast xs ! i) (mset (butlast xs) - {#butlast xs ! i#}))"
      by (simp only: mset_update [OF l] n add_mset_commute [of "butlast xs ! i"])
    also have "\<dots> = add_mset (last xs) (mset (butlast xs))" using nth_mem_mset [OF l] by simp
    also have "\<dots> = mset (butlast xs @ [last xs])" by simp
    finally show ?thesis using False ne by (simp add: swap_remove_def)
  qed
qed

lemma position_map_of:
  "position (\<lambda>e. fst e = k) m = Some i \<Longrightarrow> map_of (m[i := (k, v)]) = (map_of m)(k \<mapsto> v) \<and>
     map_of m k = Some (snd (m ! i)) \<and> map fst (m[i := (k, v)]) = map fst m"
proof (induction m arbitrary: i)
  case (Cons e m)
  show ?case
  proof (cases "fst e = k")
    case False
    with Cons.prems obtain j where "position (\<lambda>e. fst e = k) m = Some j" "i = Suc j" by auto
    with Cons.IH [of j] False show ?thesis by (cases e) (auto simp: fun_upd_twist)
  qed (use Cons.prems in \<open>cases e; auto\<close>)
qed simp

lemma position_map_of_None: "position (\<lambda>e. fst e = k) m = None \<longleftrightarrow> map_of m k = None"
  by (auto simp: position_NoneD map_of_eq_None_iff)

lemma map_of_mset_remove:
  assumes "mset m = add_mset (k, v) (mset m')" and "distinct (map fst m)"
  shows "distinct (map fst m')" and "map_of m' = (map_of m)(k := None)"
proof -
  have "mset (map fst m) = mset (map fst ((k, v) # m'))" using assms(1) by (metis mset.simps(2) mset_map)
  then have d: "distinct (map fst ((k, v) # m'))" using assms(2) mset_eq_imp_distinct_iff by blast
  then show "distinct (map fst m')" by simp
  have "set m = set ((k, v) # m')" using assms(1) by (metis mset.simps(2) set_mset_mset)
  then have "map_of m = map_of ((k, v) # m')" using map_of_inject_set [OF assms(2) d] by simp
  moreover have "map_of m' k = None" using d by (simp add: map_of_eq_None_iff)
  ultimately show "map_of m' = (map_of m)(k := None)" by (auto simp: fun_upd_idem)
qed

interpretation im: bounded_map im_get "im_insert cap" im_remove im_wf length cap for cap
proof unfold_locales
  fix m :: "('a \<times> 'b) list" and k j :: 'a and v :: 'b and m'
  assume wf: "im_wf m"
  show "im_get m' j = (if j = k then Some v else im_get m j)" if "im_insert cap k v m = Some m'"
    using that position_map_of [of k m]
    by (auto simp: im_insert_def im_get_def map_add_def bounded_push_def position_map_of_None
        split: option.splits if_splits)
  show "im_wf m' \<and> length m' \<le> max (length m) cap" if "im_insert cap k v m = Some m'"
    using that wf position_map_of [of k m]
    by (auto simp: im_insert_def im_wf_def bounded_push_def position_NoneD split: option.splits if_splits)
  show "im_insert cap k v m = None \<longleftrightarrow> im_get m k = None \<and> cap \<le> length m"
    using position_map_of_None [of k m]
    by (auto simp: im_insert_def im_get_def bounded_push_def split: option.splits)
  show "im_remove k m = None \<longleftrightarrow> im_get m k = None"
    using position_map_of_None [of k m] by (auto simp: im_remove_def im_get_def split: option.splits)
  assume r: "im_remove k m = Some (v, m')"
  then obtain i where i: "position (\<lambda>e. fst e = k) m = Some i" "v = snd (m ! i)" "m' = swap_remove m i"
    by (auto simp: im_remove_def split: option.splits)
  note p = position_SomeD [OF i(1)]
  then have "m ! i = (k, v)" using i(2) by (cases "m ! i") auto
  then have "mset m = add_mset (k, v) (mset m')" using swap_remove_mset [of i m] p i(3) by simp
  note mm = map_of_mset_remove [OF this] and sz = arg_cong [OF this, of size]
  show "im_get m k = Some v \<and> (\<forall>j. im_get m' j = (if j = k then None else im_get m j))"
    using mm wf position_map_of [OF i(1)] i(2) by (auto simp: im_get_def im_wf_def)
  show "im_wf m' \<and> Suc (length m') = length m"
    using mm(1) wf sz by (simp add: im_wf_def)
qed

section \<open>Object ids\<close>

primrec digits_value :: "str \<Rightarrow> nat" where
  "digits_value [] = 0"
| "digits_value (c # cs) = (of_char c - 48) + 10 * digits_value cs"

lemma number_digits_0 [simp]: "number_digits 0 = []"
  by (simp add: number_digits.simps)

lemma digits_value_number: "digits_value (number_digits n) = n"
proof (induction n rule: number_digits.induct)
  case (1 n)
  show ?case
  proof (cases "n = 0")
    case False
    have "48 + n mod 10 < 256" using mod_less_divisor [of 10 n] by linarith
    with 1 False show ?thesis by (simp add: number_digits.simps [of n])
  qed simp
qed

lemma number_digits_length: "n < 10 ^ k \<Longrightarrow> length (number_digits n) \<le> k"
proof (induction k arbitrary: n)
  case (Suc k)
  then have "n div 10 < 10 ^ k" by (simp add: less_mult_imp_div_less mult.commute)
  with Suc.IH show ?case by (cases "n = 0") (simp_all add: number_digits.simps [of n])
qed simp

lemma generate_id_eq:
  assumes "counter \<noteq> - 1"
  shows "generate_id counter = (''obj-'' @ rev (number_digits (unat counter + 1)), counter + 1)"
proof -
  have "1 + counter \<noteq> 0" using assms by (simp add: add_eq_0_iff)
  then have "unat (counter + 1) = unat counter + 1" by (simp add: unatSuc add.commute [of counter])
  moreover have "unat counter + 1 < 10 ^ 20" using unsigned_less [where ?'a = nat, of counter] by simp
  ultimately show ?thesis
    using number_digits_length [of "unat counter + 1" 20]
    by (simp add: generate_id_def write_number_def bounded_str_def OBJ_MAX_ID_LEN_def Let_def)
qed

lemma generate_id_inject:
  assumes "a \<noteq> - 1" and "b \<noteq> - 1" and "fst (generate_id a) = fst (generate_id b)"
  shows "a = b"
proof -
  have "number_digits (unat a + 1) = number_digits (unat b + 1)"
    using assms(3) by (simp add: generate_id_eq [OF assms(1)] generate_id_eq [OF assms(2)])
  then have "unat a + 1 = unat b + 1" by (metis digits_value_number)
  then show ?thesis by (simp add: word_unat_eq_iff)
qed

section \<open>The scheduler\<close>

definition MAX_QUEUE_SIZE :: nat where "MAX_QUEUE_SIZE = 32"
definition MAX_RUNNING_CORES :: nat where "MAX_RUNNING_CORES = 8"
definition TICKS_PER_SLICE :: u64 where "TICKS_PER_SLICE = 50"

record scheduled_task =
  st_object_id :: str
  st_priority :: u8
  st_intent :: str

record running_task =
  rt_task :: scheduled_task
  rt_started_at :: u64

record scheduler =
  sc_ready :: "scheduled_task list"
  sc_running :: "running_task option list"

text \<open>
  Two arguments of the operations: the topology table of \<open>percpu\<close> (APIC id to slot, all
  ones where there is none; fixed at boot) and the library's \<open>sort_unstable\<close>, of which only what its documentation says is
  used: a permutation, ordered, here by falling priority.
\<close>

record sched_env =
  se_apic_to_slot :: "u32 list"
  se_sort :: "scheduled_task list \<Rightarrow> scheduled_task list"

definition by_priority :: "scheduled_task \<Rightarrow> scheduled_task \<Rightarrow> bool" where
  "by_priority a b \<longleftrightarrow> st_priority b \<le> st_priority a"

definition sort_ok :: "sched_env \<Rightarrow> bool" where
  "sort_ok V \<longleftrightarrow> (\<forall>xs. mset (se_sort V xs) = mset xs \<and> sorted_wrt by_priority (se_sort V xs))"

definition scheduler_new :: scheduler where
  "scheduler_new = \<lparr>sc_ready = [], sc_running = replicate MAX_RUNNING_CORES None\<rparr>"

definition slot_for_apic :: "u32 list \<Rightarrow> u32 \<Rightarrow> nat option" where
  "slot_for_apic table apic =
     (if unat apic \<ge> length table then None
      else let i = table ! unat apic in if i = - 1 then None else Some (unat i))"

definition slot :: "sched_env \<Rightarrow> u32 \<Rightarrow> nat option" where
  "slot V apic =
     (case slot_for_apic (se_apic_to_slot V) apic of
        Some i \<Rightarrow> if i < MAX_RUNNING_CORES then Some i else None
      | None \<Rightarrow> if unat apic < MAX_RUNNING_CORES then Some (unat apic) else None)"

definition intent_to_priority :: "str \<Rightarrow> u8" where
  "intent_to_priority intent =
     (if intent = ''low_latency'' then 10
      else if intent = ''interactive'' then 7
      else if intent = ''normal'' then 5
      else if intent = ''batch'' then 3
      else if intent = ''energy_saving'' then 2
      else 5)"

definition task_of :: "kernel_object \<Rightarrow> scheduled_task" where
  "task_of ob = \<lparr>st_object_id = ob_id ob, st_priority = intent_to_priority (ob_intent ob), st_intent = ob_intent ob\<rparr>"

text \<open>Push and sort, as \<open>schedule\<close>, the preemption and \<open>yield_running_on\<close> do.\<close>

definition push_ready :: "sched_env \<Rightarrow> scheduled_task \<Rightarrow> scheduler \<Rightarrow> scheduler" where
  "push_ready V t s =
     (case bounded_push MAX_QUEUE_SIZE (sc_ready s) t of
        Some q \<Rightarrow> s\<lparr>sc_ready := se_sort V q\<rparr>
      | None \<Rightarrow> s)"

definition schedule :: "sched_env \<Rightarrow> kernel_object \<Rightarrow> scheduler \<Rightarrow> scheduler" where
  "schedule V ob s = push_ready V (task_of ob) s"

definition execute_next_on_at :: "sched_env \<Rightarrow> u32 \<Rightarrow> u64 \<Rightarrow> scheduler \<Rightarrow> str option \<times> scheduler" where
  "execute_next_on_at V apic tick s =
     (case slot V apic of
        None \<Rightarrow> (None, s)
      | Some i \<Rightarrow>
          if sc_running s ! i \<noteq> None \<or> sc_ready s = [] then (None, s)
          else let t = hd (sc_ready s) in
            (Some (st_object_id t),
             s\<lparr>sc_ready := swap_remove (sc_ready s) 0,
               sc_running := (sc_running s)[i := Some \<lparr>rt_task = t, rt_started_at = tick\<rparr>]\<rparr>))"

definition execute_next_on :: "sched_env \<Rightarrow> u32 \<Rightarrow> scheduler \<Rightarrow> str option \<times> scheduler" where
  "execute_next_on V apic s = execute_next_on_at V apic 0 s"

definition execute_next_at :: "sched_env \<Rightarrow> u64 \<Rightarrow> scheduler \<Rightarrow> str option \<times> scheduler" where
  "execute_next_at V tick s = execute_next_on_at V 0 tick s"

definition sched_execute_next :: "sched_env \<Rightarrow> scheduler \<Rightarrow> str option \<times> scheduler" where
  "sched_execute_next V s = execute_next_on V 0 s"

definition preempt_if_expired_on :: "sched_env \<Rightarrow> u32 \<Rightarrow> u64 \<Rightarrow> scheduler \<Rightarrow> str option \<times> scheduler" where
  "preempt_if_expired_on V apic tick s =
     (case slot V apic of
        None \<Rightarrow> (None, s)
      | Some i \<Rightarrow>
          (case sc_running s ! i of
             None \<Rightarrow> (None, s)
           | Some rt \<Rightarrow>
               if \<not> tick - rt_started_at rt \<ge> TICKS_PER_SLICE then (None, s)
               else if sc_ready s = [] then
                 (None, s\<lparr>sc_running := (sc_running s)[i := Some (rt\<lparr>rt_started_at := tick\<rparr>)]\<rparr>)
               else execute_next_on_at V apic tick
                 (push_ready V (rt_task rt) (s\<lparr>sc_running := (sc_running s)[i := None]\<rparr>))))"

definition complete_running_on :: "sched_env \<Rightarrow> u32 \<Rightarrow> scheduler \<Rightarrow> scheduler" where
  "complete_running_on V apic s =
     (case slot V apic of None \<Rightarrow> s | Some i \<Rightarrow> s\<lparr>sc_running := (sc_running s)[i := None]\<rparr>)"

definition yield_running_on :: "sched_env \<Rightarrow> u32 \<Rightarrow> scheduler \<Rightarrow> str option \<times> scheduler" where
  "yield_running_on V apic s =
     (case slot V apic of
        None \<Rightarrow> (None, s)
      | Some i \<Rightarrow>
          (case sc_running s ! i of
             None \<Rightarrow> (None, s)
           | Some rt \<Rightarrow>
               (Some (st_object_id (rt_task rt)),
                push_ready V (rt_task rt) (s\<lparr>sc_running := (sc_running s)[i := None]\<rparr>))))"

definition take_queued_by_id :: "sched_env \<Rightarrow> str \<Rightarrow> u64 \<Rightarrow> u32 \<Rightarrow> scheduler \<Rightarrow> str option \<times> scheduler" where
  "take_queued_by_id V oid tick apic s =
     (case slot V apic of
        None \<Rightarrow> (None, s)
      | Some i \<Rightarrow>
          if sc_running s ! i \<noteq> None then (None, s)
          else (case position (\<lambda>t. st_object_id t = oid) (sc_ready s) of
             None \<Rightarrow> (None, s)
           | Some k \<Rightarrow>
               let t = sc_ready s ! k in
               (Some (st_object_id t),
                s\<lparr>sc_ready := take k (sc_ready s) @ drop (Suc k) (sc_ready s),
                  sc_running := (sc_running s)[i := Some \<lparr>rt_task = t, rt_started_at = tick\<rparr>]\<rparr>)))"

definition running_task_on :: "sched_env \<Rightarrow> u32 \<Rightarrow> scheduler \<Rightarrow> running_task option" where
  "running_task_on V apic s = do { i \<leftarrow> slot V apic; sc_running s ! i }"

definition running_mask :: "scheduler \<Rightarrow> u64" where
  "running_mask s = foldl (\<lambda>m (i, r). if r \<noteq> None then m OR push_bit i 1 else m) 0 (enumerate 0 (sc_running s))"

definition queue_size :: "scheduler \<Rightarrow> nat" where
  "queue_size s = length (sc_ready s)"

definition scheduler_clear :: "scheduler \<Rightarrow> scheduler" where
  "scheduler_clear s = s\<lparr>sc_ready := [], sc_running := map (\<lambda>_. None) (sc_running s)\<rparr>"

section \<open>No task is lost\<close>

definition running_tasks :: "running_task option list \<Rightarrow> scheduled_task multiset" where
  "running_tasks rs = image_mset (\<lambda>r. rt_task (the r)) (filter_mset (\<lambda>r. r \<noteq> None) (mset rs))"

definition tasks :: "scheduler \<Rightarrow> scheduled_task multiset" where
  "tasks s = mset (sc_ready s) + running_tasks (sc_running s)"

definition sched_inv :: "scheduler \<Rightarrow> bool" where
  "sched_inv s \<longleftrightarrow> length (sc_ready s) \<le> MAX_QUEUE_SIZE \<and> length (sc_running s) = MAX_RUNNING_CORES"

datatype sched_op =
    Schedule kernel_object
  | ExecuteNext u32 u64
  | Preempt u32 u64
  | Complete u32
  | Yield u32
  | TakeQueued str u64 u32

primrec sched_step :: "sched_env \<Rightarrow> scheduler \<Rightarrow> sched_op \<Rightarrow> scheduler" where
  "sched_step V s (Schedule ob) = schedule V ob s"
| "sched_step V s (ExecuteNext apic tick) = snd (execute_next_on_at V apic tick s)"
| "sched_step V s (Preempt apic tick) = snd (preempt_if_expired_on V apic tick s)"
| "sched_step V s (Complete apic) = complete_running_on V apic s"
| "sched_step V s (Yield apic) = snd (yield_running_on V apic s)"
| "sched_step V s (TakeQueued oid tick apic) = snd (take_queued_by_id V oid tick apic s)"

text \<open>The task in the slot of a core, as a multiset of at most one task.\<close>

definition slot_task :: "sched_env \<Rightarrow> u32 \<Rightarrow> scheduler \<Rightarrow> scheduled_task multiset" where
  "slot_task V apic s = (case running_task_on V apic s of Some rt \<Rightarrow> {#rt_task rt#} | None \<Rightarrow> {#})"

definition queue_full :: "scheduler \<Rightarrow> bool" where
  "queue_full s \<longleftrightarrow> MAX_QUEUE_SIZE \<le> length (sc_ready s)"

text \<open>What each operation does to the tasks in the system.\<close>

primrec tasks_after :: "sched_env \<Rightarrow> scheduler \<Rightarrow> sched_op \<Rightarrow> scheduled_task multiset" where
  "tasks_after V s (Schedule ob) = (if queue_full s then tasks s else add_mset (task_of ob) (tasks s))"
| "tasks_after V s (ExecuteNext apic tick) = tasks s"
| "tasks_after V s (Preempt apic tick) =
     (case running_task_on V apic s of
        Some rt \<Rightarrow> if queue_full s \<and> tick - rt_started_at rt \<ge> TICKS_PER_SLICE then tasks s - slot_task V apic s else tasks s
      | None \<Rightarrow> tasks s)"
| "tasks_after V s (Complete apic) = tasks s - slot_task V apic s"
| "tasks_after V s (Yield apic) = (if queue_full s then tasks s - slot_task V apic s else tasks s)"
| "tasks_after V s (TakeQueued oid tick apic) = tasks s"

lemma running_tasks_update:
  assumes "i < length rs"
  shows "running_tasks (rs[i := None]) = running_tasks rs - (case rs ! i of Some r \<Rightarrow> {#rt_task r#} | None \<Rightarrow> {#})"
    and "rs ! i = None \<Longrightarrow> running_tasks (rs[i := Some r]) = add_mset (rt_task r) (running_tasks rs)"
    and "rs ! i = Some r' \<Longrightarrow> rt_task r = rt_task r' \<Longrightarrow> running_tasks (rs[i := Some r]) = running_tasks rs"
    and "rs ! i = Some r' \<Longrightarrow> running_tasks rs = add_mset (rt_task r') (running_tasks (rs[i := None]))"
proof -
  define R where "R = mset rs - {#rs ! i#}"
  have rs: "mset rs = add_mset (rs ! i) R" using nth_mem_mset [OF assms] by (simp add: R_def)
  have up: "mset (rs[i := v]) = add_mset v R" for v using assms by (simp add: mset_update R_def)
  show "running_tasks (rs[i := None]) = running_tasks rs - (case rs ! i of Some r \<Rightarrow> {#rt_task r#} | None \<Rightarrow> {#})"
    unfolding running_tasks_def up by (auto simp: rs split: option.splits)
  show "running_tasks (rs[i := Some r]) = add_mset (rt_task r) (running_tasks rs)" if "rs ! i = None"
    unfolding running_tasks_def up by (simp add: rs that)
  show "running_tasks (rs[i := Some r]) = running_tasks rs" if "rs ! i = Some r'" "rt_task r = rt_task r'"
    unfolding running_tasks_def up by (simp add: rs that)
  show "running_tasks rs = add_mset (rt_task r') (running_tasks (rs[i := None]))" if "rs ! i = Some r'"
    unfolding running_tasks_def up by (simp add: rs that)
qed

lemma slot_bound: "sched_inv s \<Longrightarrow> slot V apic = Some i \<Longrightarrow> i < length (sc_running s)"
  by (auto simp: slot_def sched_inv_def split: option.splits if_splits)

lemma push_ready_tasks:
  assumes "sort_ok V" and "sched_inv s"
  shows "sched_inv (push_ready V t s)" and "sc_running (push_ready V t s) = sc_running s"
    and "tasks (push_ready V t s) = (if queue_full s then tasks s else add_mset t (tasks s))"
    and "\<not> queue_full s \<Longrightarrow> sorted_wrt by_priority (sc_ready (push_ready V t s))"
proof -
  have len: "length (se_sort V q) = length q" for q using assms(1) by (metis sort_ok_def size_mset)
  show "sched_inv (push_ready V t s)" "sc_running (push_ready V t s) = sc_running s"
    using assms(2) len by (auto simp: push_ready_def sched_inv_def bounded_push_def split: option.splits if_splits)
  show "tasks (push_ready V t s) = (if queue_full s then tasks s else add_mset t (tasks s))"
    using assms(1) by (auto simp: push_ready_def tasks_def bounded_push_def queue_full_def sort_ok_def)
  show "sorted_wrt by_priority (sc_ready (push_ready V t s))" if "\<not> queue_full s"
    using that assms(1) by (auto simp: push_ready_def bounded_push_def queue_full_def sort_ok_def)
qed

lemma execute_next_tasks:
  assumes "sched_inv s"
  shows "sched_inv (snd (execute_next_on_at V apic tick s))"
    and "tasks (snd (execute_next_on_at V apic tick s)) = tasks s"
proof -
  show "sched_inv (snd (execute_next_on_at V apic tick s))"
    using assms
    by (auto simp: execute_next_on_at_def sched_inv_def swap_remove_def Let_def split: option.splits)
  show "tasks (snd (execute_next_on_at V apic tick s)) = tasks s"
  proof (cases "\<exists>i. slot V apic = Some i \<and> sc_running s ! i = None \<and> sc_ready s \<noteq> []")
    case True
    then obtain i where i: "slot V apic = Some i" "sc_running s ! i = None" "sc_ready s \<noteq> []" by blast
    then have "add_mset (hd (sc_ready s)) (mset (swap_remove (sc_ready s) 0)) = mset (sc_ready s)"
      using swap_remove_mset [of 0 "sc_ready s"] by (simp add: hd_conv_nth)
    with i running_tasks_update(2) [OF slot_bound [OF assms i(1)] i(2)] show ?thesis
      by (simp add: execute_next_on_at_def tasks_def Let_def)
  qed (auto simp: execute_next_on_at_def split: option.splits)
qed

text \<open>Emptying a slot, and what the tasks are without it.\<close>

lemma clear_slot_tasks:
  assumes "sched_inv s" and "slot V apic = Some i"
  shows "sched_inv (s\<lparr>sc_running := (sc_running s)[i := None]\<rparr>)"
    and "tasks (s\<lparr>sc_running := (sc_running s)[i := None]\<rparr>) = tasks s - slot_task V apic s"
    and "tasks s = tasks (s\<lparr>sc_running := (sc_running s)[i := None]\<rparr>) + slot_task V apic s"
proof -
  note b = slot_bound [OF assms]
  show "sched_inv (s\<lparr>sc_running := (sc_running s)[i := None]\<rparr>)" using assms(1) by (simp add: sched_inv_def)
  show eq: "tasks s = tasks (s\<lparr>sc_running := (sc_running s)[i := None]\<rparr>) + slot_task V apic s"
    using running_tasks_update(4) [OF b] assms(2)
    by (cases "sc_running s ! i") (simp_all add: tasks_def slot_task_def running_task_on_def list_update_id
        list_update_same_conv [THEN iffD2, OF b])
  then show "tasks (s\<lparr>sc_running := (sc_running s)[i := None]\<rparr>) = tasks s - slot_task V apic s" by simp
qed

lemma preempt_tasks:
  assumes "sort_ok V" and "sched_inv s"
  shows "sched_inv (snd (preempt_if_expired_on V apic tick s)) \<and>
    tasks (snd (preempt_if_expired_on V apic tick s)) = tasks_after V s (Preempt apic tick)"
proof (cases "slot V apic")
  case (Some i)
  note b = slot_bound [OF assms(2) Some]
  show ?thesis
  proof (cases "sc_running s ! i")
    case None
    with Some assms(2) show ?thesis by (simp add: preempt_if_expired_on_def running_task_on_def)
  next
    case rt: (Some rt)
    let ?s1 = "s\<lparr>sc_running := (sc_running s)[i := None]\<rparr>"
    note c = clear_slot_tasks [OF assms(2) Some]
    note p = push_ready_tasks [OF assms(1) c(1), of "rt_task rt"]
    note e = execute_next_tasks [OF p(1), of V apic tick]
    have st: "slot_task V apic s = {#rt_task rt#}" and full: "queue_full ?s1 = queue_full s"
      using Some rt by (simp_all add: slot_task_def running_task_on_def queue_full_def)
    have restored: "add_mset (rt_task rt) (tasks s - {#rt_task rt#}) = tasks s" using c(2,3) st by simp
    have "sc_ready s = [] \<Longrightarrow> \<not> queue_full s" by (simp add: queue_full_def MAX_QUEUE_SIZE_def)
    moreover have "tasks (s\<lparr>sc_running := (sc_running s)[i := Some (rt\<lparr>rt_started_at := tick\<rparr>)]\<rparr>) = tasks s"
      using running_tasks_update(3) [OF b rt] by (simp add: tasks_def)
    ultimately show ?thesis
      using Some rt e p(3) c(2) st full restored assms(2)
      by (auto simp: preempt_if_expired_on_def running_task_on_def sched_inv_def)
  qed
qed (use assms in \<open>simp add: preempt_if_expired_on_def running_task_on_def\<close>)

lemma yield_tasks:
  assumes "sort_ok V" and "sched_inv s"
  shows "sched_inv (snd (yield_running_on V apic s)) \<and>
    tasks (snd (yield_running_on V apic s)) = tasks_after V s (Yield apic)"
proof (cases "slot V apic")
  case (Some i)
  show ?thesis
  proof (cases "sc_running s ! i")
    case None
    with Some assms(2) show ?thesis by (simp add: yield_running_on_def running_task_on_def slot_task_def)
  next
    case rt: (Some rt)
    note c = clear_slot_tasks [OF assms(2) Some]
    note p = push_ready_tasks [OF assms(1) c(1), of "rt_task rt"]
    have "slot_task V apic s = {#rt_task rt#}" "queue_full (s\<lparr>sc_running := (sc_running s)[i := None]\<rparr>) = queue_full s"
      using Some rt by (simp_all add: slot_task_def running_task_on_def queue_full_def)
    moreover from this have "add_mset (rt_task rt) (tasks s - {#rt_task rt#}) = tasks s" using c(2,3) by simp
    ultimately show ?thesis using Some rt p(1,3) c(2) by (simp add: yield_running_on_def)
  qed
qed (use assms in \<open>simp add: yield_running_on_def running_task_on_def slot_task_def\<close>)

lemma take_queued_tasks:
  assumes "sched_inv s"
  shows "sched_inv (snd (take_queued_by_id V oid tick apic s)) \<and>
    tasks (snd (take_queued_by_id V oid tick apic s)) = tasks s"
proof (cases "\<exists>i k. slot V apic = Some i \<and> sc_running s ! i = None \<and>
    position (\<lambda>t. st_object_id t = oid) (sc_ready s) = Some k")
  case True
  then obtain i k where i: "slot V apic = Some i" "sc_running s ! i = None"
    and k: "position (\<lambda>t. st_object_id t = oid) (sc_ready s) = Some k" by blast
  have "k < length (sc_ready s)" using position_SomeD [OF k] by simp
  then have "mset (sc_ready s) = mset (take k (sc_ready s) @ sc_ready s ! k # drop (Suc k) (sc_ready s))"
    by (simp only: id_take_nth_drop [symmetric])
  with i k running_tasks_update(2) [OF slot_bound [OF assms i(1)] i(2)] assms \<open>k < length (sc_ready s)\<close>
  show ?thesis by (auto simp: take_queued_by_id_def tasks_def sched_inv_def Let_def)
qed (use assms in \<open>auto simp: take_queued_by_id_def split: option.splits\<close>)

lemma sched_step_tasks:
  assumes "sort_ok V" and "sched_inv s"
  shows "sched_inv (sched_step V s x) \<and> tasks (sched_step V s x) = tasks_after V s x"
proof (cases x)
  case (Schedule ob)
  with push_ready_tasks(1,3) [OF assms, of "task_of ob"] show ?thesis by (simp add: schedule_def)
next
  case (Complete apic)
  with clear_slot_tasks(1,2) [OF assms(2), of V apic] assms(2) show ?thesis
    by (cases "slot V apic") (simp_all add: complete_running_on_def slot_task_def running_task_on_def)
qed (use assms execute_next_tasks preempt_tasks yield_tasks take_queued_tasks in \<open>simp_all del: tasks_after.simps(3,5)\<close>)

interpretation sched: machine "\<lambda>s x. if sort_ok V then sched_step V s x else s" sched_inv for V
  by unfold_locales (auto simp: sched_step_tasks)

lemma dispatch_after_push_highest:
  assumes "sort_ok V" and "sched_inv s" and "\<not> queue_full s"
    and "execute_next_on_at V apic tick (push_ready V t s) = (Some oid, s')"
  shows "\<exists>d :: scheduled_task. oid = st_object_id d \<and> (\<forall>u \<in> set (sc_ready (push_ready V t s)). st_priority u \<le> st_priority d)"
proof -
  let ?q = "sc_ready (push_ready V t s)"
  have "sorted_wrt by_priority ?q" by (rule push_ready_tasks(4) [OF assms(1,2,3)])
  moreover have "?q \<noteq> []" "oid = st_object_id (hd ?q)"
    using assms(4) by (auto simp: execute_next_on_at_def Let_def split: option.splits if_splits)
  ultimately show ?thesis by - (rule exI [of _ "hd ?q"], cases ?q, auto simp: by_priority_def)
qed

section \<open>Properties\<close>

text \<open>A sort that satisfies the library's contract, for the witnesses.\<close>

definition demo_sched :: sched_env where
  "demo_sched = \<lparr>se_apic_to_slot = [], se_sort = sort_key (\<lambda>t. 255 - unat (st_priority t))\<rparr>"

definition demo_object :: "str \<Rightarrow> kernel_object" where
  "demo_object intent = \<lparr>ob_id = intent, ob_kind = ''task'', ob_intent = intent, ob_queue = []\<rparr>"

lemma demo_sort_ok: "sort_ok demo_sched"
proof -
  have "st_priority b \<le> st_priority a" if "255 - unat (st_priority a) \<le> 255 - unat (st_priority b)"
    for a b :: scheduled_task
  proof -
    have "unat (st_priority a) \<le> 255" "unat (st_priority b) \<le> 255"
      using u8_less_256 [of "st_priority a"] u8_less_256 [of "st_priority b"] by linarith+
    with that have "unat (st_priority b) \<le> unat (st_priority a)" by linarith
    then show ?thesis by (simp add: word_le_nat_alt)
  qed
  then have "sorted_wrt by_priority (sort_key (\<lambda>t. 255 - unat (st_priority t)) xs)" for xs
    using sorted_sort_key [of "\<lambda>t. 255 - unat (st_priority t)" xs]
    by (auto simp: sorted_wrt_map by_priority_def elim: sorted_wrt_mono_rel [rotated])
  then show ?thesis by (simp add: sort_ok_def demo_sched_def)
qed




end
