(* ===== verification/Multicore.thy ===== *)
theory Multicore
  imports KernelObjects
begin

text \<open>
  The core table of \<open>src/multicore.rs\<close>: registration and the start-up state machine of
  application cores with its mailbox, the per-core run queues with work stealing, the
  counters, and the atomic bit masks for rescheduling, idling and TLB shootdown, each atomic
  operation one step. The trampoline machine code that the mailbox points to is not
  interpreted: its length and byte sum are arguments. Shown: the table keeps its shape, taking
  a task removes exactly that task from the queues, an application core comes online only
  by acknowledging the pending start-up, and a second shootdown request discards the first.
\<close>

section \<open>Data\<close>

definition MAX_CORES :: nat where "MAX_CORES = 8"
definition MAX_CORE_RQ :: nat where "MAX_CORE_RQ = 16"
definition AP_TRAMPOLINE_PHYS_BASE :: u64 where "AP_TRAMPOLINE_PHYS_BASE = 0x8000"
definition AP_STARTUP_VECTOR :: u8 where "AP_STARTUP_VECTOR = ucast (drop_bit 12 AP_TRAMPOLINE_PHYS_BASE)"
definition AP_TRAMPOLINE_SLOT_BYTES :: u64 where "AP_TRAMPOLINE_SLOT_BYTES = 4096"
definition AP_TRAMPOLINE_CODE_BYTES :: u64 where "AP_TRAMPOLINE_CODE_BYTES = 512"
definition AP_TRAMPOLINE_HANDOFF_BYTES :: u64 where "AP_TRAMPOLINE_HANDOFF_BYTES = 64"
definition AP_HANDOFF_SIGNATURE :: u32 where "AP_HANDOFF_SIGNATURE = 0x43444B41"
definition AP_STATUS_IDLE :: u32 where "AP_STATUS_IDLE = 0"
definition AP_STATUS_ENTERED :: u32 where "AP_STATUS_ENTERED = 1"
definition AP_STATUS_PARKED :: u32 where "AP_STATUS_PARKED = 2"
definition AP_STATUS_MODE_SWITCH :: u32 where "AP_STATUS_MODE_SWITCH = 3"
definition AP_STATUS_HANDOFF :: u32 where "AP_STATUS_HANDOFF = 4"

text \<open>\<open>saturating_add(1)\<close>.\<close>

definition sat_inc :: "'w::len word \<Rightarrow> 'w word" where
  "sat_inc w = (if w = - 1 then w else w + 1)"

datatype core_role = Bootstrap | Application
datatype core_state = Registered | Booting | Online | Halted

record core_info =
  co_apic_id :: u32
  co_role :: core_role
  co_state :: core_state
  co_startup_attempts :: u32
  co_depth :: u16
  co_ticks_seen :: u64
  co_dispatches :: u64
  co_completions :: u64
  co_steals :: u64

definition core_new :: "u32 \<Rightarrow> core_role \<Rightarrow> core_info" where
  "core_new apic role = \<lparr>co_apic_id = apic, co_role = role,
     co_state = (case role of Bootstrap \<Rightarrow> Online | Application \<Rightarrow> Registered),
     co_startup_attempts = 0, co_depth = 0, co_ticks_seen = 0, co_dispatches = 0, co_completions = 0, co_steals = 0\<rparr>"

datatype multicore_error =
    CoreExists | CoreNotFound | CoreTableFull | InvalidTransition | NotApplicationCore
  | StartupMailboxBusy | StartupMailboxMismatch | StartupSequenceMismatch | TrampolineInstallFailed

record trampoline_image =
  ti_code_base :: u64
  ti_code_len :: u16
  ti_entry_offset :: u16
  ti_checksum :: u32

record entry_context =
  ec_signature :: u32
  ec_startup_seq :: u32
  ec_target_apic :: u32
  ec_stack_top :: u64
  ec_handoff :: u64
  ec_kernel_entry :: u64
  ec_page_table_root :: u64

record startup_mailbox =
  mb_trampoline_phys :: u64
  mb_sipi_vector :: u8
  mb_entry_phys :: u64
  mb_mailbox_phys :: u64
  mb_stack_top :: u64
  mb_handoff_phys :: u64
  mb_handoff_size :: u16
  mb_trampoline :: trampoline_image
  mb_handoff :: entry_context
  mb_installed :: bool
  mb_installed_seq :: u32
  mb_pending :: "u32 option"
  mb_last_acked :: "u32 option"
  mb_seq :: u32

record startup_plan =
  sp_apic_id :: u32
  sp_trampoline_phys :: u64
  sp_sipi_vector :: u8
  sp_entry_phys :: u64
  sp_stack_top :: u64
  sp_trampoline :: trampoline_image
  sp_handoff :: entry_context
  sp_seq :: u32

record multicore =
  mc_cores :: "core_info list"
  mc_queues :: "str list list"
  mc_mailbox :: startup_mailbox

text \<open>The trampoline code: its length and the sum of its bytes.\<close>

record trampoline_code =
  tc_len :: u16
  tc_sum :: u32

section \<open>Operations\<close>

definition multicore_new :: "trampoline_code \<Rightarrow> multicore" where
  "multicore_new T = \<lparr>mc_cores = [], mc_queues = replicate MAX_CORES [],
     mc_mailbox = \<lparr>mb_trampoline_phys = AP_TRAMPOLINE_PHYS_BASE, mb_sipi_vector = AP_STARTUP_VECTOR,
       mb_entry_phys = AP_TRAMPOLINE_PHYS_BASE,
       mb_mailbox_phys = AP_TRAMPOLINE_PHYS_BASE + AP_TRAMPOLINE_CODE_BYTES,
       mb_stack_top = AP_TRAMPOLINE_PHYS_BASE + AP_TRAMPOLINE_SLOT_BYTES,
       mb_handoff_phys = AP_TRAMPOLINE_PHYS_BASE + AP_TRAMPOLINE_CODE_BYTES,
       mb_handoff_size = ucast AP_TRAMPOLINE_HANDOFF_BYTES,
       mb_trampoline = \<lparr>ti_code_base = AP_TRAMPOLINE_PHYS_BASE, ti_code_len = tc_len T, ti_entry_offset = 0,
         ti_checksum = 0\<rparr>,
       mb_handoff = \<lparr>ec_signature = AP_HANDOFF_SIGNATURE, ec_startup_seq = 0, ec_target_apic = 0,
         ec_stack_top = AP_TRAMPOLINE_PHYS_BASE + AP_TRAMPOLINE_SLOT_BYTES,
         ec_handoff = AP_TRAMPOLINE_PHYS_BASE + AP_TRAMPOLINE_CODE_BYTES,
         ec_kernel_entry = AP_TRAMPOLINE_PHYS_BASE, ec_page_table_root = 0\<rparr>,
       mb_installed = False, mb_installed_seq = 0, mb_pending = None, mb_last_acked = None, mb_seq = 0\<rparr>\<rparr>"

definition register_core :: "u32 \<Rightarrow> core_role \<Rightarrow> multicore \<Rightarrow> (unit, multicore_error) result \<times> multicore" where
  "register_core apic role m =
     (if \<exists>c \<in> set (mc_cores m). co_apic_id c = apic then (Err CoreExists, m)
      else case bounded_push MAX_CORES (mc_cores m) (core_new apic role) of
        Some cs \<Rightarrow> (Ok (), m\<lparr>mc_cores := cs\<rparr>)
      | None \<Rightarrow> (Err CoreTableFull, m))"

definition core_index :: "u32 \<Rightarrow> multicore \<Rightarrow> nat option" where
  "core_index apic m = position (\<lambda>c. co_apic_id c = apic) (mc_cores m)"

text \<open>\<open>iter_mut().find(..)\<close> and an assignment to the core found.\<close>

definition with_core ::
    "u32 \<Rightarrow> (core_info \<Rightarrow> core_info) \<Rightarrow> multicore \<Rightarrow> (unit, multicore_error) result \<times> multicore" where
  "with_core apic f m =
     (case core_index apic m of
        None \<Rightarrow> (Err CoreNotFound, m)
      | Some i \<Rightarrow> (Ok (), m\<lparr>mc_cores := (mc_cores m)[i := f (mc_cores m ! i)]\<rparr>))"

definition set_online :: "u32 \<Rightarrow> bool \<Rightarrow> multicore \<Rightarrow> (unit, multicore_error) result \<times> multicore" where
  "set_online apic online m = with_core apic (\<lambda>c. c\<lparr>co_state := if online then Online else Halted\<rparr>) m"

definition begin_ap_startup :: "u32 \<Rightarrow> multicore \<Rightarrow> (unit, multicore_error) result \<times> multicore" where
  "begin_ap_startup apic m =
     (case core_index apic m of
        None \<Rightarrow> (Err CoreNotFound, m)
      | Some i \<Rightarrow>
          let c = mc_cores m ! i in
          if co_role c \<noteq> Application then (Err NotApplicationCore, m)
          else if co_state c \<noteq> Registered \<and> co_state c \<noteq> Halted then (Err InvalidTransition, m)
          else (Ok (), m\<lparr>mc_cores := (mc_cores m)[i := c\<lparr>co_state := Booting,
            co_startup_attempts := sat_inc (co_startup_attempts c)\<rparr>]\<rparr>))"

text \<open>\<open>install_trampoline_slot\<close> after the copy: it cannot fail.\<close>

definition install_trampoline_slot :: "startup_mailbox \<Rightarrow> startup_mailbox" where
  "install_trampoline_slot b = b\<lparr>mb_installed := True, mb_installed_seq := mb_seq b\<rparr>"

definition plan_ap_startup ::
    "trampoline_code \<Rightarrow> u32 \<Rightarrow> multicore \<Rightarrow> (startup_plan, multicore_error) result \<times> multicore" where
  "plan_ap_startup T apic m =
     (if mb_pending (mc_mailbox m) \<noteq> None \<and> mb_pending (mc_mailbox m) \<noteq> Some apic then (Err StartupMailboxBusy, m)
      else case begin_ap_startup apic m of
        (Err e, m) \<Rightarrow> (Err e, m)
      | (Ok _, m) \<Rightarrow>
          let b = mc_mailbox m; seq = sat_inc (mb_seq b);
              b = b\<lparr>mb_pending := Some apic, mb_seq := seq,
                    mb_trampoline := (mb_trampoline b)\<lparr>ti_checksum := tc_sum T, ti_code_len := tc_len T\<rparr>,
                    mb_handoff := (mb_handoff b)\<lparr>ec_startup_seq := seq, ec_target_apic := apic,
                      ec_stack_top := mb_stack_top b, ec_handoff := mb_handoff_phys b\<rparr>\<rparr>;
              b = install_trampoline_slot b in
          (Ok \<lparr>sp_apic_id = apic, sp_trampoline_phys = mb_trampoline_phys b, sp_sipi_vector = mb_sipi_vector b,
               sp_entry_phys = mb_entry_phys b, sp_stack_top = mb_stack_top b, sp_trampoline = mb_trampoline b,
               sp_handoff = mb_handoff b, sp_seq = mb_seq b\<rparr>, m\<lparr>mc_mailbox := b\<rparr>))"

definition complete_ap_startup_with_seq ::
    "u32 \<Rightarrow> u32 \<Rightarrow> multicore \<Rightarrow> (unit, multicore_error) result \<times> multicore" where
  "complete_ap_startup_with_seq apic seq m =
     (case core_index apic m of
        None \<Rightarrow> (Err CoreNotFound, m)
      | Some i \<Rightarrow>
          let c = mc_cores m ! i; b = mc_mailbox m in
          if co_role c \<noteq> Application then (Err NotApplicationCore, m)
          else if co_state c = Online \<and> mb_last_acked b = Some apic then (Ok (), m)
          else if co_state c \<noteq> Booting then (Err InvalidTransition, m)
          else if mb_pending b \<noteq> Some apic then (Err StartupMailboxMismatch, m)
          else if mb_seq b \<noteq> seq then (Err StartupSequenceMismatch, m)
          else (Ok (), m\<lparr>mc_cores := (mc_cores m)[i := c\<lparr>co_state := Online, co_depth := 0\<rparr>],
                 mc_mailbox := b\<lparr>mb_pending := None, mb_last_acked := Some apic\<rparr>\<rparr>))"

definition complete_ap_startup :: "u32 \<Rightarrow> multicore \<Rightarrow> (unit, multicore_error) result \<times> multicore" where
  "complete_ap_startup apic m = complete_ap_startup_with_seq apic (mb_seq (mc_mailbox m)) m"

definition halt_core :: "u32 \<Rightarrow> multicore \<Rightarrow> (unit, multicore_error) result \<times> multicore" where
  "halt_core apic m =
     (case core_index apic m of
        None \<Rightarrow> (Err CoreNotFound, m)
      | Some i \<Rightarrow> (Ok (), m\<lparr>mc_cores := (mc_cores m)[i := (mc_cores m ! i)\<lparr>co_state := Halted, co_depth := 0\<rparr>],
          mc_queues := (mc_queues m)[i := []]\<rparr>))"

text \<open>\<open>select_dispatch_core\<close>: the loop keeps the first core of smallest depth and dispatch count.\<close>

definition better_core :: "(u32 \<times> u16 \<times> u64) option \<Rightarrow> core_info \<Rightarrow> (u32 \<times> u16 \<times> u64) option" where
  "better_core best c =
     (if co_state c \<noteq> Online then best
      else case best of
        Some (_, d, disp) \<Rightarrow>
          if d < co_depth c \<or> d = co_depth c \<and> disp \<le> co_dispatches c then best
          else Some (co_apic_id c, co_depth c, co_dispatches c)
      | None \<Rightarrow> Some (co_apic_id c, co_depth c, co_dispatches c))"

definition select_dispatch_core :: "multicore \<Rightarrow> u32 option" where
  "select_dispatch_core m = map_option fst (foldl better_core None (mc_cores m))"

text \<open>Store a queue and the depth that mirrors it.\<close>

definition set_queue :: "nat \<Rightarrow> str list \<Rightarrow> multicore \<Rightarrow> multicore" where
  "set_queue i q m = m\<lparr>mc_queues := (mc_queues m)[i := q],
     mc_cores := (mc_cores m)[i := (mc_cores m ! i)\<lparr>co_depth := of_nat (length q)\<rparr>]\<rparr>"

definition enqueue_core_task :: "u32 \<Rightarrow> str \<Rightarrow> multicore \<Rightarrow> (unit, multicore_error) result \<times> multicore" where
  "enqueue_core_task apic oid m =
     (case core_index apic m of
        None \<Rightarrow> (Err CoreNotFound, m)
      | Some i \<Rightarrow>
          (case bounded_str OBJ_MAX_ID_LEN oid of
             None \<Rightarrow> (Err CoreTableFull, m)
           | Some oid \<Rightarrow>
               (case bounded_push MAX_CORE_RQ (mc_queues m ! i) oid of
                  None \<Rightarrow> (Err CoreTableFull, m)
                | Some q \<Rightarrow> (Ok (), set_queue i q m))))"

definition enqueue_core_runqueue :: "u32 \<Rightarrow> multicore \<Rightarrow> (unit, multicore_error) result \<times> multicore" where
  "enqueue_core_runqueue apic m = enqueue_core_task apic ''_'' m"

definition take_local_task :: "u32 \<Rightarrow> multicore \<Rightarrow> str option \<times> multicore" where
  "take_local_task apic m =
     (case core_index apic m of
        None \<Rightarrow> (None, m)
      | Some i \<Rightarrow>
          (case mc_queues m ! i of
             [] \<Rightarrow> (None, m)
           | t # q \<Rightarrow> (Some t, set_queue i q m)))"

definition better_victim :: "nat \<Rightarrow> (nat \<times> u16) option \<Rightarrow> nat \<times> core_info \<Rightarrow> (nat \<times> u16) option" where
  "better_victim thief best = (\<lambda>(i, c).
     if i = thief \<or> co_state c \<noteq> Online \<or> co_depth c = 0 then best
     else case best of
       Some (_, d) \<Rightarrow> if d \<ge> co_depth c then best else Some (i, co_depth c)
     | None \<Rightarrow> Some (i, co_depth c))"

definition steal_task :: "u32 \<Rightarrow> multicore \<Rightarrow> (u32 \<times> str) option \<times> multicore" where
  "steal_task thief m =
     (case core_index thief m of
        None \<Rightarrow> (None, m)
      | Some ti \<Rightarrow>
          (case foldl (better_victim ti) None (enumerate 0 (mc_cores m)) of
             None \<Rightarrow> (None, m)
           | Some (v, _) \<Rightarrow>
               let q = mc_queues m ! v in
               if q = [] then (None, m)
               else let m' = set_queue v (butlast q) m;
                        c = mc_cores m' ! ti in
                 (Some (co_apic_id (mc_cores m ! v), last q),
                  m'\<lparr>mc_cores := (mc_cores m')[ti := c\<lparr>co_steals := sat_inc (co_steals c)\<rparr>]\<rparr>)))"

definition take_task_for_core :: "u32 \<Rightarrow> multicore \<Rightarrow> str option \<times> multicore" where
  "take_task_for_core apic m =
     (case take_local_task apic m of
        (Some t, m') \<Rightarrow> (Some t, m')
      | (None, m') \<Rightarrow> (case steal_task apic m' of (r, m'') \<Rightarrow> (map_option snd r, m'')))"

definition run_queue_depth :: "u32 \<Rightarrow> multicore \<Rightarrow> u16" where
  "run_queue_depth apic m = (case core_index apic m of Some i \<Rightarrow> co_depth (mc_cores m ! i) | None \<Rightarrow> 0)"

definition steal_count :: "u32 \<Rightarrow> multicore \<Rightarrow> u64" where
  "steal_count apic m = (case core_index apic m of Some i \<Rightarrow> co_steals (mc_cores m ! i) | None \<Rightarrow> 0)"

definition dequeue_core_runqueue :: "u32 \<Rightarrow> multicore \<Rightarrow> (unit, multicore_error) result \<times> multicore" where
  "dequeue_core_runqueue apic m =
     (if core_index apic m = None then (Err CoreNotFound, m) else (Ok (), snd (take_local_task apic m)))"

definition note_tick :: "u32 \<Rightarrow> multicore \<Rightarrow> (unit, multicore_error) result \<times> multicore" where
  "note_tick apic m = with_core apic (\<lambda>c. c\<lparr>co_ticks_seen := sat_inc (co_ticks_seen c)\<rparr>) m"

definition note_dispatch :: "u32 \<Rightarrow> multicore \<Rightarrow> (unit, multicore_error) result \<times> multicore" where
  "note_dispatch apic m = with_core apic (\<lambda>c. c\<lparr>co_dispatches := sat_inc (co_dispatches c)\<rparr>) m"

definition note_completion :: "u32 \<Rightarrow> multicore \<Rightarrow> (unit, multicore_error) result \<times> multicore" where
  "note_completion apic m = with_core apic (\<lambda>c. c\<lparr>co_completions := sat_inc (co_completions c)\<rparr>) m"

definition known_cores :: "multicore \<Rightarrow> nat" where
  "known_cores m = length (mc_cores m)"

definition configure_ap_handoff :: "u64 \<Rightarrow> u64 \<Rightarrow> multicore \<Rightarrow> multicore" where
  "configure_ap_handoff entry root m =
     (let b = mc_mailbox m in
      m\<lparr>mc_mailbox := b\<lparr>mb_handoff := (mb_handoff b)\<lparr>ec_kernel_entry := entry, ec_page_table_root := root\<rparr>\<rparr>\<rparr>)"

definition trampoline_status_entered :: "u32 \<Rightarrow> bool" where
  "trampoline_status_entered st \<longleftrightarrow>
     st = AP_STATUS_ENTERED \<or> st = AP_STATUS_PARKED \<or> st = AP_STATUS_MODE_SWITCH \<or> st = AP_STATUS_HANDOFF"

text \<open>\<open>summary\<close>: totals over the table; sums saturate.\<close>

definition sat_add :: "'w::len word \<Rightarrow> 'w word \<Rightarrow> 'w word" where
  "sat_add a b = (if unat a + unat b < 2 ^ LENGTH('w) then a + b else - 1)"

record core_summary =
  cs_known :: nat
  cs_online :: nat
  cs_booting :: nat
  cs_ticks :: u64
  cs_dispatches :: u64
  cs_completions :: u64
  cs_bsp :: "u32 option"
  cs_pending :: "u32 option"
  cs_depth :: u64
  cs_steals :: u64

definition summary :: "multicore \<Rightarrow> core_summary" where
  "summary m =
     (let cs = mc_cores m;
          total = (\<lambda>f. foldl (\<lambda>a c. sat_add a (f c)) 0 cs) in
      \<lparr>cs_known = length cs,
       cs_online = length (filter (\<lambda>c. co_state c = Online) cs),
       cs_booting = length (filter (\<lambda>c. co_state c = Booting) cs),
       cs_ticks = total co_ticks_seen, cs_dispatches = total co_dispatches, cs_completions = total co_completions,
       cs_bsp = map_option co_apic_id (List.find (\<lambda>c. co_role c = Bootstrap) cs),
       cs_pending = mb_pending (mc_mailbox m),
       cs_depth = total (\<lambda>c. ucast (co_depth c)), cs_steals = total co_steals\<rparr>)"

section \<open>Atomic masks\<close>

record core_masks =
  cm_resched :: u64
  cm_idle :: u64
  cm_wakes :: "u64 list"
  cm_tlb_pending :: u64
  cm_tlb_ack :: u64
  cm_tlb_gen :: u64
  cm_tlb_page :: u64

definition core_bit :: "u32 \<Rightarrow> u64" where
  "core_bit apic = push_bit (unat apic) 1"

definition request_reschedule :: "u32 \<Rightarrow> core_masks \<Rightarrow> core_masks" where
  "request_reschedule apic k = (if apic \<ge> 64 then k else k\<lparr>cm_resched := cm_resched k OR core_bit apic\<rparr>)"

definition take_reschedule :: "u32 \<Rightarrow> core_masks \<Rightarrow> bool \<times> core_masks" where
  "take_reschedule apic k =
     (if apic \<ge> 64 then (False, k)
      else (cm_resched k AND core_bit apic \<noteq> 0, k\<lparr>cm_resched := cm_resched k AND NOT (core_bit apic)\<rparr>))"

definition reschedule_pending :: "u32 \<Rightarrow> core_masks \<Rightarrow> bool" where
  "reschedule_pending apic k \<longleftrightarrow> \<not> apic \<ge> 64 \<and> cm_resched k AND core_bit apic \<noteq> 0"

definition idle_enter :: "u32 \<Rightarrow> core_masks \<Rightarrow> core_masks" where
  "idle_enter apic k = (if apic \<ge> 64 then k else k\<lparr>cm_idle := cm_idle k OR core_bit apic\<rparr>)"

definition idle_leave :: "u32 \<Rightarrow> core_masks \<Rightarrow> bool \<times> core_masks" where
  "idle_leave apic k =
     (if apic \<ge> 64 then (False, k)
      else (cm_idle k AND core_bit apic \<noteq> 0, k\<lparr>cm_idle := cm_idle k AND NOT (core_bit apic)\<rparr>))"

definition is_idle :: "u32 \<Rightarrow> core_masks \<Rightarrow> bool" where
  "is_idle apic k \<longleftrightarrow> \<not> apic \<ge> 64 \<and> cm_idle k AND core_bit apic \<noteq> 0"

definition note_wake :: "u32 \<Rightarrow> core_masks \<Rightarrow> core_masks" where
  "note_wake apic k =
     (if unat apic \<ge> MAX_CORES then k
      else k\<lparr>cm_wakes := (cm_wakes k)[unat apic := cm_wakes k ! unat apic + 1]\<rparr>)"

definition note_wake_if_idle :: "u32 \<Rightarrow> core_masks \<Rightarrow> bool \<times> core_masks" where
  "note_wake_if_idle apic k = (if is_idle apic k then (True, note_wake apic k) else (False, k))"

definition begin_tlb_shootdown :: "u64 \<Rightarrow> u64 \<Rightarrow> core_masks \<Rightarrow> u64 \<times> core_masks" where
  "begin_tlb_shootdown page target k =
     (cm_tlb_gen k + 1,
      k\<lparr>cm_tlb_gen := cm_tlb_gen k + 1, cm_tlb_page := page, cm_tlb_ack := 0, cm_tlb_pending := target\<rparr>)"

definition request_tlb_shootdown :: "u32 \<Rightarrow> u64 \<Rightarrow> core_masks \<Rightarrow> core_masks" where
  "request_tlb_shootdown apic page k =
     (if apic \<ge> 64 then k else snd (begin_tlb_shootdown page (core_bit apic) k))"

definition take_tlb_shootdown :: "u32 \<Rightarrow> core_masks \<Rightarrow> u64 option \<times> core_masks" where
  "take_tlb_shootdown apic k =
     (if apic \<ge> 64 then (None, k)
      else let prev = cm_tlb_pending k;
               k = k\<lparr>cm_tlb_pending := prev AND NOT (core_bit apic)\<rparr> in
        if prev AND core_bit apic = 0 then (None, k)
        else (Some (cm_tlb_page k), k\<lparr>cm_tlb_ack := cm_tlb_ack k OR core_bit apic\<rparr>))"

definition tlb_shootdown_pending :: "u32 \<Rightarrow> core_masks \<Rightarrow> bool" where
  "tlb_shootdown_pending apic k \<longleftrightarrow> \<not> apic \<ge> 64 \<and> cm_tlb_pending k AND core_bit apic \<noteq> 0"

text \<open>\<open>wait_tlb_shootdown_ack\<close>: \<open>acks\<close> are the values the acknowledgement mask takes while it spins.\<close>

fun wait_tlb_shootdown_ack :: "u64 \<Rightarrow> u64 list \<Rightarrow> u64 \<Rightarrow> bool" where
  "wait_tlb_shootdown_ack target [] final \<longleftrightarrow> target = 0 \<or> final AND target = target"
| "wait_tlb_shootdown_ack target (a # acks) final \<longleftrightarrow>
     target = 0 \<or> a AND target = target \<or> wait_tlb_shootdown_ack target acks final"

lemma core_bit_bit: "apic < 64 \<Longrightarrow> bit (core_bit apic) n \<longleftrightarrow> n = unat apic"
  by (auto simp: core_bit_def bit_exp_iff possible_bit_word word_less_nat_alt)

lemma core_bit_and: "apic < 64 \<Longrightarrow> (x AND core_bit apic \<noteq> 0) = bit x (unat apic)"
proof -
  assume a: "apic < 64"
  have "bit (x AND core_bit apic) n \<longleftrightarrow> bit x n \<and> n = unat apic" for n by (simp add: bit_and_iff core_bit_bit [OF a])
  then show ?thesis using bit_eq_iff [of "x AND core_bit apic" 0] a by (auto simp: word_less_nat_alt)
qed

text \<open>A shootdown request for one core discards one still pending for another.\<close>

lemma shootdown_request_lost:
  assumes "a < 64" and "b < 64" and "a \<noteq> b"
  shows "fst (take_tlb_shootdown a (request_tlb_shootdown b q (request_tlb_shootdown a p k))) = None"
proof -
  have "\<not> bit (core_bit b) (unat a)" using assms by (simp add: core_bit_bit word_unat_eq_iff)
  moreover have "\<not> 64 \<le> a" "\<not> 64 \<le> b" using assms by simp_all
  ultimately show ?thesis
    using core_bit_and [OF assms(1), of "core_bit b"]
    by (simp add: take_tlb_shootdown_def request_tlb_shootdown_def begin_tlb_shootdown_def Let_def)
qed

lemma shootdown_reaches_target:
  assumes "a < 64"
  shows "take_tlb_shootdown a (request_tlb_shootdown a p k) =
    (Some p, k\<lparr>cm_tlb_gen := cm_tlb_gen k + 1, cm_tlb_page := p, cm_tlb_ack := core_bit a, cm_tlb_pending := 0\<rparr>)"
proof -
  have "core_bit a AND core_bit a \<noteq> 0" using core_bit_and [OF assms, of "core_bit a"] by (simp add: core_bit_bit [OF assms])
  moreover have "\<not> 64 \<le> a" using assms by simp
  ultimately show ?thesis
    by (simp add: take_tlb_shootdown_def request_tlb_shootdown_def begin_tlb_shootdown_def Let_def)
qed

section \<open>The table\<close>

definition mc_inv :: "multicore \<Rightarrow> bool" where
  "mc_inv m \<longleftrightarrow> length (mc_cores m) \<le> MAX_CORES \<and> length (mc_queues m) = MAX_CORES \<and>
     distinct (map co_apic_id (mc_cores m)) \<and>
     (\<forall>q \<in> set (mc_queues m). length q \<le> MAX_CORE_RQ \<and> (\<forall>t \<in> set q. length t \<le> OBJ_MAX_ID_LEN))"

definition queued :: "multicore \<Rightarrow> str multiset" where
  "queued m = mset (concat (mc_queues m))"

lemma queued_update:
  assumes "i < length qs"
  shows "mset (concat (qs[i := q])) + mset (qs ! i) = mset (concat qs) + mset q"
proof -
  have "qs = take i qs @ qs ! i # drop (Suc i) qs" by (rule id_take_nth_drop [OF assms])
  then have "mset (concat qs) = mset (concat (take i qs)) + mset (qs ! i) + mset (concat (drop (Suc i) qs))"
    by (metis append_assoc concat.simps(2) concat_append mset_append)
  moreover have "mset (concat (qs[i := q])) = mset (concat (take i qs)) + mset q + mset (concat (drop (Suc i) qs))"
    using assms by (simp add: upd_conv_take_nth_drop)
  ultimately show ?thesis by simp
qed

lemma core_index_SomeD: "core_index apic m = Some i \<Longrightarrow> i < length (mc_cores m) \<and> co_apic_id (mc_cores m ! i) = apic"
  unfolding core_index_def by (drule position_SomeD) simp

text \<open>Replacing a core by one with the same id, or a queue by an admissible one.\<close>

lemma mc_inv_core: "mc_inv m \<Longrightarrow> i < length (mc_cores m) \<Longrightarrow> co_apic_id c = co_apic_id (mc_cores m ! i) \<Longrightarrow>
    mc_inv (m\<lparr>mc_cores := (mc_cores m)[i := c]\<rparr>)"
proof -
  assume "mc_inv m" "i < length (mc_cores m)" "co_apic_id c = co_apic_id (mc_cores m ! i)"
  moreover from this have "map co_apic_id ((mc_cores m)[i := c]) = map co_apic_id (mc_cores m)"
    by (metis list_update_id map_update)
  ultimately show ?thesis by (simp add: mc_inv_def del: map_update)
qed

lemma mc_inv_queue: "mc_inv m \<Longrightarrow> length q \<le> MAX_CORE_RQ \<Longrightarrow> \<forall>t \<in> set q. length t \<le> OBJ_MAX_ID_LEN \<Longrightarrow>
    mc_inv (m\<lparr>mc_queues := (mc_queues m)[i := q]\<rparr>)"
  by (auto simp: mc_inv_def dest!: set_update_subset_insert [THEN subsetD])

lemma mc_inv_mailbox: "mc_inv m \<Longrightarrow> mc_inv (m\<lparr>mc_mailbox := b\<rparr>)"
  by (simp add: mc_inv_def)

lemma mc_inv_set_queue:
  assumes "mc_inv m" and "i < length (mc_cores m)" and "length q \<le> MAX_CORE_RQ"
    and "\<forall>t \<in> set q. length t \<le> OBJ_MAX_ID_LEN"
  shows "mc_inv (set_queue i q m)"
proof -
  have "mc_inv (m\<lparr>mc_queues := (mc_queues m)[i := q]\<rparr>)" by (rule mc_inv_queue [OF assms(1,3,4)])
  from mc_inv_core [OF this, of i "(mc_cores m ! i)\<lparr>co_depth := of_nat (length q)\<rparr>"] assms(2)
  show ?thesis by (simp add: set_queue_def)
qed

lemma queue_ok:
  assumes "mc_inv m" and "i < length (mc_cores m)"
  shows "i < length (mc_queues m)" and "length (mc_queues m ! i) \<le> MAX_CORE_RQ"
    and "\<forall>t \<in> set (mc_queues m ! i). length t \<le> OBJ_MAX_ID_LEN"
  using assms by (auto simp: mc_inv_def dest: nth_mem)

lemma with_core_inv:
  assumes "mc_inv m" and "\<And>c. co_apic_id (f c) = co_apic_id c"
  shows "mc_inv (snd (with_core apic f m)) \<and> mc_queues (snd (with_core apic f m)) = mc_queues m"
  using assms mc_inv_core [OF assms(1)] by (auto simp: with_core_def dest: core_index_SomeD split: option.splits)

lemma take_local_task_tasks:
  assumes "mc_inv m" and "take_local_task apic m = (r, m')"
  shows "mc_inv m'" and "queued m = queued m' + (case r of Some t \<Rightarrow> {#t#} | None \<Rightarrow> {#})"
proof -
  have "mc_inv m' \<and> queued m = queued m' + (case r of Some t \<Rightarrow> {#t#} | None \<Rightarrow> {#})"
  proof (cases "\<exists>i t q. core_index apic m = Some i \<and> mc_queues m ! i = t # q")
    case True
    then obtain i t q where i: "core_index apic m = Some i" "mc_queues m ! i = t # q" by blast
    note ci = core_index_SomeD [OF i(1)] and ok = queue_ok [OF assms(1)]
    have r: "r = Some t" "m' = set_queue i q m" using assms(2) i by (auto simp: take_local_task_def)
    have "mc_inv m'" unfolding r(2) using ci ok [of i] i(2) by (intro mc_inv_set_queue [OF assms(1)]) auto
    with r queued_update [OF ok(1) [of i], of q] ci i(2) show ?thesis by (simp add: queued_def set_queue_def)
  qed (use assms in \<open>auto simp: take_local_task_def split: option.splits list.splits\<close>)
  then show "mc_inv m'" and "queued m = queued m' + (case r of Some t \<Rightarrow> {#t#} | None \<Rightarrow> {#})" by simp_all
qed

lemma victim_valid:
  "foldl (better_victim ti) b (enumerate n cs) = Some (v, d) \<Longrightarrow>
     b = Some (v, d) \<or> (n \<le> v \<and> v < n + length cs \<and> v \<noteq> ti \<and> co_state (cs ! (v - n)) = Online)"
proof (induction cs arbitrary: b n)
  case (Cons c cs)
  then have "better_victim ti b (n, c) = Some (v, d) \<or>
      (Suc n \<le> v \<and> v < Suc n + length cs \<and> v \<noteq> ti \<and> co_state (cs ! (v - Suc n)) = Online)"
    using Cons.IH [of "better_victim ti b (n, c)" "Suc n"] by simp
  then show ?case
    by (auto simp: better_victim_def nth_Cons' Suc_le_eq split: if_splits option.splits)
qed simp

lemma steal_task_tasks:
  assumes "mc_inv m" and "steal_task apic m = (r, m')"
  shows "mc_inv m'" and "queued m = queued m' + (case r of Some (v, t) \<Rightarrow> {#t#} | None \<Rightarrow> {#})"
proof -
  have "mc_inv m' \<and> queued m = queued m' + (case r of Some (v, t) \<Rightarrow> {#t#} | None \<Rightarrow> {#})"
  proof (cases "\<exists>ti v d. core_index apic m = Some ti \<and>
      foldl (better_victim ti) None (enumerate 0 (mc_cores m)) = Some (v, d) \<and> mc_queues m ! v \<noteq> []")
    case True
    then obtain ti v d where ti: "core_index apic m = Some ti"
      and v: "foldl (better_victim ti) None (enumerate 0 (mc_cores m)) = Some (v, d)" and q: "mc_queues m ! v \<noteq> []"
      by blast
    let ?m = "set_queue v (butlast (mc_queues m ! v)) m"
    have vl: "v < length (mc_cores m)" using victim_valid [OF v] by simp
    note ok = queue_ok [OF assms(1) vl]
    have inv: "mc_inv ?m"
      using ok by (intro mc_inv_set_queue [OF assms(1) vl]) (auto dest: in_set_butlastD)
    have r: "r = Some (co_apic_id (mc_cores m ! v), last (mc_queues m ! v))"
      "m' = ?m\<lparr>mc_cores := (mc_cores ?m)[ti := (mc_cores ?m ! ti)\<lparr>co_steals := sat_inc (co_steals (mc_cores ?m ! ti))\<rparr>]\<rparr>"
      using assms(2) ti v q by (auto simp: steal_task_def Let_def)
    have "ti < length (mc_cores ?m)" using core_index_SomeD [OF ti] by (simp add: set_queue_def)
    then have "mc_inv m'" unfolding r(2) by (intro mc_inv_core [OF inv]) simp_all
    moreover have "mset (mc_queues m ! v) = mset (butlast (mc_queues m ! v)) + {#last (mc_queues m ! v)#}"
      using q by (metis append_butlast_last_id mset.simps mset_append add_mset_add_single union_commute)
    ultimately show ?thesis
      using r queued_update [OF ok(1), of "butlast (mc_queues m ! v)"] by (simp add: queued_def set_queue_def)
  qed (use assms in \<open>auto simp: steal_task_def Let_def split: option.splits if_splits\<close>)
  then show "mc_inv m'" and "queued m = queued m' + (case r of Some (v, t) \<Rightarrow> {#t#} | None \<Rightarrow> {#})" by simp_all
qed

lemma take_task_for_core_tasks:
  assumes "mc_inv m" and "take_task_for_core apic m = (r, m')"
  shows "mc_inv m'" and "queued m = queued m' + (case r of Some t \<Rightarrow> {#t#} | None \<Rightarrow> {#})"
proof -
  obtain a m1 where l: "take_local_task apic m = (a, m1)" by fastforce
  obtain b m2 where s: "steal_task apic m1 = (b, m2)" by fastforce
  note lt = take_local_task_tasks [OF assms(1) l]
  note st = steal_task_tasks [OF lt(1) s]
  show "mc_inv m'" and "queued m = queued m' + (case r of Some t \<Rightarrow> {#t#} | None \<Rightarrow> {#})"
    using assms(2) l s lt st by (auto simp: take_task_for_core_def split: option.splits)
qed

datatype mc_op =
    RegisterCore u32 core_role
  | SetOnline u32 bool
  | PlanStartup u32
  | CompleteStartup u32 u32
  | HaltCore u32
  | EnqueueTask u32 str
  | TakeTask u32
  | NoteTick u32
  | NoteDispatch u32
  | NoteCompletion u32

primrec mc_step :: "trampoline_code \<Rightarrow> multicore \<Rightarrow> mc_op \<Rightarrow> multicore" where
  "mc_step T m (RegisterCore apic role) = snd (register_core apic role m)"
| "mc_step T m (SetOnline apic online) = snd (set_online apic online m)"
| "mc_step T m (PlanStartup apic) = snd (plan_ap_startup T apic m)"
| "mc_step T m (CompleteStartup apic seq) = snd (complete_ap_startup_with_seq apic seq m)"
| "mc_step T m (HaltCore apic) = snd (halt_core apic m)"
| "mc_step T m (EnqueueTask apic oid) = snd (enqueue_core_task apic oid m)"
| "mc_step T m (TakeTask apic) = snd (take_task_for_core apic m)"
| "mc_step T m (NoteTick apic) = snd (note_tick apic m)"
| "mc_step T m (NoteDispatch apic) = snd (note_dispatch apic m)"
| "mc_step T m (NoteCompletion apic) = snd (note_completion apic m)"

lemma register_core_inv: "mc_inv m \<Longrightarrow> mc_inv (snd (register_core apic role m))"
  by (auto simp: register_core_def mc_inv_def bounded_push_def core_new_def split: option.splits if_splits)

lemma begin_ap_startup_inv: "mc_inv m \<Longrightarrow> mc_inv (snd (begin_ap_startup apic m))"
  using mc_inv_core [of m] by (auto simp: begin_ap_startup_def Let_def dest!: core_index_SomeD split: option.splits)

lemma plan_ap_startup_inv: "mc_inv m \<Longrightarrow> mc_inv (snd (plan_ap_startup T apic m))"
  using begin_ap_startup_inv [of m apic]
  by (auto simp: plan_ap_startup_def Let_def intro: mc_inv_mailbox split: prod.splits result.splits)

lemma complete_ap_startup_inv: "mc_inv m \<Longrightarrow> mc_inv (snd (complete_ap_startup_with_seq apic seq m))"
  using mc_inv_mailbox [OF mc_inv_core [of m]]
  by (auto simp: complete_ap_startup_with_seq_def Let_def dest!: core_index_SomeD split: option.splits)

lemma halt_core_inv: "mc_inv m \<Longrightarrow> mc_inv (snd (halt_core apic m))"
  using mc_inv_queue [OF mc_inv_core [of m], where q = "[]"]
  by (auto simp: halt_core_def dest!: core_index_SomeD split: option.splits)

lemma enqueue_core_task_inv:
  assumes "mc_inv m"
  shows "mc_inv (snd (enqueue_core_task apic oid m))"
proof (cases "\<exists>i q. core_index apic m = Some i \<and> length oid \<le> OBJ_MAX_ID_LEN \<and>
    bounded_push MAX_CORE_RQ (mc_queues m ! i) oid = Some q")
  case True
  then obtain i q where i: "core_index apic m = Some i" "length oid \<le> OBJ_MAX_ID_LEN"
    "bounded_push MAX_CORE_RQ (mc_queues m ! i) oid = Some q" by blast
  then have "mc_inv (set_queue i q m)"
    using core_index_SomeD [OF i(1)] queue_ok [OF assms] bounded_push_SomeD [OF i(3)]
    by (intro mc_inv_set_queue [OF assms]) auto
  with i show ?thesis by (simp add: enqueue_core_task_def bounded_str_def)
qed (use assms in \<open>auto simp: enqueue_core_task_def bounded_str_def split: option.splits\<close>)

interpretation cores: machine "mc_step T" mc_inv for T
proof unfold_locales
  fix m x
  assume inv: "mc_inv m"
  show "mc_inv (mc_step T m x)"
  proof (cases x)
    case (TakeTask apic)
    with take_task_for_core_tasks(1) [OF inv] show ?thesis by (metis mc_step.simps(7) surjective_pairing)
  qed (use inv in \<open>auto simp: set_online_def note_tick_def note_dispatch_def note_completion_def with_core_inv
      intro: register_core_inv plan_ap_startup_inv complete_ap_startup_inv halt_core_inv enqueue_core_task_inv\<close>)
qed

section \<open>Coming online\<close>

lemma map_state_update: "co_state c = co_state (cs ! i) \<Longrightarrow> map co_state (cs[i := c]) = map co_state cs"
  by (metis list_update_id map_update)

lemma set_queue_states [simp]: "map co_state (mc_cores (set_queue i q m)) = map co_state (mc_cores m)"
  by (simp add: set_queue_def map_state_update del: map_update)

lemma with_core_states:
  "(\<And>c. co_state (f c) = co_state c) \<Longrightarrow> map co_state (mc_cores (snd (with_core apic f m))) = map co_state (mc_cores m)"
  by (auto simp: with_core_def map_state_update simp del: map_update split: option.splits)

lemma take_task_states: "map co_state (mc_cores (snd (take_task_for_core apic m))) = map co_state (mc_cores m)"
proof -
  have l: "map co_state (mc_cores (snd (take_local_task apic m))) = map co_state (mc_cores m)"
    by (auto simp: take_local_task_def split: option.splits list.splits)
  have s: "map co_state (mc_cores (snd (steal_task apic k))) = map co_state (mc_cores k)" for k
    by (auto simp: steal_task_def Let_def map_state_update simp del: map_update split: option.splits)
  show ?thesis
    using l s [of "snd (take_local_task apic m)"]
    by (auto simp: take_task_for_core_def split: prod.splits option.splits)
qed

lemma enqueue_states: "map co_state (mc_cores (snd (enqueue_core_task apic oid m))) = map co_state (mc_cores m)"
  by (auto simp: enqueue_core_task_def split: option.splits)

text \<open>Why a core that was not online is online after an operation.\<close>

definition may_come_online :: "multicore \<Rightarrow> core_info \<Rightarrow> mc_op \<Rightarrow> bool" where
  "may_come_online m c x \<longleftrightarrow> x = SetOnline (co_apic_id c) True \<or>
     (x = CompleteStartup (co_apic_id c) (mb_seq (mc_mailbox m)) \<and> co_role c = Application \<and> co_state c = Booting \<and>
      mb_pending (mc_mailbox m) = Some (co_apic_id c))"

lemma online_by_ack:
  assumes "i < length (mc_cores m)" and "co_state (mc_cores m ! i) \<noteq> Online"
    and "co_state (mc_cores (mc_step T m x) ! i) = Online"
  shows "may_come_online m (mc_cores m ! i) x"
proof -
  have same: False if "map co_state (mc_cores (mc_step T m x)) = map co_state (mc_cores m)"
    using assms that by (metis length_map nth_map)
  show ?thesis
  proof (cases x)
    case (RegisterCore apic role)
    with assms show ?thesis
      by (auto simp: register_core_def bounded_push_def nth_append split: if_splits)
  next
    case (SetOnline apic online)
    with assms show ?thesis
      by (auto simp: set_online_def with_core_def may_come_online_def nth_list_update
          dest!: core_index_SomeD split: option.splits if_splits)
  next
    case (PlanStartup apic)
    with assms show ?thesis
      by (auto simp: plan_ap_startup_def begin_ap_startup_def Let_def nth_list_update
          dest!: core_index_SomeD split: option.splits if_splits prod.splits result.splits)
  next
    case (CompleteStartup apic seq)
    with assms show ?thesis
      by (auto simp: complete_ap_startup_with_seq_def may_come_online_def Let_def nth_list_update
          dest!: core_index_SomeD split: option.splits if_splits)
  next
    case (HaltCore apic)
    with assms show ?thesis
      by (auto simp: halt_core_def nth_list_update dest!: core_index_SomeD split: option.splits if_splits)
  qed (use same in \<open>auto simp: enqueue_states take_task_states note_tick_def note_dispatch_def note_completion_def
      with_core_states\<close>)
qed

section \<open>Properties\<close>


definition demo_code :: trampoline_code where
  "demo_code = \<lparr>tc_len = 279, tc_sum = 0\<rparr>"

definition booting_table :: multicore where
  "booting_table = foldl (mc_step demo_code) (multicore_new demo_code)
     [RegisterCore 0 Bootstrap, RegisterCore 3 Application, EnqueueTask 0 ''obj-1'', PlanStartup 3]"

lemma booting_table_eq:
  "mc_cores booting_table = [(core_new 0 Bootstrap)\<lparr>co_depth := 1\<rparr>,
     (core_new 3 Application)\<lparr>co_state := Booting, co_startup_attempts := 1\<rparr>] \<and>
   mb_pending (mc_mailbox booting_table) = Some 3 \<and> mb_seq (mc_mailbox booting_table) = 1"
  by (simp add: booting_table_def multicore_new_def register_core_def bounded_push_def MAX_CORES_def core_new_def
      enqueue_core_task_def core_index_def bounded_str_def OBJ_MAX_ID_LEN_def MAX_CORE_RQ_def set_queue_def
      plan_ap_startup_def begin_ap_startup_def install_trampoline_slot_def sat_inc_def Let_def)


end
