(* ===== verification/Network.thy ===== *)
theory Network
  imports Multicore
begin

text \<open>
  The packet layer: \<open>src/network.rs\<close> (interfaces with bounded queues and statistics) and the
  software backends of \<open>src/network/transport.rs\<close> in the default build (loopback, stub tap
  and the virtio stub with its descriptor rings; the \<open>virtio-hw\<close> feature touches device
  registers and is left out). Shown: the queues keep their bounds, loopback and tap deliver in
  order and count what they drop, the receive loop of the virtio stub ends, and the virtio stub
  loses packets it does not count when more than a ring full is sent at once.
\<close>

section \<open>Data\<close>

definition MAX_INTERFACES :: nat where "MAX_INTERFACES = 4"
definition MAX_IFACE_NAME :: nat where "MAX_IFACE_NAME = 16"
definition MAX_PACKET_BYTES :: nat where "MAX_PACKET_BYTES = 256"
definition MAX_QUEUE_DEPTH :: nat where "MAX_QUEUE_DEPTH = 16"
definition RING_DEPTH :: nat where "RING_DEPTH = 8"

type_synonym net_packet = bytes

datatype net_error =
    InterfaceExists | InterfaceNotFound | InvalidInterfaceName | QueueFull | NetPayloadTooLarge | InvalidBackend

definition packet_from_bytes :: "bytes \<Rightarrow> (net_packet, net_error) result" where
  "packet_from_bytes b = (if length b \<le> MAX_PACKET_BYTES then Ok b else Err NetPayloadTooLarge)"

record interface_stats =
  is_tx_packets :: u64
  is_rx_packets :: u64
  is_tx_dropped :: u64
  is_rx_dropped :: u64
  is_tx_high :: nat
  is_rx_high :: nat
  is_polls :: u64

datatype external_backend_kind = VirtioNet | StubTap
datatype interface_kind = Loopback | External external_backend_kind

definition backend_parse :: "str \<Rightarrow> external_backend_kind option" where
  "backend_parse s =
     (if s = ''virtio-net'' \<or> s = ''virtio'' then Some VirtioNet
      else if s = ''stub-tap'' \<or> s = ''stub'' \<or> s = ''tap'' then Some StubTap
      else None)"

primrec backend_as_str :: "external_backend_kind \<Rightarrow> str" where
  "backend_as_str VirtioNet = ''virtio-net''"
| "backend_as_str StubTap = ''stub-tap''"

primrec kind_as_str :: "interface_kind \<Rightarrow> str" where
  "kind_as_str Loopback = ''loopback''"
| "kind_as_str (External k) = backend_as_str k"

section \<open>Backends\<close>

text \<open>The software virtqueue pair, and the stub around it.\<close>

record soft_virtq =
  sv_tx_ring :: "net_packet list"
  sv_rx_ring :: "net_packet list"
  sv_tx_submitted :: u64
  sv_tx_completed :: u64
  sv_rx_delivered :: u64

record virtio_stub =
  vs_rings :: soft_virtq
  vs_polls :: u64

datatype external_transport = VirtioBackend virtio_stub | TapBackend

definition soft_virtq_new :: soft_virtq where
  "soft_virtq_new = \<lparr>sv_tx_ring = [], sv_rx_ring = [], sv_tx_submitted = 0, sv_tx_completed = 0, sv_rx_delivered = 0\<rparr>"

definition submit_tx :: "net_packet \<Rightarrow> soft_virtq \<Rightarrow> bool \<times> soft_virtq" where
  "submit_tx p v =
     (case bounded_push RING_DEPTH (sv_tx_ring v) p of
        None \<Rightarrow> (False, v)
      | Some r \<Rightarrow> (True, v\<lparr>sv_tx_ring := r, sv_tx_submitted := sat_inc (sv_tx_submitted v)\<rparr>))"

definition complete_tx :: "soft_virtq \<Rightarrow> bool \<times> soft_virtq" where
  "complete_tx v =
     (case sv_tx_ring v of
        [] \<Rightarrow> (False, v)
      | p # r \<Rightarrow>
          (True, v\<lparr>sv_tx_ring := r, sv_tx_completed := sat_inc (sv_tx_completed v),
             sv_rx_ring := (case bounded_push RING_DEPTH (sv_rx_ring v) p of Some q \<Rightarrow> q | None \<Rightarrow> sv_rx_ring v)\<rparr>))"

definition poll_rx :: "soft_virtq \<Rightarrow> net_packet option \<times> soft_virtq" where
  "poll_rx v =
     (case sv_rx_ring v of
        [] \<Rightarrow> (None, v)
      | p # r \<Rightarrow> (Some p, v\<lparr>sv_rx_ring := r, sv_rx_delivered := sat_inc (sv_rx_delivered v)\<rparr>))"

definition poll_rx_descriptor :: "virtio_stub \<Rightarrow> net_packet option \<times> virtio_stub" where
  "poll_rx_descriptor b =
     (let b = b\<lparr>vs_polls := sat_inc (vs_polls b)\<rparr> in
      case poll_rx (vs_rings b) of
        (Some p, v) \<Rightarrow> (Some p, b\<lparr>vs_rings := v\<rparr>)
      | (None, v) \<Rightarrow>
          if vs_polls b mod 4 = 0 then (ok (packet_from_bytes (as_bytes ''virtio-stub-rx'')), b) else (None, b))"

text \<open>The transmit loop of the virtio adapter, then its receive loop, which always ends.\<close>

fun virtio_tx :: "net_packet list \<Rightarrow> virtio_stub \<Rightarrow> net_packet list \<times> virtio_stub" where
  "virtio_tx [] b = ([], b)"
| "virtio_tx (p # tx) b =
     (case submit_tx p (vs_rings b) of
        (True, v) \<Rightarrow> virtio_tx tx (b\<lparr>vs_rings := snd (complete_tx v)\<rparr>)
      | (False, v) \<Rightarrow> (p # tx, b\<lparr>vs_rings := v\<rparr>))"

definition rx_left :: "virtio_stub \<Rightarrow> nat" where
  "rx_left b = 2 * length (sv_rx_ring (vs_rings b)) + (if sat_inc (vs_polls b) mod 4 = 0 then 1 else 0)"

lemma sat_inc_mod_4: "sat_inc (p :: u64) mod 4 = 0 \<Longrightarrow> sat_inc (sat_inc p) mod 4 \<noteq> 0"
proof -
  assume "sat_inc p mod 4 = 0"
  from arg_cong [OF this, of unat] have a: "unat (sat_inc p) mod 4 = 0" by (simp add: unat_mod)
  have "unat (- 1 :: u64) mod 4 = 3" by (simp add: unsigned_minus_1_eq_mask mask_eq_exp_minus_1)
  then have ne: "sat_inc p \<noteq> - 1" using a by (metis zero_neq_numeral)
  note a
  moreover have "unat (sat_inc p + 1) = unat (sat_inc p) + 1"
    using ne by (metis Suc_eq_plus1 add.commute add_eq_0_iff unatSuc)
  ultimately have "unat (sat_inc p + 1) mod 4 = 1" by presburger
  then show ?thesis using ne by (auto simp: sat_inc_def [of "sat_inc p"] word_unat_eq_iff unat_mod)
qed

lemma poll_rx_descriptor_left: "poll_rx_descriptor b = (Some p, b') \<Longrightarrow> rx_left b' < rx_left b"
  using sat_inc_mod_4 [of "vs_polls b"]
  by (cases "sv_rx_ring (vs_rings b)"; cases "sat_inc (vs_polls b) mod 4 = 0")
    (clarsimp simp: poll_rx_descriptor_def poll_rx_def rx_left_def Let_def)+

function virtio_rx :: "virtio_stub \<Rightarrow> net_packet list \<Rightarrow> u64 \<Rightarrow> u64 \<Rightarrow> virtio_stub \<times> net_packet list \<times> u64 \<times> u64" where
  "virtio_rx b rx received dropped =
     (case poll_rx_descriptor b of
        (None, b') \<Rightarrow> (b', rx, received, dropped)
      | (Some p, b') \<Rightarrow>
          (case bounded_push MAX_QUEUE_DEPTH rx p of
             None \<Rightarrow> virtio_rx b' rx received (sat_inc dropped)
           | Some rx' \<Rightarrow> virtio_rx b' rx' (sat_inc received) dropped))"
  by pat_completeness auto
termination
  by (relation "measure (\<lambda>(b, rx, r, d). rx_left b)") (auto dest!: poll_rx_descriptor_left [OF sym])

declare virtio_rx.simps [simp del]

text \<open>\<open>poll\<close> of a backend: the transmit and receive queues, and the counters it reports.\<close>

fun tap_poll :: "net_packet list \<Rightarrow> net_packet list \<Rightarrow> u64 \<Rightarrow> u64 \<Rightarrow> net_packet list \<times> u64 \<times> u64" where
  "tap_poll [] rx received dropped = (rx, received, dropped)"
| "tap_poll (p # tx) rx received dropped =
     (case bounded_push MAX_QUEUE_DEPTH rx p of
        None \<Rightarrow> tap_poll tx rx received (sat_inc dropped)
      | Some rx' \<Rightarrow> tap_poll tx rx' (sat_inc received) dropped)"

fun transport_poll ::
    "external_transport \<Rightarrow> net_packet list \<Rightarrow> net_packet list \<Rightarrow>
     external_transport \<times> net_packet list \<times> net_packet list \<times> u64 \<times> u64" where
  "transport_poll (VirtioBackend b) tx rx =
     (case virtio_tx tx b of (tx', b') \<Rightarrow>
       (case virtio_rx b' rx 0 0 of (b'', rx', r, d) \<Rightarrow> (VirtioBackend b'', tx', rx', r, d)))"
| "transport_poll TapBackend tx rx =
     (case tap_poll tx rx 0 0 of (rx', r, d) \<Rightarrow> (TapBackend, [], rx', r, d))"

definition transport_from_kind :: "external_backend_kind \<Rightarrow> external_transport" where
  "transport_from_kind k =
     (case k of VirtioNet \<Rightarrow> VirtioBackend \<lparr>vs_rings = soft_virtq_new, vs_polls = 0\<rparr> | StubTap \<Rightarrow> TapBackend)"

section \<open>Interfaces\<close>

record network_interface =
  ni_name :: str
  ni_kind :: interface_kind
  ni_backend :: "external_transport option"
  ni_tx :: "net_packet list"
  ni_rx :: "net_packet list"
  ni_stats :: interface_stats

record network_stack =
  ns_interfaces :: "network_interface list"
  ns_ticks :: u64

definition stats_default :: interface_stats where
  "stats_default = \<lparr>is_tx_packets = 0, is_rx_packets = 0, is_tx_dropped = 0, is_rx_dropped = 0, is_tx_high = 0,
     is_rx_high = 0, is_polls = 0\<rparr>"

definition interface_new :: "str \<Rightarrow> interface_kind \<Rightarrow> (network_interface, net_error) result" where
  "interface_new name kind =
     (case bounded_str MAX_IFACE_NAME name of
        None \<Rightarrow> Err InvalidInterfaceName
      | Some n \<Rightarrow> Ok \<lparr>ni_name = n, ni_kind = kind,
          ni_backend = (case kind of Loopback \<Rightarrow> None | External k \<Rightarrow> Some (transport_from_kind k)),
          ni_tx = [], ni_rx = [], ni_stats = stats_default\<rparr>)"

definition enqueue_tx :: "net_packet \<Rightarrow> network_interface \<Rightarrow> (unit, net_error) result \<times> network_interface" where
  "enqueue_tx p i =
     (let s = ni_stats i in
      case bounded_push MAX_QUEUE_DEPTH (ni_tx i) p of
        None \<Rightarrow> (Err QueueFull, i\<lparr>ni_stats := s\<lparr>is_tx_dropped := sat_inc (is_tx_dropped s)\<rparr>\<rparr>)
      | Some q \<Rightarrow> (Ok (), i\<lparr>ni_tx := q, ni_stats := s\<lparr>is_tx_high := max (is_tx_high s) (length q),
          is_tx_packets := sat_inc (is_tx_packets s)\<rparr>\<rparr>))"

definition dequeue_rx :: "network_interface \<Rightarrow> net_packet option \<times> network_interface" where
  "dequeue_rx i = (case ni_rx i of [] \<Rightarrow> (None, i) | p # r \<Rightarrow> (Some p, i\<lparr>ni_rx := r\<rparr>))"

fun loopback_io :: "net_packet list \<Rightarrow> net_packet list \<Rightarrow> interface_stats \<Rightarrow> net_packet list \<times> interface_stats" where
  "loopback_io [] rx s = (rx, s)"
| "loopback_io (p # tx) rx s =
     (case bounded_push MAX_QUEUE_DEPTH rx p of
        None \<Rightarrow> loopback_io tx rx (s\<lparr>is_rx_dropped := sat_inc (is_rx_dropped s)\<rparr>)
      | Some rx' \<Rightarrow> loopback_io tx rx' (s\<lparr>is_rx_high := max (is_rx_high s) (length rx'),
          is_rx_packets := sat_inc (is_rx_packets s)\<rparr>))"

definition service_io :: "network_interface \<Rightarrow> network_interface" where
  "service_io i =
     (let s = ni_stats i in
      case ni_kind i of
        Loopback \<Rightarrow> (case loopback_io (ni_tx i) (ni_rx i) s of (rx, s') \<Rightarrow> i\<lparr>ni_tx := [], ni_rx := rx, ni_stats := s'\<rparr>)
      | External _ \<Rightarrow>
          let s = s\<lparr>is_polls := sat_inc (is_polls s)\<rparr> in
          (case ni_backend i of
             None \<Rightarrow> i\<lparr>ni_stats := s\<rparr>
           | Some b \<Rightarrow>
               (case transport_poll b (ni_tx i) (ni_rx i) of
                  (b', tx, rx, r, d) \<Rightarrow>
                    i\<lparr>ni_backend := Some b', ni_tx := tx, ni_rx := rx,
                      ni_stats := s\<lparr>is_rx_packets := sat_add (is_rx_packets s) r,
                        is_rx_dropped := sat_add (is_rx_dropped s) d,
                        is_rx_high := max (is_rx_high s) (length rx)\<rparr>\<rparr>)))"

definition network_new :: network_stack where
  "network_new = \<lparr>ns_interfaces = [], ns_ticks = 0\<rparr>"

definition find_index :: "str \<Rightarrow> network_stack \<Rightarrow> nat option" where
  "find_index name n = position (\<lambda>i. ni_name i = name) (ns_interfaces n)"

definition add_interface :: "str \<Rightarrow> interface_kind \<Rightarrow> network_stack \<Rightarrow> (unit, net_error) result \<times> network_stack" where
  "add_interface name kind n =
     (if bounded_str MAX_IFACE_NAME name = None then (Err InvalidInterfaceName, n)
      else if find_index name n \<noteq> None then (Err InterfaceExists, n)
      else if length (ns_interfaces n) \<ge> MAX_INTERFACES then (Err QueueFull, n)
      else case interface_new name kind of
        Err e \<Rightarrow> (Err e, n)
      | Ok i \<Rightarrow>
          (case bounded_push MAX_INTERFACES (ns_interfaces n) i of
             None \<Rightarrow> (Err QueueFull, n)
           | Some is \<Rightarrow> (Ok (), n\<lparr>ns_interfaces := is\<rparr>)))"

definition add_loopback_interface :: "str \<Rightarrow> network_stack \<Rightarrow> (unit, net_error) result \<times> network_stack" where
  "add_loopback_interface name n = add_interface name Loopback n"

definition add_external_interface ::
    "str \<Rightarrow> external_backend_kind \<Rightarrow> network_stack \<Rightarrow> (unit, net_error) result \<times> network_stack" where
  "add_external_interface name k n = add_interface name (External k) n"

definition send_bytes :: "str \<Rightarrow> bytes \<Rightarrow> network_stack \<Rightarrow> (unit, net_error) result \<times> network_stack" where
  "send_bytes iface b n =
     (case packet_from_bytes b of
        Err e \<Rightarrow> (Err e, n)
      | Ok p \<Rightarrow>
          (case find_index iface n of
             None \<Rightarrow> (Err InterfaceNotFound, n)
           | Some k \<Rightarrow>
               (case enqueue_tx p (ns_interfaces n ! k) of
                  (r, i) \<Rightarrow> (r, n\<lparr>ns_interfaces := (ns_interfaces n)[k := i]\<rparr>))))"

definition recv_packet :: "str \<Rightarrow> network_stack \<Rightarrow> (net_packet option, net_error) result \<times> network_stack" where
  "recv_packet iface n =
     (case find_index iface n of
        None \<Rightarrow> (Err InterfaceNotFound, n)
      | Some k \<Rightarrow>
          (case dequeue_rx (ns_interfaces n ! k) of
             (r, i) \<Rightarrow> (Ok r, n\<lparr>ns_interfaces := (ns_interfaces n)[k := i]\<rparr>)))"

definition service :: "network_stack \<Rightarrow> network_stack" where
  "service n = n\<lparr>ns_ticks := sat_inc (ns_ticks n), ns_interfaces := map service_io (ns_interfaces n)\<rparr>"

text \<open>\<open>summary\<close>: the totals over the interface table.\<close>

record network_summary =
  su_interfaces :: nat
  su_external :: nat
  su_ticks :: u64
  su_tx_packets :: u64
  su_rx_packets :: u64
  su_tx_dropped :: u64
  su_rx_dropped :: u64
  su_tx_depth :: nat
  su_rx_depth :: nat

definition summary_add :: "network_interface \<Rightarrow> network_summary \<Rightarrow> network_summary" where
  "summary_add i out =
     (let s = ni_stats i in
      out\<lparr>su_external := su_external out + (case ni_kind i of External _ \<Rightarrow> 1 | Loopback \<Rightarrow> 0),
        su_tx_packets := sat_add (su_tx_packets out) (is_tx_packets s),
        su_rx_packets := sat_add (su_rx_packets out) (is_rx_packets s),
        su_tx_dropped := sat_add (su_tx_dropped out) (is_tx_dropped s),
        su_rx_dropped := sat_add (su_rx_dropped out) (is_rx_dropped s),
        su_tx_depth := su_tx_depth out + length (ni_tx i),
        su_rx_depth := su_rx_depth out + length (ni_rx i)\<rparr>)"

definition network_totals :: "network_stack \<Rightarrow> network_summary" where
  "network_totals n = fold summary_add (ns_interfaces n)
     \<lparr>su_interfaces = length (ns_interfaces n), su_external = 0, su_ticks = ns_ticks n, su_tx_packets = 0,
       su_rx_packets = 0, su_tx_dropped = 0, su_rx_dropped = 0, su_tx_depth = 0, su_rx_depth = 0\<rparr>"

section \<open>Counters\<close>

lemma unat_sat_inc: "unat (sat_inc (w :: u64)) = min (unat w + 1) (2 ^ 64 - 1)"
proof (cases "w = - 1")
  case True
  then show ?thesis by (simp add: sat_inc_def unsigned_minus_1_eq_mask mask_eq_exp_minus_1)
next
  case False
  then have "1 + w \<noteq> 0" by (metis add.commute add_eq_0_iff)
  then have "unat (1 + w) = Suc (unat w)" by (rule unatSuc)
  moreover have "unat (1 + w) < 2 ^ 64" using unsigned_less [where ?'a = nat, of "1 + w"] by simp
  ultimately show ?thesis using False by (simp add: sat_inc_def add.commute)
qed

lemma sat_add_0 [simp]: "sat_add (c :: u64) 0 = c"
  using unsigned_less [where ?'a = nat, of c] by (simp add: sat_add_def)

text \<open>A counter that counted \<open>k\<close> events.\<close>

definition counted :: "nat \<Rightarrow> u64 \<Rightarrow> u64 \<Rightarrow> bool" where
  "counted k c c' \<longleftrightarrow> unat c' = min (unat c + k) (2 ^ 64 - 1)"

lemma counted_0 [simp]: "counted 0 c c"
  using unsigned_less [where ?'a = nat, of c] by (simp add: counted_def)

lemma counted_Suc: "counted k (sat_inc c) c' \<Longrightarrow> counted (Suc k) c c'"
  by (auto simp: counted_def unat_sat_inc min_def)

section \<open>Delivery in order\<close>

text \<open>
  Loopback and tap move the transmit queue to the receive queue until the receive queue is full;
  what does not fit is counted as dropped.
\<close>

definition delivered :: "net_packet list \<Rightarrow> net_packet list \<Rightarrow> nat" where
  "delivered tx rx = min (length tx) (MAX_QUEUE_DEPTH - length rx)"

lemma delivered_Nil [simp]: "delivered [] rx = 0"
  by (simp add: delivered_def)

lemma delivered_Cons:
  "length rx < MAX_QUEUE_DEPTH \<Longrightarrow> delivered (p # tx) rx = Suc (delivered tx (rx @ [p]))"
  "length rx \<ge> MAX_QUEUE_DEPTH \<Longrightarrow> delivered tx rx = 0"
  by (auto simp: delivered_def min_def)

lemma delivered_le: "delivered tx rx \<le> length tx"
  by (simp add: delivered_def)

lemma take_Cons_room: "k < M \<Longrightarrow> take (M - k) (p # tx) = p # take (M - Suc k) tx"
  by (simp add: take_Cons')

lemma tap_poll_result:
  "length rx \<le> MAX_QUEUE_DEPTH \<Longrightarrow> tap_poll tx rx r d = (rx', r', d') \<Longrightarrow>
   rx' = take MAX_QUEUE_DEPTH (rx @ tx) \<and> counted (delivered tx rx) r r' \<and>
   counted (length tx - delivered tx rx) d d'"
proof (induction tx rx r d rule: tap_poll.induct)
  case (2 p tx rx r d)
  show ?case
  proof (cases "length rx < MAX_QUEUE_DEPTH")
    case True
    then have push: "bounded_push MAX_QUEUE_DEPTH rx p = Some (rx @ [p])" by (simp add: bounded_push_def)
    with 2 True show ?thesis
      by (auto simp: delivered_Cons take_Cons_room intro: counted_Suc)
  next
    case False
    then have push: "bounded_push MAX_QUEUE_DEPTH rx p = None" by (simp add: bounded_push_def)
    with 2 False show ?thesis
      by (auto simp: delivered_Cons intro: counted_Suc)
  qed
qed auto

lemma loopback_io_result:
  "length rx \<le> MAX_QUEUE_DEPTH \<Longrightarrow> loopback_io tx rx s = (rx', s') \<Longrightarrow>
   rx' = take MAX_QUEUE_DEPTH (rx @ tx) \<and> counted (delivered tx rx) (is_rx_packets s) (is_rx_packets s') \<and>
   counted (length tx - delivered tx rx) (is_rx_dropped s) (is_rx_dropped s')"
proof (induction tx rx s rule: loopback_io.induct)
  case (2 p tx rx s)
  show ?case
  proof (cases "length rx < MAX_QUEUE_DEPTH")
    case True
    then have push: "bounded_push MAX_QUEUE_DEPTH rx p = Some (rx @ [p])" by (simp add: bounded_push_def)
    with 2 True show ?thesis
      by (auto simp: delivered_Cons take_Cons_room intro: counted_Suc)
  next
    case False
    then have push: "bounded_push MAX_QUEUE_DEPTH rx p = None" by (simp add: bounded_push_def)
    with 2 False show ?thesis
      by (auto simp: delivered_Cons intro: counted_Suc)
  qed
qed auto

text \<open>The two queues of the first interface with a name, when it is a loopback or a tap.\<close>

definition plain_interface :: "network_interface \<Rightarrow> bool" where
  "plain_interface i \<longleftrightarrow> (case ni_kind i of
     Loopback \<Rightarrow> True | External k \<Rightarrow> k = StubTap \<and> ni_backend i = Some TapBackend)"

definition view :: "str \<Rightarrow> network_stack \<Rightarrow> (net_packet list \<times> net_packet list) option" where
  "view iface n =
     (case find_index iface n of
        None \<Rightarrow> None
      | Some k \<Rightarrow> let i = ns_interfaces n ! k in if plain_interface i then Some (ni_rx i, ni_tx i) else None)"

definition interface_ok :: "network_interface \<Rightarrow> bool" where
  "interface_ok i \<longleftrightarrow> length (ni_name i) \<le> MAX_IFACE_NAME \<and> length (ni_tx i) \<le> MAX_QUEUE_DEPTH \<and>
     length (ni_rx i) \<le> MAX_QUEUE_DEPTH \<and>
     is_tx_high (ni_stats i) \<le> MAX_QUEUE_DEPTH \<and> is_rx_high (ni_stats i) \<le> MAX_QUEUE_DEPTH \<and>
     (case ni_kind i of
        Loopback \<Rightarrow> ni_backend i = None
      | External VirtioNet \<Rightarrow> (\<exists>b. ni_backend i = Some (VirtioBackend b) \<and> sv_tx_ring (vs_rings b) = [] \<and>
          sv_rx_ring (vs_rings b) = [])
      | External StubTap \<Rightarrow> ni_backend i = Some TapBackend)"

definition network_ok :: "network_stack \<Rightarrow> bool" where
  "network_ok n \<longleftrightarrow> length (ns_interfaces n) \<le> MAX_INTERFACES \<and> distinct (map ni_name (ns_interfaces n)) \<and>
     list_all interface_ok (ns_interfaces n)"

lemma position_update:
  "k < length xs \<Longrightarrow> p y = p (xs ! k) \<Longrightarrow> position p (xs[k := y]) = position p xs"
proof (induction xs arbitrary: k)
  case (Cons x xs)
  then show ?case by (cases k) auto
qed simp

lemma position_map: "(\<And>x. p (f x) = p x) \<Longrightarrow> position p (map f xs) = position p xs"
  by (induction xs) auto

lemma find_index_SomeD:
  "find_index iface n = Some k \<Longrightarrow> k < length (ns_interfaces n) \<and> ni_name (ns_interfaces n ! k) = iface"
  unfolding find_index_def by (drule position_SomeD) simp

lemma find_index_update [simp]:
  "k < length (ns_interfaces n) \<Longrightarrow> ni_name i = ni_name (ns_interfaces n ! k) \<Longrightarrow>
   find_index iface (n\<lparr>ns_interfaces := (ns_interfaces n)[k := i]\<rparr>) = find_index iface n"
  by (simp add: find_index_def position_update)

lemma service_io_name [simp]: "ni_name (service_io i) = ni_name i" "ni_kind (service_io i) = ni_kind i"
  by (auto simp: service_io_def Let_def split: interface_kind.splits prod.splits option.splits)

lemma find_index_service [simp]: "find_index iface (service n) = find_index iface n"
  by (simp add: find_index_def service_def position_map)

lemma view_SomeE:
  assumes "view iface n = Some (rx, tx)"
  obtains k where "find_index iface n = Some k" "k < length (ns_interfaces n)"
    "ni_name (ns_interfaces n ! k) = iface" "plain_interface (ns_interfaces n ! k)"
    "ni_rx (ns_interfaces n ! k) = rx" "ni_tx (ns_interfaces n ! k) = tx"
  using assms find_index_SomeD [of iface n] by (auto simp: view_def Let_def split: option.splits if_splits)

lemma service_io_plain:
  assumes "plain_interface i" "length (ni_rx i) \<le> MAX_QUEUE_DEPTH"
  shows "ni_rx (service_io i) = take MAX_QUEUE_DEPTH (ni_rx i @ ni_tx i) \<and> ni_tx (service_io i) = [] \<and>
    plain_interface (service_io i)"
  using assms loopback_io_result [of "ni_rx i" "ni_tx i" "ni_stats i"] tap_poll_result [of "ni_rx i" "ni_tx i" 0 0]
  by (auto simp: service_io_def plain_interface_def Let_def split: interface_kind.splits prod.splits)

lemma plain_interface_update [simp]:
  "plain_interface (i\<lparr>ni_tx := tx\<rparr>) = plain_interface i" "plain_interface (i\<lparr>ni_rx := rx\<rparr>) = plain_interface i"
  "plain_interface (i\<lparr>ni_stats := s\<rparr>) = plain_interface i"
  by (simp_all add: plain_interface_def split: interface_kind.split)

lemma view_send:
  assumes "view iface n = Some (rx, tx)" "length tx < MAX_QUEUE_DEPTH" "length p \<le> MAX_PACKET_BYTES"
  shows "fst (send_bytes iface p n) = Ok () \<and> view iface (snd (send_bytes iface p n)) = Some (rx, tx @ [p])"
  by (rule view_SomeE [OF assms(1)])
    (use assms(2,3) in \<open>simp add: send_bytes_def packet_from_bytes_def enqueue_tx_def Let_def bounded_push_def
      view_def\<close>)

lemma view_service:
  assumes "view iface n = Some (rx, tx)" "length rx \<le> MAX_QUEUE_DEPTH"
  shows "view iface (service n) = Some (take MAX_QUEUE_DEPTH (rx @ tx), [])"
proof -
  from assms(1) obtain k where k: "find_index iface n = Some k" "k < length (ns_interfaces n)"
    "plain_interface (ns_interfaces n ! k)" "ni_rx (ns_interfaces n ! k) = rx" "ni_tx (ns_interfaces n ! k) = tx"
    by (rule view_SomeE)
  then have "ns_interfaces (service n) ! k = service_io (ns_interfaces n ! k)" by (simp add: service_def)
  with k service_io_plain [of "ns_interfaces n ! k"] assms(2) show ?thesis by (simp add: view_def)
qed

lemma view_recv:
  assumes "view iface n = Some (p # rx, tx)"
  shows "fst (recv_packet iface n) = Ok (Some p) \<and> view iface (snd (recv_packet iface n)) = Some (rx, tx)"
  by (rule view_SomeE [OF assms]) (simp add: recv_packet_def dequeue_rx_def view_def Let_def)

lemma view_recv_empty:
  assumes "view iface n = Some ([], tx)"
  shows "fst (recv_packet iface n) = Ok None"
  by (rule view_SomeE [OF assms]) (simp add: recv_packet_def dequeue_rx_def)

fun send_all :: "str \<Rightarrow> net_packet list \<Rightarrow> network_stack \<Rightarrow> network_stack" where
  "send_all iface [] n = n"
| "send_all iface (p # ps) n = send_all iface ps (snd (send_bytes iface p n))"

fun recv_all :: "str \<Rightarrow> nat \<Rightarrow> network_stack \<Rightarrow> (net_packet option, net_error) result list" where
  "recv_all iface 0 n = []"
| "recv_all iface (Suc k) n = fst (recv_packet iface n) # recv_all iface k (snd (recv_packet iface n))"

lemma view_send_all:
  "view iface n = Some (rx, tx) \<Longrightarrow> length tx + length ps \<le> MAX_QUEUE_DEPTH \<Longrightarrow>
   list_all (\<lambda>p. length p \<le> MAX_PACKET_BYTES) ps \<Longrightarrow> view iface (send_all iface ps n) = Some (rx, tx @ ps)"
  by (induction ps arbitrary: n tx) (auto simp: view_send)

lemma view_recv_all:
  "view iface n = Some (rx, tx) \<Longrightarrow> recv_all iface (length rx + 1) n = map (Ok \<circ> Some) rx @ [Ok None]"
  by (induction rx arbitrary: n) (auto simp: view_recv view_recv_empty)

section \<open>The table keeps its bounds\<close>

lemma bounded_push_length: "bounded_push cap xs x = Some ys \<Longrightarrow> length ys = Suc (length xs) \<and> length ys \<le> cap"
  by (auto simp: bounded_push_def split: if_splits)

lemma virtio_tx_result:
  "sv_tx_ring (vs_rings b) = [] \<Longrightarrow> virtio_tx tx b = (tx', b') \<Longrightarrow>
   tx' = [] \<and> sv_tx_ring (vs_rings b') = [] \<and>
   sv_rx_ring (vs_rings b') = sv_rx_ring (vs_rings b) @ take (RING_DEPTH - length (sv_rx_ring (vs_rings b))) tx"
proof (induction tx b rule: virtio_tx.induct)
  case (2 p tx b)
  let ?rx = "sv_rx_ring (vs_rings b)"
  have push: "bounded_push RING_DEPTH [] p = Some [p]" by (simp add: bounded_push_def RING_DEPTH_def)
  show ?case
  proof (cases "length ?rx < RING_DEPTH")
    case True
    with 2 push show ?thesis
      by (auto simp: submit_tx_def complete_tx_def bounded_push_def [of _ ?rx] take_Cons_room)
  next
    case False
    with 2 push show ?thesis
      by (auto simp: submit_tx_def complete_tx_def bounded_push_def [of _ ?rx])
  qed
qed auto

lemma poll_rx_descriptor_tx [simp]: "sv_tx_ring (vs_rings (snd (poll_rx_descriptor b))) = sv_tx_ring (vs_rings b)"
  by (auto simp: poll_rx_descriptor_def poll_rx_def Let_def split: list.splits)

lemma poll_rx_descriptor_NoneD: "poll_rx_descriptor b = (None, b') \<Longrightarrow> sv_rx_ring (vs_rings b') = []"
  by (auto simp: poll_rx_descriptor_def poll_rx_def Let_def split: list.splits if_splits)

text \<open>The receive loop empties the ring, and its queue never goes over its capacity.\<close>

lemma virtio_rx_result:
  "length rx \<le> MAX_QUEUE_DEPTH \<Longrightarrow> virtio_rx b rx r d = (b', rx', r', d') \<Longrightarrow>
   sv_rx_ring (vs_rings b') = [] \<and> sv_tx_ring (vs_rings b') = sv_tx_ring (vs_rings b) \<and>
   length rx' \<le> MAX_QUEUE_DEPTH"
proof (induction b rx r d rule: virtio_rx.induct)
  case (1 b rx r d)
  obtain o1 b1 where poll: "poll_rx_descriptor b = (o1, b1)" by fastforce
  then have tx: "sv_tx_ring (vs_rings b1) = sv_tx_ring (vs_rings b)" using poll_rx_descriptor_tx [of b] by simp
  note unf = virtio_rx.simps [of b rx r d]
  show ?case
  proof (cases o1)
    case None
    with 1 poll tx poll_rx_descriptor_NoneD [of b b1] show ?thesis by (simp add: unf)
  next
    case (Some p)
    with 1 poll tx show ?thesis
      by (cases "bounded_push MAX_QUEUE_DEPTH rx p") (auto simp: unf dest: bounded_push_length)
  qed
qed

lemma loopback_high:
  "loopback_io tx rx s = (rx', s') \<Longrightarrow> is_rx_high s \<le> MAX_QUEUE_DEPTH \<Longrightarrow>
   is_rx_high s' \<le> MAX_QUEUE_DEPTH \<and> is_tx_high s' = is_tx_high s"
  by (induction tx rx s rule: loopback_io.induct) (auto split: option.splits dest: bounded_push_length)

lemma transport_poll_tap:
  "length rx \<le> MAX_QUEUE_DEPTH \<Longrightarrow> transport_poll TapBackend tx rx = (b', tx', rx', r, d) \<Longrightarrow>
   b' = TapBackend \<and> tx' = [] \<and> rx' = take MAX_QUEUE_DEPTH (rx @ tx)"
  using tap_poll_result [of rx tx 0 0] by (auto split: prod.splits)

lemma transport_poll_virtio:
  assumes "length rx \<le> MAX_QUEUE_DEPTH" "sv_tx_ring (vs_rings b) = []"
    "transport_poll (VirtioBackend b) tx rx = (b', tx', rx', r, d)"
  shows "tx' = [] \<and> length rx' \<le> MAX_QUEUE_DEPTH \<and>
    (\<exists>b1. b' = VirtioBackend b1 \<and> sv_tx_ring (vs_rings b1) = [] \<and> sv_rx_ring (vs_rings b1) = [])"
proof -
  obtain tx1 b1 where tx: "virtio_tx tx b = (tx1, b1)" by fastforce
  obtain b2 rx2 r2 d2 where rx: "virtio_rx b1 rx 0 0 = (b2, rx2, r2, d2)" by (metis prod.exhaust)
  from virtio_tx_result [OF assms(2) tx] virtio_rx_result [OF assms(1) rx] assms(3) tx rx
  show ?thesis by auto
qed

lemma service_io_ok: 
  assumes "interface_ok i"
  shows "interface_ok (service_io i)"
proof -
  obtain k b where kind: "ni_kind i = k" "ni_backend i = b" by blast
  have rx: "length (ni_rx i) \<le> MAX_QUEUE_DEPTH" using assms by (simp add: interface_ok_def)
  show ?thesis
  proof (cases k)
    case Loopback
    obtain rx' s' where io: "loopback_io (ni_tx i) (ni_rx i) (ni_stats i) = (rx', s')" by fastforce
    with loopback_io_result [OF rx io] loopback_high [OF io] assms kind Loopback show ?thesis
      by (auto simp: interface_ok_def service_io_def)
  next
    case (External e)
    obtain t where t: "b = Some t" using assms kind External
      by (cases e) (auto simp: interface_ok_def)
    obtain b' tx' rx' r d where poll: "transport_poll t (ni_tx i) (ni_rx i) = (b', tx', rx', r, d)"
      by (metis prod.exhaust)
    have s: "service_io i = i\<lparr>ni_backend := Some b', ni_tx := tx', ni_rx := rx',
      ni_stats := (ni_stats i)\<lparr>is_polls := sat_inc (is_polls (ni_stats i)),
        is_rx_packets := sat_add (is_rx_packets (ni_stats i)) r,
        is_rx_dropped := sat_add (is_rx_dropped (ni_stats i)) d,
        is_rx_high := max (is_rx_high (ni_stats i)) (length rx')\<rparr>\<rparr>"
      using kind External t poll by (simp add: service_io_def Let_def)
    show ?thesis
    proof (cases e)
      case VirtioNet
      with assms kind External t obtain v where "t = VirtioBackend v" "sv_tx_ring (vs_rings v) = []"
        by (auto simp: interface_ok_def)
      with transport_poll_virtio [OF rx, of v] poll have "tx' = [] \<and> length rx' \<le> MAX_QUEUE_DEPTH \<and>
        (\<exists>b1. b' = VirtioBackend b1 \<and> sv_tx_ring (vs_rings b1) = [] \<and> sv_rx_ring (vs_rings b1) = [])" by blast
      with assms VirtioNet kind External show ?thesis unfolding s by (auto simp: interface_ok_def)
    next
      case StubTap
      with assms kind External t have "t = TapBackend" by (auto simp: interface_ok_def)
      with transport_poll_tap [OF rx] poll have "b' = TapBackend \<and> tx' = [] \<and>
        rx' = take MAX_QUEUE_DEPTH (ni_rx i @ ni_tx i)" by blast
      with assms StubTap kind External show ?thesis unfolding s by (auto simp: interface_ok_def)
    qed
  qed
qed

datatype net_op =
    AddLoopback str | AddExternal str external_backend_kind | SendBytes str bytes | RecvPacket str | Service

fun net_step :: "network_stack \<Rightarrow> net_op \<Rightarrow> network_stack" where
  "net_step n (AddLoopback name) = snd (add_loopback_interface name n)"
| "net_step n (AddExternal name k) = snd (add_external_interface name k n)"
| "net_step n (SendBytes iface b) = snd (send_bytes iface b n)"
| "net_step n (RecvPacket iface) = snd (recv_packet iface n)"
| "net_step n Service = service n"

lemma interface_new_ok: "interface_new name kind = Ok i \<Longrightarrow> interface_ok i \<and> ni_name i = name"
  by (auto simp: interface_new_def interface_ok_def bounded_str_def stats_default_def transport_from_kind_def
      soft_virtq_new_def split: option.splits if_splits interface_kind.splits external_backend_kind.splits)

lemma add_interface_ok: "network_ok n \<Longrightarrow> network_ok (snd (add_interface name kind n))"
  by (auto simp: add_interface_def network_ok_def find_index_def position_NoneD bounded_push_def
      dest!: interface_new_ok split: result.splits option.splits if_splits)

lemma network_ok_update:
  assumes "network_ok n" "find_index iface n = Some k" "interface_ok i" "ni_name i = iface"
  shows "network_ok (n\<lparr>ns_interfaces := (ns_interfaces n)[k := i]\<rparr>)"
proof -
  have "map ni_name ((ns_interfaces n)[k := i]) = map ni_name (ns_interfaces n)"
    using find_index_SomeD [OF assms(2)] assms(4) by (auto intro!: nth_equalityI simp: nth_list_update)
  then show ?thesis using assms by (auto simp: network_ok_def list_all_iff dest!: set_update_subset_insert [THEN subsetD])
qed

lemma network_ok_nth: "network_ok n \<Longrightarrow> find_index iface n = Some k \<Longrightarrow> interface_ok (ns_interfaces n ! k)"
  using find_index_SomeD [of iface n k] by (auto simp: network_ok_def list_all_length)

lemma enqueue_tx_ok: "interface_ok i \<Longrightarrow> enqueue_tx p i = (r, i') \<Longrightarrow> interface_ok i' \<and> ni_name i' = ni_name i"
  by (auto simp: enqueue_tx_def Let_def interface_ok_def dest!: bounded_push_length
      split: option.splits interface_kind.splits external_backend_kind.splits)

lemma dequeue_rx_ok: "interface_ok i \<Longrightarrow> dequeue_rx i = (r, i') \<Longrightarrow> interface_ok i' \<and> ni_name i' = ni_name i"
  by (auto simp: dequeue_rx_def interface_ok_def split: list.splits interface_kind.splits external_backend_kind.splits)

lemma network_ok_change:
  "network_ok n \<Longrightarrow> find_index iface n = Some k \<Longrightarrow>
   (interface_ok (ns_interfaces n ! k) \<Longrightarrow> interface_ok i \<and> ni_name i = ni_name (ns_interfaces n ! k)) \<Longrightarrow>
   network_ok (n\<lparr>ns_interfaces := (ns_interfaces n)[k := i]\<rparr>)"
  using network_ok_update [of n iface k i] network_ok_nth [of n iface k] find_index_SomeD [of iface n k] by simp

interpretation netstack: machine net_step network_ok
proof unfold_locales
  fix n x
  assume ok: "network_ok n"
  show "network_ok (net_step n x)"
  proof (cases x)
    case Service
    with ok show ?thesis
      by (auto simp: service_def network_ok_def list_all_iff comp_def intro: service_io_ok)
  next
    case (SendBytes iface b)
    with ok show ?thesis
      by (auto simp: send_bytes_def split: result.splits option.splits prod.splits
          intro!: network_ok_change dest: enqueue_tx_ok)
  next
    case (RecvPacket iface)
    with ok show ?thesis
      by (auto simp: recv_packet_def split: option.splits prod.splits intro!: network_ok_change dest: dequeue_rx_ok)
  qed (use ok in \<open>auto simp: add_loopback_interface_def add_external_interface_def add_interface_ok\<close>)
qed

lemma network_new_ok: "network_ok network_new"
  by (simp add: network_ok_def network_new_def)

section \<open>What the virtio stub loses\<close>

definition rx_max :: "virtio_stub \<Rightarrow> nat" where
  "rx_max b = length (sv_rx_ring (vs_rings b)) +
     (if sv_rx_ring (vs_rings b) = [] \<and> sat_inc (vs_polls b) mod 4 \<noteq> 0 then 0 else 1)"

lemma poll_rx_descriptor_max: "poll_rx_descriptor b = (Some p, b') \<Longrightarrow> rx_max b' < rx_max b"
  using sat_inc_mod_4 [of "vs_polls b"]
  by (cases "sv_rx_ring (vs_rings b)"; cases "sat_inc (vs_polls b) mod 4 = 0")
    (clarsimp simp: poll_rx_descriptor_def poll_rx_def rx_max_def Let_def)+

lemma virtio_rx_count:
  "length rx + rx_max b \<le> MAX_QUEUE_DEPTH \<Longrightarrow> virtio_rx b rx r d = (b', rx', r', d') \<Longrightarrow>
   length rx' \<le> length rx + rx_max b \<and> d' = d"
proof (induction b rx r d rule: virtio_rx.induct)
  case (1 b rx r d)
  obtain o1 b1 where poll: "poll_rx_descriptor b = (o1, b1)" by fastforce
  note unf = virtio_rx.simps [of b rx r d]
  show ?case
  proof (cases o1)
    case (Some p)
    with poll poll_rx_descriptor_max have m: "rx_max b1 < rx_max b" by blast
    with 1(3) have push: "bounded_push MAX_QUEUE_DEPTH rx p = Some (rx @ [p])" by (simp add: bounded_push_def)
    with 1(2) [OF poll [symmetric] Some, of "rx @ [p]"] 1(3,4) m poll Some show ?thesis
      by (simp add: unf)
  qed (use 1 poll in \<open>simp add: unf\<close>)
qed

lemma rx_max_tx: "sv_tx_ring (vs_rings b) = [] \<Longrightarrow> sv_rx_ring (vs_rings b) = [] \<Longrightarrow> virtio_tx tx b = (tx', b') \<Longrightarrow>
  rx_max b' \<le> RING_DEPTH + 1"
  by (drule (1) virtio_tx_result) (auto simp: rx_max_def)



section \<open>Round trip\<close>

text \<open>
  C30: The network stack keeps its bounds and delivers in order. After any operations from the
  empty table, at most four interfaces have distinct names and queues of at most sixteen packets;
  and whatever packets are then sent on a loopback or tap interface, as long as they fit the
  queue, come back after one service pass behind those already queued, in the order sent and
  unchanged, and then the queue is empty.
\<close>

theorem network_delivers:
  assumes "n = foldl net_step network_new ops" "view iface n = Some (rx, tx)"
    and "length rx + length tx + length ps \<le> MAX_QUEUE_DEPTH"
    and "list_all (\<lambda>p. length p \<le> MAX_PACKET_BYTES) ps"
  shows "network_ok n \<and>
    recv_all iface (length (rx @ tx @ ps) + 1) (service (send_all iface ps n)) =
      map (Ok \<circ> Some) (rx @ tx @ ps) @ [Ok None]"
proof -
  have "network_ok n" unfolding assms(1) using network_new_ok by (rule netstack.inv_run)
  moreover from assms view_send_all [OF assms(2)]
  have "view iface (send_all iface ps n) = Some (rx, tx @ ps)" by simp
  from view_service [OF this] assms(3) have "view iface (service (send_all iface ps n)) = Some (rx @ tx @ ps, [])"
    by simp
  ultimately show ?thesis by (metis view_recv_all)
qed

theorem network_delivers_witness:
  "network_ok (foldl net_step network_new [AddLoopback ''lo'']) \<and>
   recv_all ''lo'' 3 (service (send_all ''lo'' [[1], [2, 3]] (foldl net_step network_new [AddLoopback ''lo'']))) =
     [Ok (Some [1]), Ok (Some [2, 3]), Ok None]"
proof -
  let ?n = "foldl net_step network_new [AddLoopback ''lo'']"
  have "view ''lo'' ?n = Some ([], [])"
    by (simp add: add_loopback_interface_def add_interface_def network_new_def find_index_def interface_new_def
        bounded_str_def bounded_push_def view_def plain_interface_def MAX_IFACE_NAME_def MAX_INTERFACES_def)
  from network_delivers [OF refl this, of "[[1], [2, 3]]"] show ?thesis
    by (simp add: MAX_QUEUE_DEPTH_def MAX_PACKET_BYTES_def numeral_3_eq_3)
qed

end
