(* ===== verification/Kernel.thy ===== *)
theory Kernel
  imports Capability Network
begin

text \<open>
  The kernel proper, \<open>src/kernel.rs\<close>: the object table and its message queues, the capability
  check every privileged entry point makes and audits, the network calls and the bridge between
  interfaces and object queues, and the dispatch of tasks over the scheduler and the core table.
  Shown: a privileged call takes effect only under a capability whose proof verifies and that
  carries the permission, such a capability is one the kernel issued, the tables keep their
  bounds and keys, and messages reach the object they name in the order sent.
\<close>

section \<open>State\<close>

definition MAX_OBJECTS :: nat where "MAX_OBJECTS = 16"
definition KERNEL_MAX_ID_LEN :: nat where "KERNEL_MAX_ID_LEN = 64"
definition MAX_IFACE_LEN :: nat where "MAX_IFACE_LEN = 16"
definition MAX_RUNTIME_TICK_CURSORS :: nat where "MAX_RUNTIME_TICK_CURSORS = 8"
definition MAX_RUNTIME_DRIVE_MODES :: nat where "MAX_RUNTIME_DRIVE_MODES = 8"

datatype kernel_error =
    InvalidCapability | ObjectNotFound | ObjectAmbiguous | PermissionDenied | MessageQueueFull | InvalidSignature
  | NetworkError | PayloadTooLarge | UnsupportedPayload | BindingTableFull | InvalidBinding | CoreAlreadyRegistered
  | KCoreNotFound | KCoreTableFull | CoreInvalidTransition | CoreRoleMismatch | KStartupMailboxBusy
  | KStartupMailboxMismatch | KStartupSequenceMismatch | KTrampolineInstallFailed

datatype drive_mode = BspProxy | LocalApic

record network_capability_stats =
  nc_send_ok :: u64
  nc_send_err :: u64
  nc_recv_ok :: u64
  nc_recv_empty :: u64
  nc_recv_err :: u64

record bridge_telemetry =
  bt_ingress_moved :: u64
  bt_egress_moved :: u64
  bt_ingress_errors :: u64
  bt_egress_errors :: u64

text \<open>Calls into the device layer, in the order they are made.\<close>

datatype device_call = RescheduleIpi u32 | ShootdownIpi u32 | PrepareDispatch u32 str | ApplyShootdown u64

text \<open>
  \<open>struct Kernel\<close>, and the statics its operations go through: the verification cache of
  \<open>src/capability.rs\<close>, the audit log of \<open>src/audit.rs\<close>, the core masks of
  \<open>src/multicore.rs\<close>, and the calls made to the device layer.
\<close>

record kernel =
  kn_objects :: "(str \<times> kernel_object) list"
  kn_scheduler :: scheduler
  kn_network_stats :: "(str \<times> network_capability_stats) list"
  kn_ingress :: "(str \<times> str) list"
  kn_egress :: "(str \<times> str) list"
  kn_telemetry :: bridge_telemetry
  kn_multicore :: multicore
  kn_tick_cursors :: "(u32 \<times> u64) list"
  kn_drive_modes :: "(u32 \<times> drive_mode) list"
  kn_cache :: verify_cache
  kn_log :: audit_log
  kn_masks :: core_masks
  kn_calls :: "device_call list"

text \<open>What the operations are given: the audit environment, the scheduler's and the trampoline code.\<close>

record kernel_env =
  ke_audit :: audit_env
  ke_sched :: sched_env
  ke_code :: trampoline_code

definition stats_zero :: network_capability_stats where
  "stats_zero = \<lparr>nc_send_ok = 0, nc_send_err = 0, nc_recv_ok = 0, nc_recv_empty = 0, nc_recv_err = 0\<rparr>"

definition telemetry_zero :: bridge_telemetry where
  "telemetry_zero = \<lparr>bt_ingress_moved = 0, bt_egress_moved = 0, bt_ingress_errors = 0, bt_egress_errors = 0\<rparr>"

definition kernel_new :: "kernel_env \<Rightarrow> core_masks \<Rightarrow> kernel" where
  "kernel_new E masks = \<lparr>kn_objects = [], kn_scheduler = scheduler_new, kn_network_stats = [], kn_ingress = [],
     kn_egress = [], kn_telemetry = telemetry_zero, kn_multicore = multicore_new (ke_code E), kn_tick_cursors = [],
     kn_drive_modes = [], kn_cache = cache_empty, kn_log = log_new, kn_masks = masks, kn_calls = []\<rparr>"

section \<open>Capabilities\<close>

definition register_object :: "kernel_env \<Rightarrow> kernel_object \<Rightarrow> kernel \<Rightarrow> capability \<times> kernel" where
  "register_object E ob k =
     (case issue (ke_audit E) (capability_new (ob_id ob)) (kn_log k) of
        (cap, l) \<Rightarrow>
          (cap, k\<lparr>kn_log := l,
             kn_objects := (case im_insert MAX_OBJECTS (ob_id ob) ob (kn_objects k) of
               Some m \<Rightarrow> m | None \<Rightarrow> kn_objects k),
             kn_network_stats := (case im_insert MAX_OBJECTS (cap_object_id cap) stats_zero (kn_network_stats k) of
               Some m \<Rightarrow> m | None \<Rightarrow> kn_network_stats k)\<rparr>))"

definition sign_capability :: "kernel_env \<Rightarrow> capability \<Rightarrow> kernel \<Rightarrow> capability \<times> kernel" where
  "sign_capability E c k = (case issue (ke_audit E) c (kn_log k) of (c', l) \<Rightarrow> (c', k\<lparr>kn_log := l\<rparr>))"

definition verification_event :: "capability \<Rightarrow> (bool, capability_error) result \<Rightarrow> event_kind \<times> u64" where
  "verification_event c r =
     (case r of
        Ok True \<Rightarrow> (CapAccepted, permission_mask c)
      | Ok False \<Rightarrow> (CapRejected, INVALID_SIGNATURE)
      | Err UnknownIssuer \<Rightarrow> (CapRejected, UNKNOWN_ISSUER)
      | Err UnsupportedFormat \<Rightarrow> (CapRejected, UNSUPPORTED_FORMAT)
      | Err PermissionSetFull \<Rightarrow> (CapRejected, INVALID_SIGNATURE))"

definition audit_verification ::
    "kernel_env \<Rightarrow> capability \<Rightarrow> (bool, capability_error) result \<Rightarrow> audit_log \<Rightarrow> audit_log" where
  "audit_verification E c r l =
     (case verification_event c r of (kind, detail) \<Rightarrow> record_event (ke_audit E) kind (cap_object_id c) detail l)"

definition verify_capability ::
    "kernel_env \<Rightarrow> capability \<Rightarrow> kernel \<Rightarrow> (bool, capability_error) result \<times> kernel" where
  "verify_capability E c k =
     (case cap_verify (ae_prims (ke_audit E)) (ae_issuer (ke_audit E)) c (kn_cache k) of
        (r, vc) \<Rightarrow> (r, k\<lparr>kn_cache := vc, kn_log := audit_verification E c r (kn_log k)\<rparr>))"

definition check_signature :: "kernel_env \<Rightarrow> capability \<Rightarrow> kernel \<Rightarrow> (unit, kernel_error) result \<times> kernel" where
  "check_signature E c k =
     (case verify_capability E c k of
        (Ok True, k') \<Rightarrow> (Ok (), k')
      | (_, k') \<Rightarrow> (Err InvalidSignature, k'))"

section \<open>Dispatch over the cores\<close>

definition runtime_tick_cursor :: "u32 \<Rightarrow> kernel \<Rightarrow> u64" where
  "runtime_tick_cursor apic k =
     (case List.find (\<lambda>e. fst e = apic) (kn_tick_cursors k) of Some e \<Rightarrow> snd e | None \<Rightarrow> 0)"

definition runtime_drive_mode :: "u32 \<Rightarrow> kernel \<Rightarrow> drive_mode" where
  "runtime_drive_mode apic k =
     (case List.find (\<lambda>e. fst e = apic) (kn_drive_modes k) of Some e \<Rightarrow> snd e | None \<Rightarrow> BspProxy)"

text \<open>The tables of per-core values: the first entry of the core is replaced, else one is pushed if it fits.\<close>

definition set_entry :: "nat \<Rightarrow> u32 \<Rightarrow> 'v \<Rightarrow> (u32 \<times> 'v) list \<Rightarrow> (u32 \<times> 'v) list" where
  "set_entry cap apic v es =
     (case position (\<lambda>e. fst e = apic) es of
        Some i \<Rightarrow> es[i := (apic, v)]
      | None \<Rightarrow> (case bounded_push cap es (apic, v) of Some es' \<Rightarrow> es' | None \<Rightarrow> es))"

definition set_runtime_drive_mode :: "u32 \<Rightarrow> drive_mode \<Rightarrow> kernel \<Rightarrow> kernel" where
  "set_runtime_drive_mode apic mode k =
     k\<lparr>kn_drive_modes := set_entry MAX_RUNTIME_DRIVE_MODES apic mode (kn_drive_modes k)\<rparr>"

definition activate_ap_local_timer :: "u32 \<Rightarrow> kernel \<Rightarrow> kernel" where
  "activate_ap_local_timer apic k = set_runtime_drive_mode apic LocalApic k"

definition next_runtime_tick :: "u32 \<Rightarrow> kernel \<Rightarrow> u64 \<times> kernel" where
  "next_runtime_tick apic k =
     (case position (\<lambda>e. fst e = apic) (kn_tick_cursors k) of
        Some i \<Rightarrow>
          let t = sat_inc (snd (kn_tick_cursors k ! i)) in
          (t, k\<lparr>kn_tick_cursors := (kn_tick_cursors k)[i := (apic, t)]\<rparr>)
      | None \<Rightarrow>
          (1, case bounded_push MAX_RUNTIME_TICK_CURSORS (kn_tick_cursors k) (apic, 1) of
                Some cs \<Rightarrow> k\<lparr>kn_tick_cursors := cs\<rparr>
              | None \<Rightarrow> k))"

definition device :: "device_call \<Rightarrow> kernel \<Rightarrow> kernel" where
  "device d k = k\<lparr>kn_calls := kn_calls k @ [d]\<rparr>"

definition request_reschedule_ipi :: "u32 \<Rightarrow> kernel \<Rightarrow> kernel" where
  "request_reschedule_ipi apic k =
     device (RescheduleIpi apic) (k\<lparr>kn_masks := request_reschedule apic (kn_masks k)\<rparr>)"

definition queue_task_to_core :: "str \<Rightarrow> kernel \<Rightarrow> kernel" where
  "queue_task_to_core oid k =
     (if cs_known (summary (kn_multicore k)) = 0 then k
      else
        let target = (case select_dispatch_core (kn_multicore k) of Some a \<Rightarrow> a | None \<Rightarrow> 0);
            k = k\<lparr>kn_multicore := snd (enqueue_core_task target oid (kn_multicore k))\<rparr> in
        if runtime_drive_mode target k = LocalApic then request_reschedule_ipi target k else k)"

definition execute_next_on_core :: "kernel_env \<Rightarrow> u32 \<Rightarrow> kernel \<Rightarrow> str option \<times> kernel" where
  "execute_next_on_core E apic k =
     (case take_task_for_core apic (kn_multicore k) of
        (None, m) \<Rightarrow> (None, k\<lparr>kn_multicore := m\<rparr>)
      | (Some oid, m) \<Rightarrow>
          if oid = [] \<or> oid = ''_'' then (Some oid, k\<lparr>kn_multicore := snd (note_dispatch apic m)\<rparr>)
          else
            (case take_queued_by_id (ke_sched E) oid 0 apic (kn_scheduler k) of
               (Some i, s) \<Rightarrow>
                 (Some i, device (PrepareDispatch apic i)
                    (k\<lparr>kn_multicore := snd (note_dispatch apic m), kn_scheduler := s\<rparr>))
             | (None, s) \<Rightarrow>
                 (None, k\<lparr>kn_multicore := snd (enqueue_core_task apic oid m), kn_scheduler := s\<rparr>)))"

fun execute_on_any :: "kernel_env \<Rightarrow> u32 list \<Rightarrow> kernel \<Rightarrow> str option \<times> kernel" where
  "execute_on_any E [] k = (None, k)"
| "execute_on_any E (apic # cs) k =
     (case execute_next_on_core E apic k of
        (Some i, k') \<Rightarrow> (Some i, k')
      | (None, k') \<Rightarrow> execute_on_any E cs k')"

definition kernel_execute_next :: "kernel_env \<Rightarrow> kernel \<Rightarrow> str option \<times> kernel" where
  "kernel_execute_next E k =
     (let global = (\<lambda>k. case sched_execute_next (ke_sched E) (kn_scheduler k) of
                      (r, s) \<Rightarrow> (r, k\<lparr>kn_scheduler := s\<rparr>)) in
      if cs_known (summary (kn_multicore k)) = 0 then global k
      else
        case (case select_dispatch_core (kn_multicore k) of
                Some apic \<Rightarrow> execute_next_on_core E apic k
              | None \<Rightarrow> (None, k)) of
          (Some i, k') \<Rightarrow> (Some i, k')
        | (None, k') \<Rightarrow>
            let online = map co_apic_id (filter (\<lambda>c. co_state c = Online) (mc_cores (kn_multicore k'))) in
            (case execute_on_any E (take 8 online) k' of
               (Some i, k'') \<Rightarrow> (Some i, k'')
             | (None, k'') \<Rightarrow> global k''))"

definition complete_running_on_core :: "kernel_env \<Rightarrow> u32 \<Rightarrow> kernel \<Rightarrow> kernel" where
  "complete_running_on_core E apic k =
     k\<lparr>kn_scheduler := complete_running_on (ke_sched E) apic (kn_scheduler k),
       kn_multicore := snd (note_completion apic (kn_multicore k))\<rparr>"

definition yield_running_on_core :: "kernel_env \<Rightarrow> u32 \<Rightarrow> kernel \<Rightarrow> str option \<times> kernel" where
  "yield_running_on_core E apic k =
     (case yield_running_on (ke_sched E) apic (kn_scheduler k) of
        (None, s) \<Rightarrow> (None, k\<lparr>kn_scheduler := s\<rparr>)
      | (Some i, s) \<Rightarrow> (Some i, queue_task_to_core i (k\<lparr>kn_scheduler := s\<rparr>)))"

definition preempt_tick_on_core :: "kernel_env \<Rightarrow> u64 \<Rightarrow> u32 \<Rightarrow> kernel \<Rightarrow> str option \<times> kernel" where
  "preempt_tick_on_core E tick apic k =
     (let m = snd (note_tick apic (kn_multicore k)) in
      case preempt_if_expired_on (ke_sched E) apic tick (kn_scheduler k) of
        (switched, s) \<Rightarrow>
          (switched, k\<lparr>kn_scheduler := s,
             kn_multicore := if switched \<noteq> None then snd (note_dispatch apic m) else m\<rparr>))"

definition preempt_tick :: "kernel_env \<Rightarrow> u64 \<Rightarrow> kernel \<Rightarrow> str option \<times> kernel" where
  "preempt_tick E tick k = preempt_tick_on_core E tick 0 k"

definition service_core_runtime_step_with_tick ::
    "kernel_env \<Rightarrow> u32 \<Rightarrow> u64 \<Rightarrow> kernel \<Rightarrow> str option \<times> kernel" where
  "service_core_runtime_step_with_tick E apic tick k =
     (case preempt_tick_on_core E tick apic k of
        (Some i, k') \<Rightarrow> (Some i, k')
      | (None, k') \<Rightarrow>
          if running_task_on (ke_sched E) apic (kn_scheduler k') \<noteq> None then (None, k')
          else execute_next_on_core E apic k')"

definition service_core_runtime_step :: "kernel_env \<Rightarrow> u32 \<Rightarrow> kernel \<Rightarrow> str option \<times> kernel" where
  "service_core_runtime_step E apic k =
     (case next_runtime_tick apic k of (t, k') \<Rightarrow> service_core_runtime_step_with_tick E apic t k')"

definition service_core_runtime_step_if_bsp_proxy :: "kernel_env \<Rightarrow> u32 \<Rightarrow> kernel \<Rightarrow> str option \<times> kernel" where
  "service_core_runtime_step_if_bsp_proxy E apic k =
     (if runtime_drive_mode apic k \<noteq> BspProxy then (None, k) else service_core_runtime_step E apic k)"

definition on_local_apic_timer_tick :: "kernel_env \<Rightarrow> u32 \<Rightarrow> kernel \<Rightarrow> str option \<times> kernel" where
  "on_local_apic_timer_tick E apic k =
     (if runtime_drive_mode apic k \<noteq> LocalApic then (None, k) else service_core_runtime_step E apic k)"

definition on_reschedule_ipi :: "kernel_env \<Rightarrow> u32 \<Rightarrow> kernel \<Rightarrow> str option \<times> kernel" where
  "on_reschedule_ipi E apic k =
     service_core_runtime_step E apic
       (k\<lparr>kn_masks := snd (take_reschedule apic (snd (note_wake_if_idle apic (kn_masks k))))\<rparr>)"

definition running_task_id_on :: "kernel_env \<Rightarrow> u32 \<Rightarrow> kernel \<Rightarrow> str option" where
  "running_task_id_on E apic k = map_option (\<lambda>rt. st_object_id (rt_task rt)) (running_task_on (ke_sched E) apic (kn_scheduler k))"

section \<open>Objects and messages\<close>

definition kernel_key :: "str \<Rightarrow> str" where
  "kernel_key i = str_or_default KERNEL_MAX_ID_LEN i"

definition find_object :: "str \<Rightarrow> kernel \<Rightarrow> kernel_object option" where
  "find_object i k = im_get (kn_objects k) (kernel_key i)"

definition put_object :: "str \<Rightarrow> kernel_object \<Rightarrow> kernel \<Rightarrow> kernel" where
  "put_object key ob k = k\<lparr>kn_objects := im_update key (\<lambda>_. ob) (kn_objects k)\<rparr>"

definition kernel_execute :: "kernel_env \<Rightarrow> capability \<Rightarrow> kernel \<Rightarrow> (unit, kernel_error) result \<times> kernel" where
  "kernel_execute E c k =
     (case check_signature E c k of
        (Err e, k) \<Rightarrow> (Err e, k)
      | (Ok _, k) \<Rightarrow>
          if \<not> has_permission c Execute then (Err PermissionDenied, k)
          else case im_get (kn_objects k) (cap_object_id c) of
            None \<Rightarrow> (Err ObjectNotFound, k)
          | Some ob \<Rightarrow>
              (Ok (), queue_task_to_core (ob_id ob)
                 (k\<lparr>kn_scheduler := schedule (ke_sched E) ob (kn_scheduler k)\<rparr>)))"

definition send_message_direct :: "str \<Rightarrow> message \<Rightarrow> kernel \<Rightarrow> (unit, kernel_error) result \<times> kernel" where
  "send_message_direct to msg k =
     (case find_object to k of
        None \<Rightarrow> (Err ObjectNotFound, k)
      | Some ob \<Rightarrow>
          if message_count ob \<ge> 8 then (Err MessageQueueFull, k)
          else case object_receive_message ob msg of
            None \<Rightarrow> (Err MessageQueueFull, k)
          | Some ob' \<Rightarrow> (Ok (), put_object (kernel_key to) ob' k))"

definition kernel_send_message ::
    "kernel_env \<Rightarrow> capability \<Rightarrow> str \<Rightarrow> message \<Rightarrow> kernel \<Rightarrow> (unit, kernel_error) result \<times> kernel" where
  "kernel_send_message E c to msg k =
     (case check_signature E c k of
        (Err e, k) \<Rightarrow> (Err e, k)
      | (Ok _, k) \<Rightarrow>
          if \<not> has_permission c SendMessage then (Err PermissionDenied, k)
          else case find_object to k of
            None \<Rightarrow> (Err ObjectNotFound, k)
          | Some ob \<Rightarrow>
              if message_count ob \<ge> 8 then (Err MessageQueueFull, k)
              else case object_receive_message ob msg of
                None \<Rightarrow> (Err MessageQueueFull, k)
              | Some ob' \<Rightarrow> (Ok (), put_object (kernel_key to) ob' k))"

definition receive_message_direct :: "str \<Rightarrow> kernel \<Rightarrow> (message option, kernel_error) result \<times> kernel" where
  "receive_message_direct i k =
     (case find_object i k of
        None \<Rightarrow> (Err ObjectNotFound, k)
      | Some ob \<Rightarrow> (case object_pop_message ob of (m, ob') \<Rightarrow> (Ok m, put_object (kernel_key i) ob' k)))"

definition kernel_receive_message ::
    "kernel_env \<Rightarrow> capability \<Rightarrow> kernel \<Rightarrow> (message option, kernel_error) result \<times> kernel" where
  "kernel_receive_message E c k =
     (case check_signature E c k of
        (Err e, k) \<Rightarrow> (Err e, k)
      | (Ok _, k) \<Rightarrow>
          if \<not> has_permission c ReceiveMessage then (Err PermissionDenied, k)
          else case im_get (kn_objects k) (cap_object_id c) of
            None \<Rightarrow> (Err ObjectNotFound, k)
          | Some ob \<Rightarrow> (case object_pop_message ob of (m, ob') \<Rightarrow> (Ok m, put_object (cap_object_id c) ob' k)))"

definition get_object :: "kernel_env \<Rightarrow> capability \<Rightarrow> kernel \<Rightarrow> (kernel_object, kernel_error) result \<times> kernel" where
  "get_object E c k =
     (case check_signature E c k of
        (Err e, k) \<Rightarrow> (Err e, k)
      | (Ok _, k) \<Rightarrow>
          if \<not> has_permission c Read then (Err PermissionDenied, k)
          else case im_get (kn_objects k) (cap_object_id c) of
            None \<Rightarrow> (Err ObjectNotFound, k)
          | Some ob \<Rightarrow> (Ok ob, k))"

definition remove_object :: "str \<Rightarrow> kernel \<Rightarrow> (unit, kernel_error) result \<times> kernel" where
  "remove_object key k =
     (case im_remove key (kn_objects k) of
        None \<Rightarrow> (Err ObjectNotFound, k)
      | Some (_, m) \<Rightarrow> (Ok (), k\<lparr>kn_objects := m\<rparr>))"

definition delete_object :: "kernel_env \<Rightarrow> capability \<Rightarrow> kernel \<Rightarrow> (unit, kernel_error) result \<times> kernel" where
  "delete_object E c k =
     (case check_signature E c k of
        (Err e, k) \<Rightarrow> (Err e, k)
      | (Ok _, k) \<Rightarrow>
          if \<not> has_permission c Delete then (Err PermissionDenied, k)
          else remove_object (cap_object_id c) k)"

definition delete_by_id :: "str \<Rightarrow> kernel \<Rightarrow> (unit, kernel_error) result \<times> kernel" where
  "delete_by_id i k = remove_object (kernel_key i) k"

definition validate_capability :: "kernel_env \<Rightarrow> capability \<Rightarrow> kernel \<Rightarrow> (unit, kernel_error) result \<times> kernel" where
  "validate_capability E c k =
     (case check_signature E c k of
        (Err e, k) \<Rightarrow> (Err e, k)
      | (Ok _, k) \<Rightarrow>
          if im_get (kn_objects k) (cap_object_id c) = None then (Err InvalidCapability, k) else (Ok (), k))"

subsection \<open>Names\<close>

fun find_by_name_loop :: "str \<Rightarrow> str option \<Rightarrow> kernel_object list \<Rightarrow> (str option, kernel_error) result" where
  "find_by_name_loop name found [] = Ok found"
| "find_by_name_loop name found (ob # obs) =
     (if ob_kind ob = name then
        if found \<noteq> None then Err ObjectNotFound else find_by_name_loop name (Some (ob_id ob)) obs
      else find_by_name_loop name found obs)"

definition find_by_name :: "str \<Rightarrow> kernel \<Rightarrow> (str, kernel_error) result" where
  "find_by_name name k =
     (case find_by_name_loop name None (map snd (kn_objects k)) of
        Err e \<Rightarrow> Err e
      | Ok None \<Rightarrow> Err ObjectNotFound
      | Ok (Some i) \<Rightarrow> Ok i)"

text \<open>One match and whether there was a second one.\<close>

definition note_match :: "bool \<Rightarrow> str \<Rightarrow> str option \<times> bool \<Rightarrow> str option \<times> bool" where
  "note_match hit i = (\<lambda>(found, ambiguous).
     if \<not> hit then (found, ambiguous) else if found \<noteq> None then (found, True) else (Some i, ambiguous))"

fun resolve_loop ::
    "str \<Rightarrow> kernel_object list \<Rightarrow> str option \<times> bool \<Rightarrow> str option \<times> bool \<Rightarrow> (str option \<times> bool) \<times> (str option \<times> bool)" where
  "resolve_loop name [] kind intent = (kind, intent)"
| "resolve_loop name (ob # obs) kind intent =
     resolve_loop name obs (note_match (ob_kind ob = name) (ob_id ob) kind)
       (note_match (ob_intent ob = name) (ob_id ob) intent)"

definition resolve_object_ref :: "str \<Rightarrow> kernel \<Rightarrow> (str, kernel_error) result" where
  "resolve_object_ref name k =
     (if name = [] then Err ObjectNotFound
      else case find_object name k of
        Some ob \<Rightarrow> Ok (ob_id ob)
      | None \<Rightarrow>
          (case resolve_loop name (map snd (kn_objects k)) (None, False) (None, False) of
             ((Some i, ambiguous), _) \<Rightarrow> if ambiguous then Err ObjectAmbiguous else Ok i
           | ((None, _), (Some i, ambiguous)) \<Rightarrow> if ambiguous then Err ObjectAmbiguous else Ok i
           | _ \<Rightarrow> Err ObjectNotFound))"

definition schedule_by_id :: "kernel_env \<Rightarrow> str \<Rightarrow> kernel \<Rightarrow> (unit, kernel_error) result \<times> kernel" where
  "schedule_by_id E i k =
     (case resolve_object_ref i k of
        Err e \<Rightarrow> (Err e, k)
      | Ok key \<Rightarrow>
          (case im_get (kn_objects k) key of
             None \<Rightarrow> (Err ObjectNotFound, k)
           | Some ob \<Rightarrow>
               (Ok (), queue_task_to_core (ob_id ob)
                  (k\<lparr>kn_scheduler := schedule (ke_sched E) ob (kn_scheduler k)\<rparr>))))"

section \<open>Network and bridge\<close>

definition bump :: "(network_capability_stats \<Rightarrow> network_capability_stats) \<Rightarrow> str \<Rightarrow> kernel \<Rightarrow> kernel" where
  "bump f i k =
     (case bounded_str KERNEL_MAX_ID_LEN i of
        None \<Rightarrow> k
      | Some key \<Rightarrow> k\<lparr>kn_network_stats := im_update key f (kn_network_stats k)\<rparr>)"

definition bump_net_send_ok :: "str \<Rightarrow> kernel \<Rightarrow> kernel" where
  "bump_net_send_ok = bump (\<lambda>s. s\<lparr>nc_send_ok := sat_inc (nc_send_ok s)\<rparr>)"

definition bump_net_send_err :: "str \<Rightarrow> kernel \<Rightarrow> kernel" where
  "bump_net_send_err = bump (\<lambda>s. s\<lparr>nc_send_err := sat_inc (nc_send_err s)\<rparr>)"

definition bump_net_recv_ok :: "str \<Rightarrow> kernel \<Rightarrow> kernel" where
  "bump_net_recv_ok = bump (\<lambda>s. s\<lparr>nc_recv_ok := sat_inc (nc_recv_ok s)\<rparr>)"

definition bump_net_recv_empty :: "str \<Rightarrow> kernel \<Rightarrow> kernel" where
  "bump_net_recv_empty = bump (\<lambda>s. s\<lparr>nc_recv_empty := sat_inc (nc_recv_empty s)\<rparr>)"

definition bump_net_recv_err :: "str \<Rightarrow> kernel \<Rightarrow> kernel" where
  "bump_net_recv_err = bump (\<lambda>s. s\<lparr>nc_recv_err := sat_inc (nc_recv_err s)\<rparr>)"

definition network_stats_for :: "str \<Rightarrow> kernel \<Rightarrow> network_capability_stats option" where
  "network_stats_for i k =
     (case bounded_str KERNEL_MAX_ID_LEN i of None \<Rightarrow> None | Some key \<Rightarrow> im_get (kn_network_stats k) key)"

definition network_send ::
    "kernel_env \<Rightarrow> capability \<Rightarrow> str \<Rightarrow> bytes \<Rightarrow> kernel \<times> network_stack \<Rightarrow>
     (unit, kernel_error) result \<times> kernel \<times> network_stack" where
  "network_send E c iface payload = (\<lambda>(k, n).
     let i = cap_object_id c in
     case check_signature E c k of
       (Err e, k) \<Rightarrow> (Err e, bump_net_send_err i k, n)
     | (Ok _, k) \<Rightarrow>
         if im_get (kn_objects k) i = None then (Err InvalidCapability, bump_net_send_err i k, n)
         else if \<not> has_permission c SendMessage then (Err PermissionDenied, bump_net_send_err i k, n)
         else case send_bytes iface payload n of
           (Ok _, n) \<Rightarrow> (Ok (), bump_net_send_ok i k, n)
         | (Err _, n) \<Rightarrow> (Err NetworkError, bump_net_send_err i k, n))"

definition network_receive ::
    "kernel_env \<Rightarrow> capability \<Rightarrow> str \<Rightarrow> kernel \<times> network_stack \<Rightarrow>
     (net_packet option, kernel_error) result \<times> kernel \<times> network_stack" where
  "network_receive E c iface = (\<lambda>(k, n).
     let i = cap_object_id c in
     case check_signature E c k of
       (Err e, k) \<Rightarrow> (Err e, bump_net_recv_err i k, n)
     | (Ok _, k) \<Rightarrow>
         if im_get (kn_objects k) i = None then (Err InvalidCapability, bump_net_recv_err i k, n)
         else if \<not> has_permission c ReceiveMessage then (Err PermissionDenied, bump_net_recv_err i k, n)
         else case recv_packet iface n of
           (Ok (Some p), n) \<Rightarrow> (Ok (Some p), bump_net_recv_ok i k, n)
         | (Ok None, n) \<Rightarrow> (Ok None, bump_net_recv_empty i k, n)
         | (Err _, n) \<Rightarrow> (Err NetworkError, bump_net_recv_err i k, n))"

definition bridge_network_to_object ::
    "kernel_env \<Rightarrow> capability \<Rightarrow> str \<Rightarrow> str \<Rightarrow> kernel \<times> network_stack \<Rightarrow>
     (bool, kernel_error) result \<times> kernel \<times> network_stack" where
  "bridge_network_to_object E c iface target s =
     (case network_receive E c iface s of
        (Err e, s) \<Rightarrow> (Err e, s)
      | (Ok None, s) \<Rightarrow> (Ok False, s)
      | (Ok (Some p), (k, n)) \<Rightarrow>
          if length p > 64 then (Err PayloadTooLarge, (k, n))
          else case message_new ''net-bridge'' target (PData p) of
            None \<Rightarrow> (Err PayloadTooLarge, (k, n))
          | Some msg \<Rightarrow>
              (case kernel_send_message E c target msg k of
                 (Err e, k) \<Rightarrow> (Err e, (k, n))
               | (Ok _, k) \<Rightarrow> (Ok True, (k, n))))"

fun payload_bytes :: "message_payload \<Rightarrow> (bytes, kernel_error) result" where
  "payload_bytes (PData d) = Ok d"
| "payload_bytes (PText t) = (if length t \<le> 64 then Ok (as_bytes t) else Err PayloadTooLarge)"
| "payload_bytes (PCommand t) = (if length t \<le> 64 then Ok (as_bytes t) else Err PayloadTooLarge)"
| "payload_bytes (PRequest _ _) = Err UnsupportedPayload"
| "payload_bytes (PResponse _) = Err UnsupportedPayload"

definition bridge_object_to_network ::
    "kernel_env \<Rightarrow> capability \<Rightarrow> str \<Rightarrow> str \<Rightarrow> kernel \<times> network_stack \<Rightarrow>
     (bool, kernel_error) result \<times> kernel \<times> network_stack" where
  "bridge_object_to_network E c source iface = (\<lambda>(k, n).
     case check_signature E c k of
       (Err e, k) \<Rightarrow> (Err e, (k, n))
     | (Ok _, k) \<Rightarrow>
         if \<not> has_permission c ReceiveMessage then (Err PermissionDenied, (k, n))
         else case receive_message_direct source k of
           (Err e, k) \<Rightarrow> (Err e, (k, n))
         | (Ok None, k) \<Rightarrow> (Ok False, (k, n))
         | (Ok (Some msg), k) \<Rightarrow>
             (case payload_bytes (msg_payload msg) of
                Err e \<Rightarrow> (Err e, (k, n))
              | Ok b \<Rightarrow>
                  (case network_send E c iface b (k, n) of
                     (Err e, s) \<Rightarrow> (Err e, s)
                   | (Ok _, s) \<Rightarrow> (Ok True, s))))"

definition bridge_bind_ingress :: "str \<Rightarrow> str \<Rightarrow> kernel \<Rightarrow> (unit, kernel_error) result \<times> kernel" where
  "bridge_bind_ingress iface oid k =
     (if find_object oid k = None then (Err ObjectNotFound, k)
      else case (bounded_str MAX_IFACE_LEN iface, bounded_str KERNEL_MAX_ID_LEN oid) of
        (Some a, Some b) \<Rightarrow>
          (case im_insert MAX_OBJECTS a b (kn_ingress k) of
             None \<Rightarrow> (Err BindingTableFull, k)
           | Some m \<Rightarrow> (Ok (), k\<lparr>kn_ingress := m\<rparr>))
      | _ \<Rightarrow> (Err InvalidBinding, k))"

definition bridge_bind_egress :: "str \<Rightarrow> str \<Rightarrow> kernel \<Rightarrow> (unit, kernel_error) result \<times> kernel" where
  "bridge_bind_egress oid iface k =
     (if find_object oid k = None then (Err ObjectNotFound, k)
      else case (bounded_str KERNEL_MAX_ID_LEN oid, bounded_str MAX_IFACE_LEN iface) of
        (Some a, Some b) \<Rightarrow>
          (case im_insert MAX_OBJECTS a b (kn_egress k) of
             None \<Rightarrow> (Err BindingTableFull, k)
           | Some m \<Rightarrow> (Ok (), k\<lparr>kn_egress := m\<rparr>))
      | _ \<Rightarrow> (Err InvalidBinding, k))"

definition bridge_clear_bindings :: "kernel \<Rightarrow> kernel" where
  "bridge_clear_bindings k = k\<lparr>kn_ingress := [], kn_egress := []\<rparr>"

text \<open>The two loops of \<open>bridge_tick\<close>; a pair counts what moved and what failed.\<close>

definition tally :: "(bool, kernel_error) result \<Rightarrow> u64 \<times> u64 \<Rightarrow> u64 \<times> u64" where
  "tally r = (\<lambda>(moved, errors).
     case r of Ok True \<Rightarrow> (sat_inc moved, errors) | Ok False \<Rightarrow> (moved, errors) | Err _ \<Rightarrow> (moved, sat_inc errors))"

fun bridge_all ::
    "('a \<Rightarrow> 'b \<Rightarrow> 's \<Rightarrow> (bool, kernel_error) result \<times> 's) \<Rightarrow> ('a \<times> 'b) list \<Rightarrow> u64 \<times> u64 \<Rightarrow> 's \<Rightarrow> (u64 \<times> u64) \<times> 's" where
  "bridge_all f [] t s = (t, s)"
| "bridge_all f ((a, b) # es) t s = (case f a b s of (r, s') \<Rightarrow> bridge_all f es (tally r t) s')"

definition bridge_tick ::
    "kernel_env \<Rightarrow> capability \<Rightarrow> kernel \<times> network_stack \<Rightarrow>
     (bridge_telemetry, kernel_error) result \<times> kernel \<times> network_stack" where
  "bridge_tick E c = (\<lambda>(k, n).
     case check_signature E c k of
       (Err e, k) \<Rightarrow> (Err e, (k, n))
     | (Ok _, k) \<Rightarrow>
         if im_get (kn_objects k) (cap_object_id c) = None then (Err InvalidCapability, (k, n))
         else
           case bridge_all (bridge_network_to_object E c) (kn_ingress k) (0, 0) (k, service n) of
             ((im, ie), (k, n)) \<Rightarrow>
               (case bridge_all (bridge_object_to_network E c) (kn_egress k) (0, 0) (k, n) of
                  ((em, ee), (k, n)) \<Rightarrow>
                    let t = kn_telemetry k in
                    (Ok \<lparr>bt_ingress_moved = im, bt_egress_moved = em, bt_ingress_errors = ie, bt_egress_errors = ee\<rparr>,
                     (k\<lparr>kn_telemetry := \<lparr>bt_ingress_moved = sat_add (bt_ingress_moved t) im,
                        bt_egress_moved = sat_add (bt_egress_moved t) em,
                        bt_ingress_errors = sat_add (bt_ingress_errors t) ie,
                        bt_egress_errors = sat_add (bt_egress_errors t) ee\<rparr>\<rparr>, service n))))"

section \<open>Cores\<close>

primrec map_multicore_error :: "multicore_error \<Rightarrow> kernel_error" where
  "map_multicore_error CoreExists = CoreAlreadyRegistered"
| "map_multicore_error CoreNotFound = KCoreNotFound"
| "map_multicore_error CoreTableFull = KCoreTableFull"
| "map_multicore_error InvalidTransition = CoreInvalidTransition"
| "map_multicore_error NotApplicationCore = CoreRoleMismatch"
| "map_multicore_error StartupMailboxBusy = KStartupMailboxBusy"
| "map_multicore_error StartupMailboxMismatch = KStartupMailboxMismatch"
| "map_multicore_error StartupSequenceMismatch = KStartupSequenceMismatch"
| "map_multicore_error TrampolineInstallFailed = KTrampolineInstallFailed"

definition on_multicore ::
    "(multicore \<Rightarrow> ('a, multicore_error) result \<times> multicore) \<Rightarrow> kernel \<Rightarrow> ('a, kernel_error) result \<times> kernel" where
  "on_multicore f k =
     (case f (kn_multicore k) of
        (r, m) \<Rightarrow> (case r of Ok a \<Rightarrow> Ok a | Err e \<Rightarrow> Err (map_multicore_error e), k\<lparr>kn_multicore := m\<rparr>))"

definition kernel_register_core :: "u32 \<Rightarrow> core_role \<Rightarrow> kernel \<Rightarrow> (unit, kernel_error) result \<times> kernel" where
  "kernel_register_core apic role = on_multicore (register_core apic role)"

definition set_core_online :: "u32 \<Rightarrow> bool \<Rightarrow> kernel \<Rightarrow> (unit, kernel_error) result \<times> kernel" where
  "set_core_online apic online = on_multicore (set_online apic online)"

definition kernel_begin_ap_startup :: "u32 \<Rightarrow> kernel \<Rightarrow> (unit, kernel_error) result \<times> kernel" where
  "kernel_begin_ap_startup apic = on_multicore (begin_ap_startup apic)"

definition kernel_plan_ap_startup :: "kernel_env \<Rightarrow> u32 \<Rightarrow> kernel \<Rightarrow> (startup_plan, kernel_error) result \<times> kernel" where
  "kernel_plan_ap_startup E apic = on_multicore (plan_ap_startup (ke_code E) apic)"

definition ap_entry_reached_with_seq :: "u32 \<Rightarrow> u32 \<Rightarrow> kernel \<Rightarrow> (unit, kernel_error) result \<times> kernel" where
  "ap_entry_reached_with_seq apic seq = on_multicore (complete_ap_startup_with_seq apic seq)"

definition kernel_complete_ap_startup :: "u32 \<Rightarrow> kernel \<Rightarrow> (unit, kernel_error) result \<times> kernel" where
  "kernel_complete_ap_startup apic = on_multicore (complete_ap_startup apic)"

definition kernel_halt_core :: "u32 \<Rightarrow> kernel \<Rightarrow> (unit, kernel_error) result \<times> kernel" where
  "kernel_halt_core apic = on_multicore (halt_core apic)"

definition request_tlb_shootdown_ipi :: "u32 \<Rightarrow> u64 \<Rightarrow> kernel \<Rightarrow> kernel" where
  "request_tlb_shootdown_ipi apic page k =
     device (ShootdownIpi apic) (k\<lparr>kn_masks := request_tlb_shootdown apic page (kn_masks k)\<rparr>)"

definition on_tlb_shootdown_ipi :: "u32 \<Rightarrow> kernel \<Rightarrow> u64 option \<times> kernel" where
  "on_tlb_shootdown_ipi apic k =
     (case take_tlb_shootdown apic (kn_masks k) of
        (None, m) \<Rightarrow> (None, k\<lparr>kn_masks := m\<rparr>)
      | (Some page, m) \<Rightarrow> (Some page, device (ApplyShootdown page) (k\<lparr>kn_masks := m\<rparr>)))"

text \<open>
  \<open>broadcast_tlb_shootdown\<close>; the wait for the acknowledgements at its end changes nothing and
  its result is not used.
\<close>

definition broadcast_tlb_shootdown :: "u64 \<Rightarrow> u32 \<Rightarrow> kernel \<Rightarrow> nat \<times> kernel" where
  "broadcast_tlb_shootdown page exclude k =
     (let targets = map co_apic_id (filter (\<lambda>c. co_apic_id c \<noteq> exclude \<and> co_state c = Online) (mc_cores (kn_multicore k)));
          mask = foldl (\<lambda>m a. if a < 64 then m OR core_bit a else m) 0 targets;
          k = device (ApplyShootdown page) k;
          k = k\<lparr>kn_masks := snd (begin_tlb_shootdown page mask (kn_masks k))\<rparr>;
          sent = take 8 targets in
      (length sent, foldl (\<lambda>k a. device (ShootdownIpi a) k) k sent))"

section \<open>The capability check\<close>

abbreviation env_prims :: "kernel_env \<Rightarrow> prims" where
  "env_prims E \<equiv> ae_prims (ke_audit E)"

abbreviation env_issuer :: "kernel_env \<Rightarrow> issuer" where
  "env_issuer E \<equiv> ae_issuer (ke_audit E)"

definition answer :: "kernel_env \<Rightarrow> capability \<Rightarrow> kernel \<Rightarrow> (bool, capability_error) result" where
  "answer E c k = fst (cap_verify (env_prims E) (env_issuer E) c (kn_cache k))"

text \<open>The state a check leaves behind: only the cache and the log move.\<close>

definition checked :: "kernel_env \<Rightarrow> capability \<Rightarrow> kernel \<Rightarrow> kernel" where
  "checked E c k = k\<lparr>kn_cache := snd (cap_verify (env_prims E) (env_issuer E) c (kn_cache k)),
     kn_log := audit_verification E c (answer E c k) (kn_log k)\<rparr>"

lemma verify_capability_eq: "verify_capability E c k = (answer E c k, checked E c k)"
  by (simp add: verify_capability_def answer_def checked_def split: prod.splits)

lemma check_signature_eq:
  "check_signature E c k = (if answer E c k = Ok True then Ok () else Err InvalidSignature, checked E c k)"
  by (auto simp: check_signature_def verify_capability_eq split: result.splits bool.splits)

lemma checked_fields [simp]:
  "kn_objects (checked E c k) = kn_objects k" "kn_scheduler (checked E c k) = kn_scheduler k"
  "kn_network_stats (checked E c k) = kn_network_stats k" "kn_ingress (checked E c k) = kn_ingress k"
  "kn_egress (checked E c k) = kn_egress k" "kn_telemetry (checked E c k) = kn_telemetry k"
  "kn_multicore (checked E c k) = kn_multicore k" "kn_tick_cursors (checked E c k) = kn_tick_cursors k"
  "kn_drive_modes (checked E c k) = kn_drive_modes k" "kn_masks (checked E c k) = kn_masks k"
  "kn_calls (checked E c k) = kn_calls k"
  "kn_log (checked E c k) = audit_verification E c (answer E c k) (kn_log k)"
  by (simp_all add: checked_def)

lemma checked_cache [intro]:
  "cache_inv (env_prims E) (env_issuer E) (kn_cache k) \<Longrightarrow> cache_inv (env_prims E) (env_issuer E) (kn_cache (checked E c k))"
  by (simp add: checked_def cap_verify_inv)

section \<open>Invariants\<close>

definition object_ok :: "kernel_object \<Rightarrow> bool" where
  "object_ok ob \<longleftrightarrow> length (ob_id ob) \<le> KERNEL_MAX_ID_LEN \<and> length (ob_queue ob) \<le> MAX_MESSAGES"

definition table_ok :: "(str \<times> 'v) list \<Rightarrow> bool" where
  "table_ok m \<longleftrightarrow> im_wf m \<and> length m \<le> MAX_OBJECTS"

definition objects_ok :: "(str \<times> kernel_object) list \<Rightarrow> bool" where
  "objects_ok m \<longleftrightarrow> table_ok m \<and> (\<forall>(key, ob) \<in> set m. ob_id ob = key \<and> object_ok ob)"

definition dispatch_ok :: "kernel \<Rightarrow> bool" where
  "dispatch_ok k \<longleftrightarrow> sched_inv (kn_scheduler k) \<and> mc_inv (kn_multicore k) \<and>
     length (kn_tick_cursors k) \<le> MAX_RUNTIME_TICK_CURSORS \<and> length (kn_drive_modes k) \<le> MAX_RUNTIME_DRIVE_MODES"

definition kernel_ok :: "kernel_env \<Rightarrow> kernel \<Rightarrow> bool" where
  "kernel_ok E k \<longleftrightarrow> objects_ok (kn_objects k) \<and> table_ok (kn_network_stats k) \<and> table_ok (kn_ingress k) \<and>
     table_ok (kn_egress k) \<and> cache_inv (env_prims E) (env_issuer E) (kn_cache k) \<and> dispatch_ok k"

lemma kernel_new_ok: "kernel_ok E (kernel_new E masks)"
proof -
  have "mc_inv (multicore_new (ke_code E))" by (auto simp: mc_inv_def multicore_new_def)
  then show ?thesis
    by (simp add: kernel_ok_def kernel_new_def objects_ok_def table_ok_def im_wf_def cache_inv_empty dispatch_ok_def
        sched_inv_def scheduler_new_def)
qed

subsection \<open>Tables\<close>

lemma im_insert_set: "im_insert cap key v m = Some m' \<Longrightarrow> set m' \<subseteq> insert (key, v) (set m)"
  by (auto simp: im_insert_def dest!: bounded_push_SomeD set_update_subset_insert [THEN subsetD] split: option.splits)

lemma table_ok_insert: "table_ok m \<Longrightarrow> im_insert MAX_OBJECTS key v m = Some m' \<Longrightarrow> table_ok m'"
  using im.wf_ins [of m MAX_OBJECTS key v m'] by (simp add: table_ok_def)

lemma objects_ok_insert:
  "objects_ok m \<Longrightarrow> object_ok ob \<Longrightarrow> im_insert MAX_OBJECTS (ob_id ob) ob m = Some m' \<Longrightarrow> objects_ok m'"
  using im_insert_set [of MAX_OBJECTS "ob_id ob" ob m m'] table_ok_insert [of m "ob_id ob" ob m']
  by (auto simp: objects_ok_def)

lemma im_update_fst [simp]: "map fst (im_update key f m) = map fst m" "length (im_update key f m) = length m"
  by (auto simp: im_update_def)

lemma im_get_update: "im_get (im_update key f m) j = (if j = key then map_option f (im_get m j) else im_get m j)"
  unfolding im_get_def im_update_def by (induction m) auto

lemma table_ok_update: "table_ok m \<Longrightarrow> table_ok (im_update key f m)"
  by (simp add: table_ok_def im_wf_def)

lemma objects_ok_update:
  "objects_ok m \<Longrightarrow> object_ok ob \<Longrightarrow> ob_id ob = key \<Longrightarrow> objects_ok (im_update key (\<lambda>_. ob) m)"
  using table_ok_update [of m key "\<lambda>_. ob"] by (fastforce simp: objects_ok_def im_update_def split: if_splits)

lemma objects_ok_get: "objects_ok m \<Longrightarrow> im_get m key = Some ob \<Longrightarrow> ob_id ob = key \<and> object_ok ob"
  by (auto simp: objects_ok_def im_get_def dest: map_of_SomeD)

lemma swap_remove_set: "i < length m \<Longrightarrow> set (swap_remove m i) \<subseteq> set m"
  using swap_remove_mset [of i m] by (metis set_mset_mset set_mset_add_mset_insert subset_insertI)

lemma im_remove_ok: "objects_ok m \<Longrightarrow> im_remove key m = Some (ob, m') \<Longrightarrow> objects_ok m'"
  using im.wf_rem [of m key ob m'] swap_remove_set [of _ m]
  by (fastforce simp: objects_ok_def table_ok_def im_remove_def dest!: position_SomeD split: option.splits)

subsection \<open>Dispatch\<close>

text \<open>Dispatching moves the scheduler, the core table and what goes with them, and nothing else.\<close>

definition dispatches :: "kernel \<Rightarrow> kernel \<Rightarrow> bool" where
  "dispatches k k' \<longleftrightarrow> (dispatch_ok k \<longrightarrow> dispatch_ok k') \<and> kn_objects k' = kn_objects k \<and>
     kn_network_stats k' = kn_network_stats k \<and> kn_ingress k' = kn_ingress k \<and> kn_egress k' = kn_egress k \<and>
     kn_telemetry k' = kn_telemetry k \<and> kn_cache k' = kn_cache k \<and> kn_log k' = kn_log k"

lemma dispatches_refl [simp]: "dispatches k k"
  by (simp add: dispatches_def)

lemma dispatches_trans: "dispatches k k1 \<Longrightarrow> dispatches k1 k2 \<Longrightarrow> dispatches k k2"
  by (auto simp: dispatches_def)

lemma dispatches_ok: "dispatches k k' \<Longrightarrow> kernel_ok E k \<Longrightarrow> kernel_ok E k'"
  by (auto simp: kernel_ok_def dispatches_def)

lemma dispatches_update:
  "(sched_inv (kn_scheduler k) \<Longrightarrow> mc_inv (kn_multicore k) \<Longrightarrow> sched_inv s \<and> mc_inv m) \<Longrightarrow>
   dispatches k (k\<lparr>kn_scheduler := s, kn_multicore := m\<rparr>)"
  by (auto simp: dispatches_def dispatch_ok_def)

lemma dispatches_device [simp]: "dispatches k (device d k')  = dispatches k k'"
  by (simp add: dispatches_def device_def dispatch_ok_def)

lemma dispatches_masks [simp]: "dispatches k (k'\<lparr>kn_masks := m\<rparr>) = dispatches k k'"
  by (simp add: dispatches_def dispatch_ok_def)

lemmas mc_steps = cores.inv_step [of _ _ "EnqueueTask apic oid" for apic oid, simplified]
  cores.inv_step [of _ _ "NoteTick apic" for apic, simplified]
  cores.inv_step [of _ _ "NoteDispatch apic" for apic, simplified]
  cores.inv_step [of _ _ "NoteCompletion apic" for apic, simplified]
  cores.inv_step [of _ _ "TakeTask apic" for apic, simplified]

lemma sched_steps:
  assumes "sort_ok V" "sched_inv s"
  shows "sched_inv (schedule V ob s)" "sched_inv (snd (execute_next_on_at V apic tick s))"
    "sched_inv (snd (preempt_if_expired_on V apic tick s))" "sched_inv (complete_running_on V apic s)"
    "sched_inv (snd (yield_running_on V apic s))" "sched_inv (snd (take_queued_by_id V oid tick apic s))"
  using sched_step_tasks [OF assms, of "Schedule ob"] sched_step_tasks [OF assms, of "ExecuteNext apic tick"]
    sched_step_tasks [OF assms, of "Preempt apic tick"] sched_step_tasks [OF assms, of "Complete apic"]
    sched_step_tasks [OF assms, of "Yield apic"] sched_step_tasks [OF assms, of "TakeQueued oid tick apic"]
  by simp_all

lemma queue_task_to_core_dispatches [simp]: "dispatches k (queue_task_to_core oid k)"
  using mc_steps(1)
  by (auto simp: queue_task_to_core_def Let_def request_reschedule_ipi_def dispatches_def dispatch_ok_def device_def)

lemma execute_next_on_core_dispatches:
  assumes "sort_ok (ke_sched E)"
  shows "dispatches k (snd (execute_next_on_core E apic k))"
proof -
  obtain r m where t: "take_task_for_core apic (kn_multicore k) = (r, m)" by fastforce
  have m: "mc_inv (kn_multicore k) \<Longrightarrow> mc_inv m" using mc_steps(5) [of "kn_multicore k" apic] t by simp
  show ?thesis
  proof (cases r)
    case None
    with t m show ?thesis by (auto simp: execute_next_on_core_def dispatches_def dispatch_ok_def)
  next
    case (Some oid)
    obtain i s where q: "take_queued_by_id (ke_sched E) oid 0 apic (kn_scheduler k) = (i, s)" by fastforce
    have "sched_inv (kn_scheduler k) \<Longrightarrow> sched_inv s" using sched_steps(6) [OF assms, of "kn_scheduler k" oid 0 apic] q by simp
    with Some t q m mc_steps(1,3) show ?thesis
      by (auto simp: execute_next_on_core_def dispatches_def dispatch_ok_def device_def split: option.splits)
  qed
qed

lemma execute_on_any_dispatches:
  "sort_ok (ke_sched E) \<Longrightarrow> dispatches k (snd (execute_on_any E cs k))"
proof (induction E cs k rule: execute_on_any.induct)
  case (2 E apic cs k)
  with execute_next_on_core_dispatches [of E k apic] show ?case
    by (auto split: prod.splits option.splits intro: dispatches_trans)
qed simp

lemma global_dispatches:
  "sort_ok (ke_sched E) \<Longrightarrow> sched_execute_next (ke_sched E) (kn_scheduler k) = (r, s) \<Longrightarrow>
   dispatches k (k\<lparr>kn_scheduler := s\<rparr>)"
  using sched_steps(2) [of "ke_sched E" "kn_scheduler k" 0 0]
  by (auto simp: dispatches_def dispatch_ok_def sched_execute_next_def execute_next_at_def execute_next_on_def)

lemma kernel_execute_next_dispatches:
  assumes "sort_ok (ke_sched E)"
  shows "dispatches k (snd (kernel_execute_next E k))"
proof -
  obtain r k1 where first: "(case select_dispatch_core (kn_multicore k) of
      Some apic \<Rightarrow> execute_next_on_core E apic k | None \<Rightarrow> (None, k)) = (r, k1)" by fastforce
  have d1: "dispatches k k1"
    using first execute_next_on_core_dispatches [OF assms, of k] by (auto split: option.splits dest!: arg_cong [where f = snd])
  obtain r2 k2 where any: "execute_on_any E (take 8 (map co_apic_id (filter (\<lambda>c. co_state c = Online)
      (mc_cores (kn_multicore k1))))) k1 = (r2, k2)" by fastforce
  from execute_on_any_dispatches [OF assms, of k1] any have "dispatches k1 k2" by (metis snd_conv)
  with d1 have d2: "dispatches k k2" by (rule dispatches_trans)
  show ?thesis
    using first any d1 d2 global_dispatches [OF assms] dispatches_trans [OF d2]
    by (auto simp: kernel_execute_next_def Let_def split: option.splits prod.splits)
qed

lemma next_runtime_tick_dispatches [simp]: "dispatches k (snd (next_runtime_tick apic k))"
  by (auto simp: next_runtime_tick_def Let_def dispatches_def dispatch_ok_def dest: bounded_push_length split: option.splits)

lemma preempt_tick_on_core_dispatches:
  assumes "sort_ok (ke_sched E)"
  shows "dispatches k (snd (preempt_tick_on_core E tick apic k))"
  using sched_steps(3) [OF assms, of "kn_scheduler k" apic tick] mc_steps(2,3)
  by (auto simp: preempt_tick_on_core_def Let_def dispatches_def dispatch_ok_def split: prod.splits)

lemma service_step_dispatches:
  assumes "sort_ok (ke_sched E)"
  shows "dispatches k (snd (service_core_runtime_step E apic k))"
proof -
  obtain t k1 where t: "next_runtime_tick apic k = (t, k1)" by fastforce
  obtain r k2 where p: "preempt_tick_on_core E t apic k1 = (r, k2)" by fastforce
  have "dispatches k k1" using next_runtime_tick_dispatches [of k apic] t by simp
  moreover have "dispatches k1 k2" using preempt_tick_on_core_dispatches [OF assms, of k1 t apic] p by simp
  ultimately have d: "dispatches k k2" by (rule dispatches_trans)
  with t p dispatches_trans [OF d execute_next_on_core_dispatches [OF assms, of k2 apic]] show ?thesis
    by (auto simp: service_core_runtime_step_def service_core_runtime_step_with_tick_def split: option.splits)
qed

lemma yield_dispatches:
  assumes "sort_ok (ke_sched E)"
  shows "dispatches k (snd (yield_running_on_core E apic k))"
proof -
  obtain r s where y: "yield_running_on (ke_sched E) apic (kn_scheduler k) = (r, s)" by fastforce
  with sched_steps(5) [OF assms, of "kn_scheduler k" apic] have "dispatches k (k\<lparr>kn_scheduler := s\<rparr>)"
    by (auto simp: dispatches_def dispatch_ok_def)
  with y show ?thesis
    by (auto simp: yield_running_on_core_def split: option.splits intro: dispatches_trans queue_task_to_core_dispatches)
qed

lemma schedule_dispatches:
  assumes "sort_ok (ke_sched E)"
  shows "dispatches k (queue_task_to_core oid (k\<lparr>kn_scheduler := schedule (ke_sched E) ob (kn_scheduler k)\<rparr>))"
proof (rule dispatches_trans)
  show "dispatches k (k\<lparr>kn_scheduler := schedule (ke_sched E) ob (kn_scheduler k)\<rparr>)"
    using sched_steps(1) [OF assms, of "kn_scheduler k" ob] by (auto simp: dispatches_def dispatch_ok_def)
qed (rule queue_task_to_core_dispatches)

lemma set_entry_length: "length es \<le> cap \<Longrightarrow> length (set_entry cap apic v es) \<le> cap"
  by (auto simp: set_entry_def dest: bounded_push_length split: option.splits)

lemma misc_dispatches:
  "sort_ok (ke_sched E) \<Longrightarrow> dispatches k (complete_running_on_core E apic k)"
  "dispatches k (set_runtime_drive_mode apic mode k)"
  using sched_steps(4) [of "ke_sched E" "kn_scheduler k" apic] mc_steps(4)
  by (auto simp: complete_running_on_core_def set_runtime_drive_mode_def dispatches_def dispatch_ok_def set_entry_length)

lemma on_multicore_dispatches:
  "(\<And>m. mc_inv m \<Longrightarrow> mc_inv (snd (f m))) \<Longrightarrow> dispatches k (snd (on_multicore f k))"
  by (auto simp: on_multicore_def dispatches_def dispatch_ok_def split: prod.splits) (metis snd_conv)+

lemma shootdown_dispatches:
  "dispatches k (request_tlb_shootdown_ipi apic page k)" "dispatches k (snd (on_tlb_shootdown_ipi apic k))"
  "dispatches k (snd (broadcast_tlb_shootdown page apic k))"
proof -
  show "dispatches k (request_tlb_shootdown_ipi apic page k)" "dispatches k (snd (on_tlb_shootdown_ipi apic k))"
    by (auto simp: request_tlb_shootdown_ipi_def on_tlb_shootdown_ipi_def split: prod.splits option.splits)
  have "dispatches k k' \<Longrightarrow> dispatches k (foldl (\<lambda>k a. device (ShootdownIpi a) k) k' xs)" for k' xs
    by (induction xs arbitrary: k') auto
  then show "dispatches k (snd (broadcast_tlb_shootdown page apic k))"
    by (auto simp: broadcast_tlb_shootdown_def Let_def)
qed

section \<open>Calls under a capability\<close>

datatype call =
    CallExecute | CallSend str message | CallReceive | CallGet | CallDelete | CallNetSend str bytes | CallNetReceive str

datatype reply = Done | Got "message option" | Found kernel_object | Packet "net_packet option" | Failed kernel_error

primrec needs :: "call \<Rightarrow> permission" where
  "needs CallExecute = Execute"
| "needs (CallSend to msg) = SendMessage"
| "needs CallReceive = ReceiveMessage"
| "needs CallGet = Read"
| "needs CallDelete = Delete"
| "needs (CallNetSend iface b) = SendMessage"
| "needs (CallNetReceive iface) = ReceiveMessage"

definition to_reply :: "('a \<Rightarrow> reply) \<Rightarrow> ('a, kernel_error) result \<Rightarrow> reply" where
  "to_reply f r = (case r of Ok a \<Rightarrow> f a | Err e \<Rightarrow> Failed e)"

fun kernel_call :: "kernel_env \<Rightarrow> capability \<Rightarrow> call \<Rightarrow> kernel \<times> network_stack \<Rightarrow> reply \<times> kernel \<times> network_stack" where
  "kernel_call E c CallExecute (k, n) = (case kernel_execute E c k of (r, k') \<Rightarrow> (to_reply (\<lambda>_. Done) r, k', n))"
| "kernel_call E c (CallSend to msg) (k, n) =
     (case kernel_send_message E c to msg k of (r, k') \<Rightarrow> (to_reply (\<lambda>_. Done) r, k', n))"
| "kernel_call E c CallReceive (k, n) = (case kernel_receive_message E c k of (r, k') \<Rightarrow> (to_reply Got r, k', n))"
| "kernel_call E c CallGet (k, n) = (case get_object E c k of (r, k') \<Rightarrow> (to_reply Found r, k', n))"
| "kernel_call E c CallDelete (k, n) = (case delete_object E c k of (r, k') \<Rightarrow> (to_reply (\<lambda>_. Done) r, k', n))"
| "kernel_call E c (CallNetSend iface b) s = (case network_send E c iface b s of (r, s') \<Rightarrow> (to_reply (\<lambda>_. Done) r, s'))"
| "kernel_call E c (CallNetReceive iface) s = (case network_receive E c iface s of (r, s') \<Rightarrow> (to_reply Packet r, s'))"

lemma to_reply_simps [simp]: "to_reply f (Ok a) = f a" "to_reply f (Err e) = Failed e"
  by (simp_all add: to_reply_def)

text \<open>What a refused call leaves as it was.\<close>

definition unaffected :: "kernel \<Rightarrow> kernel \<Rightarrow> bool" where
  "unaffected k k' \<longleftrightarrow> kn_objects k' = kn_objects k \<and> kn_scheduler k' = kn_scheduler k \<and>
     kn_multicore k' = kn_multicore k \<and> kn_ingress k' = kn_ingress k \<and> kn_egress k' = kn_egress k \<and>
     kn_telemetry k' = kn_telemetry k \<and> kn_tick_cursors k' = kn_tick_cursors k \<and>
     kn_drive_modes k' = kn_drive_modes k \<and> kn_masks k' = kn_masks k \<and> kn_calls k' = kn_calls k"

lemma bump_fields [simp]:
  "kn_objects (bump f i k) = kn_objects k" "kn_log (bump f i k) = kn_log k" "kn_cache (bump f i k) = kn_cache k"
  "kn_ingress (bump f i k) = kn_ingress k" "kn_egress (bump f i k) = kn_egress k"
  "unaffected k' (bump f i k) = unaffected k' k" "dispatch_ok (bump f i k) = dispatch_ok k"
  by (auto simp: bump_def unaffected_def dispatch_ok_def split: option.splits)

lemma bump_stats: "table_ok (kn_network_stats k) \<Longrightarrow> table_ok (kn_network_stats (bump f i k))"
  by (auto simp: bump_def table_ok_update split: option.splits)

lemmas bumps = bump_net_send_ok_def bump_net_send_err_def bump_net_recv_ok_def bump_net_recv_empty_def
  bump_net_recv_err_def

lemma unaffected_checked [simp]: "unaffected k (checked E c k)"
  by (simp add: unaffected_def)

lemma queue_task_log [simp]: "kn_log (queue_task_to_core oid k) = kn_log k"
  by (simp add: queue_task_to_core_def Let_def request_reschedule_ipi_def device_def)

definition authorised :: "kernel_env \<Rightarrow> capability \<Rightarrow> call \<Rightarrow> kernel \<Rightarrow> bool" where
  "authorised E c x k \<longleftrightarrow> answer E c k = Ok True \<and> has_permission c (needs x)"

lemmas call_defs = kernel_execute_def kernel_send_message_def kernel_receive_message_def get_object_def
  delete_object_def remove_object_def network_send_def network_receive_def check_signature_eq Let_def

lemma kernel_call_refused:
  "\<not> authorised E c x k \<Longrightarrow> \<exists>e k'. kernel_call E c x (k, n) = (Failed e, k', n) \<and> unaffected k k'"
  by (cases x) (auto simp: authorised_def call_defs bumps)

lemma kernel_call_failed:
  "kernel_call E c x (k, n) = (Failed e, k', n') \<Longrightarrow> unaffected k k'"
  by (cases x) (auto simp: call_defs bumps to_reply_def split: if_splits option.splits prod.splits result.splits)

lemma kernel_call_log:
  "kernel_call E c x (k, n) = (r, k', n') \<Longrightarrow> kn_log k' = audit_verification E c (answer E c k) (kn_log k)"
  by (cases x) (auto simp: call_defs bumps put_object_def split: if_splits option.splits prod.splits result.splits)

section \<open>All operations keep the invariant\<close>

definition state_ok :: "kernel_env \<Rightarrow> kernel \<times> network_stack \<Rightarrow> bool" where
  "state_ok E s \<longleftrightarrow> kernel_ok E (fst s) \<and> network_ok (snd s)"

lemma kernel_ok_checked [simp]: "kernel_ok E k \<Longrightarrow> kernel_ok E (checked E c k)"
  by (auto simp: kernel_ok_def dispatch_ok_def)

lemma kernel_ok_bump [simp]: "kernel_ok E k \<Longrightarrow> kernel_ok E (bump f i k)"
  by (simp add: kernel_ok_def bump_stats)

lemma kernel_ok_put: "kernel_ok E k \<Longrightarrow> object_ok ob \<Longrightarrow> ob_id ob = key \<Longrightarrow> kernel_ok E (put_object key ob k)"
  by (simp add: kernel_ok_def put_object_def objects_ok_update dispatch_ok_def)

lemma kernel_ok_get: "kernel_ok E k \<Longrightarrow> im_get (kn_objects k) key = Some ob \<Longrightarrow> ob_id ob = key \<and> object_ok ob"
  unfolding kernel_ok_def by (blast dest: objects_ok_get)

lemma object_receive_ok:
  "object_receive_message ob m = Some ob' \<Longrightarrow> object_ok ob \<Longrightarrow> object_ok ob' \<and> ob_id ob' = ob_id ob"
  by (auto simp: object_receive_message_def object_ok_def dest: bounded_push_length)

lemma object_pop_ok: "object_pop_message ob = (m, ob') \<Longrightarrow> object_ok ob \<Longrightarrow> object_ok ob' \<and> ob_id ob' = ob_id ob"
  by (auto simp: object_pop_message_def object_ok_def split: list.splits)

lemma kernel_ok_remove: "kernel_ok E k \<Longrightarrow> kernel_ok E (snd (remove_object key k))"
  by (auto simp: remove_object_def kernel_ok_def dispatch_ok_def dest: im_remove_ok split: option.splits)

lemma kernel_ok_queue: "kernel_ok E k \<Longrightarrow> sort_ok (ke_sched E) \<Longrightarrow>
    kernel_ok E (queue_task_to_core oid (k\<lparr>kn_scheduler := schedule (ke_sched E) ob (kn_scheduler k)\<rparr>))"
  by (rule dispatches_ok [OF schedule_dispatches])

lemma send_message_direct_ok: "kernel_ok E k \<Longrightarrow> kernel_ok E (snd (send_message_direct to msg k))"
  using kernel_ok_get [of E k "kernel_key to"]
  by (auto simp: send_message_direct_def find_object_def dest: object_receive_ok
      intro!: kernel_ok_put split: option.splits)

lemma receive_message_direct_ok: "kernel_ok E k \<Longrightarrow> kernel_ok E (snd (receive_message_direct i k))"
  using kernel_ok_get [of E k "kernel_key i"]
  by (auto simp: receive_message_direct_def find_object_def dest: object_pop_ok
      intro!: kernel_ok_put split: option.splits prod.splits)

lemma kernel_send_message_eq:
  "kernel_send_message E c to msg k =
     (if answer E c k \<noteq> Ok True then (Err InvalidSignature, checked E c k)
      else if \<not> has_permission c SendMessage then (Err PermissionDenied, checked E c k)
      else send_message_direct to msg (checked E c k))"
  by (simp add: kernel_send_message_def check_signature_eq send_message_direct_def)

lemma kernel_send_message_ok: "kernel_ok E k \<Longrightarrow> kernel_ok E (snd (kernel_send_message E c to msg k))"
  by (simp add: kernel_send_message_eq send_message_direct_ok)

lemma net_steps:
  "network_ok n \<Longrightarrow> network_ok (snd (send_bytes iface b n))" "network_ok n \<Longrightarrow> network_ok (snd (recv_packet iface n))"
  "network_ok n \<Longrightarrow> network_ok (service n)"
  using netstack.inv_step [of n "SendBytes iface b"] netstack.inv_step [of n "RecvPacket iface"]
    netstack.inv_step [of n Service] by simp_all

lemma network_send_ok: "state_ok E s \<Longrightarrow> state_ok E (snd (network_send E c iface b s))"
  using net_steps(1) [of "snd s" iface b]
  by (cases s) (auto simp: state_ok_def network_send_def check_signature_eq Let_def bumps split: prod.splits result.splits)

lemma network_receive_ok: "state_ok E s \<Longrightarrow> state_ok E (snd (network_receive E c iface s))"
  using net_steps(2) [of "snd s" iface]
  by (cases s) (auto simp: state_ok_def network_receive_def check_signature_eq Let_def bumps
      split: prod.splits result.splits option.splits)

lemma kernel_call_ok:
  assumes "sort_ok (ke_sched E)" "state_ok E s"
  shows "state_ok E (snd (kernel_call E c x s))"
proof -
  obtain k n where s: "s = (k, n)" by fastforce
  have k: "kernel_ok E (checked E c k)" "network_ok n" using assms(2) s by (auto simp: state_ok_def)
  show ?thesis
  proof (cases x)
    case CallExecute
    with k s kernel_ok_queue [OF k(1) assms(1)] show ?thesis
      by (auto simp: state_ok_def kernel_execute_def check_signature_eq split: option.splits)
  next
    case (CallSend to msg)
    with k s assms kernel_send_message_ok [of E k c to msg] show ?thesis
      by (auto simp: state_ok_def split: prod.splits)
  next
    case CallReceive
    with k s kernel_ok_get [OF k(1), of "cap_object_id c"] show ?thesis
      by (auto simp: state_ok_def kernel_receive_message_def check_signature_eq split: option.splits prod.splits
          dest: object_pop_ok intro!: kernel_ok_put)
  next
    case CallDelete
    with k s kernel_ok_remove [OF k(1), of "cap_object_id c"] show ?thesis
      by (auto simp: state_ok_def delete_object_def check_signature_eq split: prod.splits)
  next
    case (CallNetSend iface b)
    with network_send_ok [OF assms(2), of c iface b] show ?thesis by (auto split: prod.splits)
  next
    case (CallNetReceive iface)
    with network_receive_ok [OF assms(2), of c iface] show ?thesis by (auto split: prod.splits)
  qed (use k s in \<open>auto simp: state_ok_def get_object_def check_signature_eq split: option.splits\<close>)
qed

lemma bridge_in_ok:
  assumes "state_ok E s"
  shows "state_ok E (snd (bridge_network_to_object E c iface target s))"
proof -
  obtain r k n where r: "network_receive E c iface s = (r, k, n)" by (metis prod.exhaust)
  with network_receive_ok [OF assms, of c iface] have ok: "state_ok E (k, n)" by simp
  have send: "state_ok E (k', n)" if "kernel_send_message E c target msg k = (r', k')" for msg r' k'
    using kernel_send_message_ok [of E k c target msg] ok that by (simp add: state_ok_def)
  show ?thesis
    using r ok by (auto simp: bridge_network_to_object_def split: result.splits option.splits prod.splits intro: send)
qed

lemma bridge_out_ok:
  assumes "state_ok E s"
  shows "state_ok E (snd (bridge_object_to_network E c source iface s))"
proof -
  obtain k n where s: "s = (k, n)" by fastforce
  obtain r k1 where d: "receive_message_direct source (checked E c k) = (r, k1)" by fastforce
  have ok: "state_ok E (k1, n)" "state_ok E (checked E c k, n)"
    using receive_message_direct_ok [of E "checked E c k" source] d assms s by (auto simp: state_ok_def)
  have send: "state_ok E s'" if "network_send E c iface b (k1, n) = (r', s')" for b r' s'
    using network_send_ok [OF ok(1), of c iface b] that by simp
  show ?thesis
    using d s ok by (auto simp: bridge_object_to_network_def check_signature_eq
        split: result.splits option.splits prod.splits intro: send)
qed

lemma bridge_all_inv: "(\<And>a b s. P s \<Longrightarrow> P (snd (f a b s))) \<Longrightarrow> P s \<Longrightarrow> P (snd (bridge_all f es t s))"
proof (induction f es t s rule: bridge_all.induct)
  case (2 f a b es t s)
  then have "P (snd (f a b s))" by blast
  with 2 show ?case by (cases "f a b s") auto
qed simp

lemma state_ok_telemetry [simp]: "state_ok E (k\<lparr>kn_telemetry := t\<rparr>, n) = state_ok E (k, n)"
  by (simp add: state_ok_def kernel_ok_def dispatch_ok_def)

lemma bridge_tick_ok:
  assumes "state_ok E s"
  shows "state_ok E (snd (bridge_tick E c s))"
proof -
  obtain k n where s: "s = (k, n)" by fastforce
  let ?k = "checked E c k"
  have ok: "state_ok E (?k, n)" "state_ok E (?k, service n)" using assms s net_steps(3) by (auto simp: state_ok_def)
  obtain t1 k1 n1 where i: "bridge_all (bridge_network_to_object E c) (kn_ingress k) (0, 0) (?k, service n) = (t1, k1, n1)"
    by (metis prod.exhaust)
  from bridge_all_inv [where P = "state_ok E" and f = "bridge_network_to_object E c", OF bridge_in_ok ok(2)] i
  have ok1: "state_ok E (k1, n1)" by (metis snd_conv)
  obtain t2 k2 n2 where e: "bridge_all (bridge_object_to_network E c) (kn_egress k1) (0, 0) (k1, n1) = (t2, k2, n2)"
    by (metis prod.exhaust)
  from bridge_all_inv [where P = "state_ok E" and f = "bridge_object_to_network E c", OF bridge_out_ok ok1] e
  have "state_ok E (k2, n2)" by (metis snd_conv)
  then have "state_ok E (k2, service n2)" using net_steps(3) by (simp add: state_ok_def)
  with s i e ok show ?thesis
    by (auto simp: bridge_tick_def check_signature_eq Let_def split: prod.splits)
qed

subsection \<open>The whole machine\<close>

datatype kernel_op =
    CreateObject u64 str str
  | SignCapability capability
  | VerifyCapability capability
  | ValidateCapability capability
  | Call capability call
  | SendDirect str message
  | ReceiveDirect str
  | DeleteById str
  | ScheduleById str
  | BindIngress str str
  | BindEgress str str
  | ClearBindings
  | BridgeIn capability str str
  | BridgeOut capability str str
  | BridgeTick capability
  | KExecuteNext
  | KExecuteNextOn u32
  | KComplete u32
  | KYield u32
  | KPreempt u64 u32
  | RuntimeStep u32
  | RescheduleArrives u32
  | DriveMode u32 drive_mode
  | CoreRegister u32 core_role
  | CoreOnline u32 bool
  | CorePlan u32
  | CoreComplete u32 u32
  | CoreHalt u32
  | ShootdownRequest u32 u64
  | ShootdownArrives u32
  | ShootdownBroadcast u64 u32
  | NetOp net_op

fun kernel_step :: "kernel_env \<Rightarrow> kernel \<times> network_stack \<Rightarrow> kernel_op \<Rightarrow> kernel \<times> network_stack" where
  "kernel_step E (k, n) (CreateObject counter name intent) =
     (snd (register_object E (fst (new_compute counter name intent)) k), n)"
| "kernel_step E (k, n) (SignCapability c) = (snd (sign_capability E c k), n)"
| "kernel_step E (k, n) (VerifyCapability c) = (snd (verify_capability E c k), n)"
| "kernel_step E (k, n) (ValidateCapability c) = (snd (validate_capability E c k), n)"
| "kernel_step E (k, n) (Call c x) = snd (kernel_call E c x (k, n))"
| "kernel_step E (k, n) (SendDirect to msg) = (snd (send_message_direct to msg k), n)"
| "kernel_step E (k, n) (ReceiveDirect i) = (snd (receive_message_direct i k), n)"
| "kernel_step E (k, n) (DeleteById i) = (snd (delete_by_id i k), n)"
| "kernel_step E (k, n) (ScheduleById i) = (snd (schedule_by_id E i k), n)"
| "kernel_step E (k, n) (BindIngress iface oid) = (snd (bridge_bind_ingress iface oid k), n)"
| "kernel_step E (k, n) (BindEgress oid iface) = (snd (bridge_bind_egress oid iface k), n)"
| "kernel_step E (k, n) ClearBindings = (bridge_clear_bindings k, n)"
| "kernel_step E (k, n) (BridgeIn c iface target) = snd (bridge_network_to_object E c iface target (k, n))"
| "kernel_step E (k, n) (BridgeOut c source iface) = snd (bridge_object_to_network E c source iface (k, n))"
| "kernel_step E (k, n) (BridgeTick c) = snd (bridge_tick E c (k, n))"
| "kernel_step E (k, n) KExecuteNext = (snd (kernel_execute_next E k), n)"
| "kernel_step E (k, n) (KExecuteNextOn apic) = (snd (execute_next_on_core E apic k), n)"
| "kernel_step E (k, n) (KComplete apic) = (complete_running_on_core E apic k, n)"
| "kernel_step E (k, n) (KYield apic) = (snd (yield_running_on_core E apic k), n)"
| "kernel_step E (k, n) (KPreempt tick apic) = (snd (preempt_tick_on_core E tick apic k), n)"
| "kernel_step E (k, n) (RuntimeStep apic) = (snd (service_core_runtime_step E apic k), n)"
| "kernel_step E (k, n) (RescheduleArrives apic) = (snd (on_reschedule_ipi E apic k), n)"
| "kernel_step E (k, n) (DriveMode apic mode) = (set_runtime_drive_mode apic mode k, n)"
| "kernel_step E (k, n) (CoreRegister apic role) = (snd (kernel_register_core apic role k), n)"
| "kernel_step E (k, n) (CoreOnline apic online) = (snd (set_core_online apic online k), n)"
| "kernel_step E (k, n) (CorePlan apic) = (snd (kernel_plan_ap_startup E apic k), n)"
| "kernel_step E (k, n) (CoreComplete apic seq) = (snd (ap_entry_reached_with_seq apic seq k), n)"
| "kernel_step E (k, n) (CoreHalt apic) = (snd (kernel_halt_core apic k), n)"
| "kernel_step E (k, n) (ShootdownRequest apic page) = (request_tlb_shootdown_ipi apic page k, n)"
| "kernel_step E (k, n) (ShootdownArrives apic) = (snd (on_tlb_shootdown_ipi apic k), n)"
| "kernel_step E (k, n) (ShootdownBroadcast page exclude) = (snd (broadcast_tlb_shootdown page exclude k), n)"
| "kernel_step E (k, n) (NetOp x) = (k, net_step n x)"

lemma generate_id_short: "length (fst (generate_id counter)) \<le> KERNEL_MAX_ID_LEN"
  by (auto simp: generate_id_def Let_def write_number_def KERNEL_MAX_ID_LEN_def OBJ_MAX_ID_LEN_def bounded_str_def
      split: option.splits if_splits)

lemma new_compute_ok: "object_ok (fst (new_compute counter name intent))"
  using generate_id_short [of counter] by (auto simp: new_compute_def object_ok_def split: prod.splits)

lemma register_object_ok: "kernel_ok E k \<Longrightarrow> object_ok ob \<Longrightarrow> kernel_ok E (snd (register_object E ob k))"
  by (auto simp: register_object_def kernel_ok_def dispatch_ok_def intro: objects_ok_insert table_ok_insert
      split: prod.splits option.splits)

lemma kernel_ok_log [simp]: "kernel_ok E (k\<lparr>kn_log := l\<rparr>) = kernel_ok E k"
  by (simp add: kernel_ok_def dispatch_ok_def)

lemma bindings_ok:
  "kernel_ok E k \<Longrightarrow> kernel_ok E (snd (bridge_bind_ingress iface oid k))"
  "kernel_ok E k \<Longrightarrow> kernel_ok E (snd (bridge_bind_egress oid iface k))"
  "kernel_ok E k \<Longrightarrow> kernel_ok E (bridge_clear_bindings k)"
  by (auto simp: bridge_bind_ingress_def bridge_bind_egress_def bridge_clear_bindings_def kernel_ok_def dispatch_ok_def
      table_ok_def [of "[]"] im_wf_def [of "[]"] intro: table_ok_insert split: option.splits)

lemma core_steps:
  "mc_inv m \<Longrightarrow> mc_inv (snd (register_core apic role m))" "mc_inv m \<Longrightarrow> mc_inv (snd (set_online apic online m))"
  "mc_inv m \<Longrightarrow> mc_inv (snd (plan_ap_startup T apic m))"
  "mc_inv m \<Longrightarrow> mc_inv (snd (complete_ap_startup_with_seq apic seq m))" "mc_inv m \<Longrightarrow> mc_inv (snd (halt_core apic m))"
  using cores.inv_step [of m T "RegisterCore apic role"] cores.inv_step [of m T "SetOnline apic online"]
    cores.inv_step [of m T "PlanStartup apic"] cores.inv_step [of m T "CompleteStartup apic seq"]
    cores.inv_step [of m T "HaltCore apic"] by simp_all

lemma kernel_step_ok:
  assumes "sort_ok (ke_sched E)" "state_ok E s"
  shows "state_ok E (kernel_step E s x)"
proof -
  obtain k n where s: "s = (k, n)" by fastforce
  have ok: "kernel_ok E k" "network_ok n" using assms(2) s by (auto simp: state_ok_def)
  have disp: "dispatches k k' \<Longrightarrow> kernel_ok E k'" for k' using dispatches_ok ok by auto
  note d = assms(1) [THEN kernel_execute_next_dispatches] assms(1) [THEN execute_next_on_core_dispatches]
    assms(1) [THEN misc_dispatches(1)] assms(1) [THEN yield_dispatches] assms(1) [THEN preempt_tick_on_core_dispatches]
    assms(1) [THEN service_step_dispatches] misc_dispatches(2) shootdown_dispatches
    on_multicore_dispatches [OF core_steps(1)] on_multicore_dispatches [OF core_steps(2)]
    on_multicore_dispatches [OF core_steps(3)] on_multicore_dispatches [OF core_steps(4)]
    on_multicore_dispatches [OF core_steps(5)]
  show ?thesis
  proof (cases x)
    case (RescheduleArrives apic)
    have "dispatches k (snd (on_reschedule_ipi E apic k))"
      unfolding on_reschedule_ipi_def
      by (rule dispatches_trans [OF _ service_step_dispatches [OF assms(1)]]) simp
    with RescheduleArrives s ok show ?thesis by (simp add: disp state_ok_def)
  next
    case (Call c y)
    with s kernel_call_ok [OF assms] show ?thesis by simp
  next
    case (ScheduleById i)
    with s ok disp [OF schedule_dispatches [OF assms(1)]] show ?thesis
      by (auto simp: schedule_by_id_def state_ok_def split: result.splits option.splits)
  next
    case (NetOp y)
    with s ok netstack.inv_step [of n y] show ?thesis by (simp add: state_ok_def)
  qed (use ok s assms in \<open>simp_all add: disp d kernel_register_core_def set_core_online_def kernel_plan_ap_startup_def
      ap_entry_reached_with_seq_def kernel_halt_core_def bridge_in_ok bridge_out_ok bridge_tick_ok
      state_ok_def [of _ "(_, n)"] register_object_ok new_compute_ok bindings_ok send_message_direct_ok
      receive_message_direct_ok delete_by_id_def kernel_ok_remove verify_capability_eq
      validate_capability_def check_signature_eq sign_capability_def split_def\<close>)
qed

interpretation kstep: machine "\<lambda>s x. if sort_ok (ke_sched E) then kernel_step E s x else s" "state_ok E" for E
  by unfold_locales (auto intro: kernel_step_ok)

definition kernel_run :: "kernel_env \<Rightarrow> core_masks \<Rightarrow> kernel_op list \<Rightarrow> kernel \<times> network_stack" where
  "kernel_run E masks ops = foldl (kernel_step E) (kernel_new E masks, network_new) ops"

lemma kernel_run_ok: "sort_ok (ke_sched E) \<Longrightarrow> state_ok E (kernel_run E masks ops)"
  using kstep.inv_run [of E "(kernel_new E masks, network_new)" ops]
  by (simp add: kernel_run_def state_ok_def kernel_new_ok network_new_ok)

section \<open>Message queues\<close>

text \<open>The abstract view: a queue per object id.\<close>

definition mail :: "kernel \<Rightarrow> str \<Rightarrow> message list option" where
  "mail k i = map_option ob_queue (im_get (kn_objects k) i)"

primrec mail_after :: "capability \<Rightarrow> call \<Rightarrow> (str \<Rightarrow> message list option) \<Rightarrow> str \<Rightarrow> message list option" where
  "mail_after c CallExecute q = q"
| "mail_after c (CallSend to msg) q = q(kernel_key to := map_option (\<lambda>ms. ms @ [msg]) (q (kernel_key to)))"
| "mail_after c CallReceive q = q(cap_object_id c := map_option tl (q (cap_object_id c)))"
| "mail_after c CallGet q = q"
| "mail_after c CallDelete q = q(cap_object_id c := None)"
| "mail_after c (CallNetSend iface b) q = q"
| "mail_after c (CallNetReceive iface) q = q"

lemma mail_put:
  "im_get (kn_objects k) key = Some ob0 \<Longrightarrow> mail (put_object key ob k) = (mail k)(key := Some (ob_queue ob))"
  by (auto simp: mail_def put_object_def im_get_update)

lemma mail_same: "kn_objects k' = kn_objects k \<Longrightarrow> mail k' = mail k"
  by (simp add: mail_def fun_eq_iff)

lemma mail_checked [simp]: "mail (checked E c k) = mail k"
  by (rule mail_same) simp

lemma send_message_direct_mail:
  "send_message_direct to msg k = (Ok u, k') \<Longrightarrow>
   mail k' = (mail k)(kernel_key to := map_option (\<lambda>ms. ms @ [msg]) (mail k (kernel_key to)))"
  by (auto simp: send_message_direct_def find_object_def mail_put object_receive_message_def mail_def [of k "kernel_key to"]
      dest!: bounded_push_SomeD split: option.splits if_splits)

lemma send_message_direct_iff:
  "(\<exists>k'. send_message_direct to msg k = (Ok u, k')) \<longleftrightarrow> (\<exists>q. mail k (kernel_key to) = Some q \<and> length q < MAX_MESSAGES)"
  by (auto simp: send_message_direct_def find_object_def object_receive_message_def mail_def bounded_push_def
      message_count_def MAX_MESSAGES_def split: option.splits)

lemma receive_mail:
  assumes "kernel_receive_message E c k = (Ok m, k')"
  shows "mail k' = (mail k)(cap_object_id c := map_option tl (mail k (cap_object_id c))) \<and>
    (\<exists>q. mail k (cap_object_id c) = Some q \<and> m = opt_hd q)"
proof -
  from assms obtain ob ob' where ob: "im_get (kn_objects (checked E c k)) (cap_object_id c) = Some ob"
    "object_pop_message ob = (m, ob')" "k' = put_object (cap_object_id c) ob' (checked E c k)"
    by (auto simp: kernel_receive_message_def check_signature_eq split: if_splits option.splits prod.splits)
  from ob(2) have "ob_queue ob' = tl (ob_queue ob)" "m = opt_hd (ob_queue ob)"
    by (auto simp: object_pop_message_def opt_hd_def split: list.splits)
  then show ?thesis using mail_put [OF ob(1), of ob'] ob(1,3) by (simp add: mail_def [of k "cap_object_id c"])
qed

lemma delete_mail:
  assumes "kernel_ok E k" "delete_object E c k = (Ok u, k')"
  shows "mail k' = (mail k)(cap_object_id c := None)"
proof -
  from assms(2) obtain ob m where r: "im_remove (cap_object_id c) (kn_objects k) = Some (ob, m)" "kn_objects k' = m"
    by (auto simp: delete_object_def remove_object_def check_signature_eq split: if_splits option.splits)
  have "im_wf (kn_objects k)" using assms(1) by (simp add: kernel_ok_def objects_ok_def table_ok_def)
  from im.get_rem [OF this r(1)] r(2) show ?thesis by (auto simp: mail_def fun_eq_iff)
qed

lemma kernel_call_mail:
  assumes "kernel_ok E k" "kernel_call E c x (k, n) = (r, k', n')" "\<nexists>e. r = Failed e"
  shows "mail k' = mail_after c x (mail k)"
proof (cases x)
  case CallExecute
  have "kn_objects (queue_task_to_core oid k1) = kn_objects k1" for oid k1
    using queue_task_to_core_dispatches [of k1 oid] by (simp add: dispatches_def)
  with CallExecute assms(2,3) have "kn_objects k' = kn_objects k"
    by (auto simp: kernel_execute_def check_signature_eq split: if_splits option.splits)
  with CallExecute show ?thesis by (auto intro!: mail_same)
next
  case (CallSend to msg)
  with assms(2,3) have "\<exists>u. send_message_direct to msg (checked E c k) = (Ok u, k')"
    by (auto simp: kernel_send_message_eq to_reply_def split: if_splits prod.splits result.splits)
  with CallSend show ?thesis by (auto dest: send_message_direct_mail)
next
  case CallReceive
  with assms(2,3) show ?thesis by (auto simp: to_reply_def split: prod.splits result.splits dest: receive_mail)
next
  case CallDelete
  with assms show ?thesis by (auto simp: to_reply_def split: prod.splits result.splits dest: delete_mail)
qed (use assms(2,3) in \<open>auto simp: call_defs bumps to_reply_def intro!: mail_same
      split: if_splits option.splits prod.splits result.splits\<close>)

section \<open>Properties\<close>


text \<open>A kernel with one object, for the witnesses; its signatures are accepted by their size alone.\<close>

definition demo_prims :: prims where
  "demo_prims = zero_prims\<lparr>ed_verify := \<lambda>_ _ s. length s = ED_SIG_LEN, ml_verify := \<lambda>_ _ _ s. length s = ML_SIG_LEN\<rparr>"

definition demo_kernel :: kernel_env where
  "demo_kernel = \<lparr>ke_audit = plain_env\<lparr>ae_prims := demo_prims, ae_issuer := issuer_from_seeds demo_prims [] [] True\<rparr>,
     ke_sched = demo_sched, ke_code = demo_code\<rparr>"

definition no_masks :: core_masks where
  "no_masks = \<lparr>cm_resched = 0, cm_idle = 0, cm_wakes = [], cm_tlb_pending = 0, cm_tlb_ack = 0, cm_tlb_gen = 0, cm_tlb_page = 0\<rparr>"

definition demo_ops :: "kernel_op list" where
  "demo_ops = [CreateObject 0 ''agent'' ''background'']"

definition demo_token :: capability where
  "demo_token = issue_with (env_prims demo_kernel) (env_issuer demo_kernel) (capability_new ''obj-1'')"

definition demo_message :: message where
  "demo_message = \<lparr>msg_from = ''obj-2'', msg_to = ''obj-1'', msg_payload = PText ''hello''\<rparr>"

lemma demo_sizes: "sort_ok (ke_sched demo_kernel)" "verify_sizes (env_prims demo_kernel)"
  "hash_sizes (env_prims demo_kernel)" "proof_sized demo_token"
  by (simp_all add: demo_kernel_def demo_sort_ok demo_prims_def verify_sizes_def hash_sizes_def proof_sized_def
      demo_token_def issue_with_def Let_def issuer_sign_def signature_wf_def zero_prims_def plain_prims_def zero_hash_def)

lemma demo_authorised: "authorised demo_kernel demo_token (CallSend to msg) k"
proof -
  have "signatures_correct (env_prims demo_kernel)" "issuer_ok (env_prims demo_kernel) (env_issuer demo_kernel)"
    by (auto simp: demo_kernel_def signatures_correct_def demo_prims_def zero_prims_def plain_prims_def issuer_ok_def)
  from issued_verifies [OF this] have "answer demo_kernel demo_token k = Ok True"
    by (simp add: answer_def demo_token_def)
  moreover have "has_permission demo_token SendMessage"
    by (simp add: demo_token_def issue_with_def Let_def has_permission_def capability_new_def
        with_permissions_def perm_insert_def MAX_PERMISSIONS_def)
  ultimately show ?thesis by (simp add: authorised_def)
qed

lemma demo_mail: "mail (fst (kernel_run demo_kernel no_masks demo_ops)) ''obj-1'' = Some []"
proof -
  have "fst (generate_id 0) = ''obj-1''" by code_simp
  then show ?thesis
    by (auto simp: kernel_run_def demo_ops_def register_object_def new_compute_def mail_def im_insert_def bounded_push_def
        MAX_OBJECTS_def kernel_new_def im_get_def split: prod.splits)
qed


text \<open>
  C32: Message passing implements queues per object. In every state the kernel can reach, a
  successful send appends its message to the queue of the object it names, a successful receive
  takes the oldest message of the capability's own object and returns it, a successful delete
  drops that object's queue, and no call touches another object's queue; a failed call touches
  none. An authorised send succeeds exactly when the object exists and has fewer than eight
  messages waiting.
\<close>

theorem kernel_mail_refines:
  assumes "sort_ok (ke_sched E)" "kernel_run E masks ops = (k, n)" "kernel_call E c x (k, n) = (r, k', n')"
  shows "mail k' = (if \<exists>e. r = Failed e then mail k else mail_after c x (mail k)) \<and>
    (\<forall>m. r = Got m \<longrightarrow> (\<exists>q. mail k (cap_object_id c) = Some q \<and> m = opt_hd q)) \<and>
    (\<forall>to msg. x = CallSend to msg \<and> authorised E c x k \<longrightarrow>
      (r = Done \<longleftrightarrow> (\<exists>q. mail k (kernel_key to) = Some q \<and> length q < MAX_MESSAGES)))"
proof -
  have ok: "kernel_ok E k" using kernel_run_ok [OF assms(1), of masks ops] assms(2) by (simp add: state_ok_def)
  have failed: "\<exists>e. r = Failed e \<Longrightarrow> mail k' = mail k"
    using kernel_call_failed assms(3) by (auto simp: unaffected_def intro!: mail_same)
  have got: "r = Got m \<Longrightarrow> \<exists>q. mail k (cap_object_id c) = Some q \<and> m = opt_hd q" for m
    using assms(3) by (cases x) (auto simp: to_reply_def split: prod.splits result.splits dest: receive_mail)
  have "r = Done \<longleftrightarrow> (\<exists>q. mail k (kernel_key to) = Some q \<and> length q < MAX_MESSAGES)"
    if "x = CallSend to msg" "authorised E c x k" for to msg
    using that assms(3) send_message_direct_iff [of to msg "checked E c k" "()"]
    by (auto simp: authorised_def kernel_send_message_eq to_reply_def split: prod.splits result.splits)
  with failed got kernel_call_mail [OF ok assms(3)] show ?thesis by (intro conjI allI impI) auto
qed

theorem kernel_mail_refines_witness:
  "\<exists>k n k' n'. kernel_run demo_kernel no_masks demo_ops = (k, n) \<and>
     kernel_call demo_kernel demo_token (CallSend ''obj-1'' demo_message) (k, n) = (Done, k', n') \<and>
     mail k' ''obj-1'' = Some [demo_message]"
proof -
  obtain k n where run: "kernel_run demo_kernel no_masks demo_ops = (k, n)" by fastforce
  obtain r k' n' where call: "kernel_call demo_kernel demo_token (CallSend ''obj-1'' demo_message) (k, n) = (r, k', n')"
    by (metis prod.exhaust)
  have mail: "mail k ''obj-1'' = Some []" using demo_mail run by simp
  have key: "kernel_key ''obj-1'' = ''obj-1''"
    by (simp add: kernel_key_def str_or_default_def bounded_str_def KERNEL_MAX_ID_LEN_def)
  note refines = kernel_mail_refines [OF demo_sizes(1) run call]
  have "r = Done" using refines demo_authorised mail key by (auto simp: MAX_MESSAGES_def)
  with refines run call mail key show ?thesis by auto
qed

text \<open>
  C33: Every state the kernel can reach, through any sequence of calls, console commands, bridge
  ticks, interrupts and core events, is well formed: at most sixteen objects, each stored under
  its own id with at most eight waiting messages; at most sixteen entries without duplicate keys
  in the statistics and binding tables; at most 32 ready tasks and eight running slots; at most
  eight cores with run queues of at most sixteen ids; at most four interfaces with bounded queues; and a
  verification cache that holds only keys of proofs that verify.
\<close>

theorem kernel_state_wf:
  assumes "sort_ok (ke_sched E)" "kernel_run E masks ops = (k, n)"
  shows "objects_ok (kn_objects k) \<and> table_ok (kn_network_stats k) \<and> table_ok (kn_ingress k) \<and> table_ok (kn_egress k) \<and>
    dispatch_ok k \<and> cache_inv (env_prims E) (env_issuer E) (kn_cache k) \<and> network_ok n"
  using kernel_run_ok [OF assms(1), of masks ops] assms(2) by (simp add: state_ok_def kernel_ok_def)

theorem kernel_state_wf_witness:
  "\<exists>k n. kernel_run demo_kernel no_masks (demo_ops @ [CoreRegister 0 Bootstrap, ScheduleById ''agent'', KExecuteNext]) = (k, n) \<and>
     objects_ok (kn_objects k) \<and> dispatch_ok k \<and> network_ok n"
proof -
  obtain k n where run: "kernel_run demo_kernel no_masks
      (demo_ops @ [CoreRegister 0 Bootstrap, ScheduleById ''agent'', KExecuteNext]) = (k, n)" by fastforce
  from kernel_state_wf [OF demo_sizes(1) run] run show ?thesis by auto
qed

end
