(* ===== verification/RustStr.thy ===== *)
theory RustStr
  imports Prelude
begin

text \<open>
  The string functions of the Rust library the kernel's text parsers use: \<open>split\<close>,
  \<open>split_whitespace\<close>, \<open>trim\<close>, \<open>lines\<close> and \<open>parse\<close> for unsigned integers, over the UTF-8 bytes of
  a \<open>str\<close>. White space is the Unicode property, so it can take one to three bytes. Shown: how
  each of them reads text made of words, which the round trips of the parsers rest on.
\<close>

section \<open>Definitions\<close>

fun split_on :: "char \<Rightarrow> str \<Rightarrow> str list" where
  "split_on d [] = [[]]"
| "split_on d (c # s) =
     (if c = d then [] # split_on d s
      else case split_on d s of w # ws \<Rightarrow> (c # w) # ws | [] \<Rightarrow> [[c]])"

definition starts_with :: "str \<Rightarrow> str \<Rightarrow> bool" where
  "starts_with p s \<longleftrightarrow> take (length p) s = p"

text \<open>The length of the white space character a string starts with, 0 if there is none.\<close>

definition ws1 :: "nat \<Rightarrow> bool" where
  "ws1 a \<longleftrightarrow> a = 0x20 \<or> 0x09 \<le> a \<and> a \<le> 0x0D"

definition ws2 :: "nat \<Rightarrow> nat \<Rightarrow> bool" where
  "ws2 a b \<longleftrightarrow> a = 0xC2 \<and> (b = 0x85 \<or> b = 0xA0)"

definition ws3 :: "nat \<Rightarrow> nat \<Rightarrow> nat \<Rightarrow> bool" where
  "ws3 a b c \<longleftrightarrow> a = 0xE1 \<and> b = 0x9A \<and> c = 0x80 \<or>
     a = 0xE2 \<and> b = 0x80 \<and> (0x80 \<le> c \<and> c \<le> 0x8A \<or> c = 0xA8 \<or> c = 0xA9 \<or> c = 0xAF) \<or>
     a = 0xE2 \<and> b = 0x81 \<and> c = 0x9F \<or> a = 0xE3 \<and> b = 0x80 \<and> c = 0x80"

definition ws_len :: "str \<Rightarrow> nat" where
  "ws_len s =
     (case s of
        [] \<Rightarrow> 0
      | a # r \<Rightarrow>
          if ws1 (of_char a) then 1
          else case r of
            [] \<Rightarrow> 0
          | b # r' \<Rightarrow>
              if ws2 (of_char a) (of_char b) then 2
              else case r' of
                [] \<Rightarrow> 0
              | c # _ \<Rightarrow> if ws3 (of_char a) (of_char b) (of_char c) then 3 else 0)"

lemma ws_len_le: "ws_len s \<le> length s"
  by (simp add: ws_len_def split: list.split)

text \<open>\<open>split_whitespace\<close>, with the word read so far.\<close>

function split_ws :: "str \<Rightarrow> str \<Rightarrow> str list" where
  "split_ws w s =
     (if s = [] then (if w = [] then [] else [w])
      else if ws_len s > 0 then (if w = [] then [] else [w]) @ split_ws [] (drop (ws_len s) s)
      else split_ws (w @ [hd s]) (tl s))"
  by pat_completeness auto
termination by (relation "measure (\<lambda>(w, s). length s)") auto

declare split_ws.simps [simp del]

definition split_whitespace :: "str \<Rightarrow> str list" where
  "split_whitespace s = split_ws [] s"

function trim_start :: "str \<Rightarrow> str" where
  "trim_start s = (if ws_len s > 0 then trim_start (drop (ws_len s) s) else s)"
  by pat_completeness auto
termination
proof (relation "measure length")
  fix s
  assume "ws_len s > 0"
  moreover from this have "s \<noteq> []" by (auto simp: ws_len_def)
  ultimately show "(drop (ws_len s) s, s) \<in> measure length" by simp
qed simp

declare trim_start.simps [simp del]

function trim_end :: "str \<Rightarrow> str" where
  "trim_end s =
     (if s = [] then []
      else if ws_len s > 0 then
        (case trim_end (drop (ws_len s) s) of [] \<Rightarrow> [] | r \<Rightarrow> take (ws_len s) s @ r)
      else hd s # trim_end (tl s))"
  by pat_completeness auto
termination by (relation "measure length") auto

declare trim_end.simps [simp del]

definition trim :: "str \<Rightarrow> str" where
  "trim s = trim_end (trim_start s)"

text \<open>\<open>lines\<close>: pieces ended by a newline, each without it and without one carriage return before it.\<close>

definition strip_cr :: "str \<Rightarrow> str" where
  "strip_cr s = (if s \<noteq> [] \<and> last s = CHR 0x0D then butlast s else s)"

fun lines_of :: "str list \<Rightarrow> str list" where
  "lines_of [] = []"
| "lines_of [l] = (if l = [] then [] else [l])"
| "lines_of (l # ls) = strip_cr l # lines_of ls"

definition lines :: "str \<Rightarrow> str list" where
  "lines s = lines_of (split_on CHR 0x0A s)"

text \<open>\<open>parse\<close> to an unsigned integer below \<open>bound\<close>: an optional plus sign and at least one digit.\<close>

definition digit_value :: "char \<Rightarrow> nat" where
  "digit_value c = of_char c - 48"

definition parse_digits :: "str \<Rightarrow> nat" where
  "parse_digits s = foldl (\<lambda>n c. 10 * n + digit_value c) 0 s"

definition parse_uint :: "nat \<Rightarrow> str \<Rightarrow> nat option" where
  "parse_uint bound s =
     (let d = (case s of c # r \<Rightarrow> if c = CHR ''+'' then r else s | [] \<Rightarrow> s) in
      if d = [] \<or> \<not> list_all is_ascii_digit d \<or> parse_digits d \<ge> bound then None else Some (parse_digits d))"

section \<open>Reading words\<close>

lemma ws_len_graphic [simp]: "is_ascii_graphic c \<Longrightarrow> ws_len (c # s) = 0"
  by (auto simp: ws_len_def ws1_def ws2_def ws3_def is_ascii_graphic_def split: list.splits)

lemma ws_len_space [simp]: "ws_len (CHR '' '' # s) = 1"
  by (simp add: ws_len_def ws1_def)

lemma ws_len_Nil [simp]: "ws_len [] = 0"
  by (simp add: ws_len_def)

text \<open>A word: printable ASCII without spaces, not empty.\<close>

definition word :: "str \<Rightarrow> bool" where
  "word w \<longleftrightarrow> w \<noteq> [] \<and> list_all is_ascii_graphic w"

lemma split_ws_graphic: "list_all is_ascii_graphic w \<Longrightarrow> split_ws v (w @ s) = split_ws (v @ w) s"
  by (induction w arbitrary: v) (simp_all add: split_ws.simps)

lemma split_ws_end: "split_ws v [] = (if v = [] then [] else [v])"
  by (simp add: split_ws.simps)

lemma split_ws_space: "split_ws v (CHR '' '' # s) = (if v = [] then [] else [v]) @ split_ws [] s"
  by (subst split_ws.simps) simp

lemma split_whitespace_word: "word w \<Longrightarrow> split_whitespace w = [w]"
  using split_ws_graphic [of w "[]" "[]"] by (simp add: split_whitespace_def word_def split_ws_end)

lemma split_whitespace_words: "word w \<Longrightarrow> split_whitespace (w @ CHR '' '' # s) = w # split_whitespace s"
  using split_ws_graphic [of w "[]" "CHR '' '' # s"] by (simp add: split_whitespace_def word_def split_ws_space)

lemma trim_start_word: "s \<noteq> [] \<Longrightarrow> is_ascii_graphic (hd s) \<Longrightarrow> trim_start s = s"
  by (cases s) (simp_all add: trim_start.simps)

lemma ws_char_end: "ws_len s > 0 \<Longrightarrow> drop (ws_len s) s = [] \<Longrightarrow> \<not> is_ascii_graphic (last s)"
  by (auto simp: ws_len_def ws1_def ws2_def ws3_def is_ascii_graphic_def split: list.splits if_splits)

lemma trim_end_word: "s \<noteq> [] \<Longrightarrow> is_ascii_graphic (last s) \<Longrightarrow> trim_end s = s"
proof (induction s rule: trim_end.induct)
  case (1 s)
  show ?case
  proof (cases "ws_len s > 0")
    case True
    let ?r = "drop (ws_len s) s"
    have r: "?r \<noteq> []" using ws_char_end [OF True] 1(4) by blast
    then have "last ?r = last s" by (simp add: last_drop)
    with 1(1) [OF 1(3) True r] 1(4) r have "trim_end ?r = ?r" by simp
    with r True 1(3) show ?thesis by (subst trim_end.simps) (simp add: list.case_eq_if)
  next
    case False
    show ?thesis
    proof (cases "tl s = []")
      case True
      with False 1(3) show ?thesis by (cases s) (simp_all add: trim_end.simps)
    next
      case t: False
      then have "last (tl s) = last s" using 1(3) by (cases s) simp_all
      with 1(2) [OF 1(3) False t] 1(4) have "trim_end (tl s) = tl s" by simp
      with False 1(3) show ?thesis by (subst trim_end.simps) simp
    qed
  qed
qed

lemma trim_word: "s \<noteq> [] \<Longrightarrow> is_ascii_graphic (hd s) \<Longrightarrow> is_ascii_graphic (last s) \<Longrightarrow> trim s = s"
  by (simp add: trim_def trim_start_word trim_end_word)

lemma split_on_none: "d \<notin> set s \<Longrightarrow> split_on d s = [s]"
  by (induction s) auto

lemma split_on_sep: "d \<notin> set l \<Longrightarrow> split_on d (l @ d # s) = l # split_on d s"
  by (induction l) auto

lemma split_on_not_Nil [simp]: "split_on d s \<noteq> []"
  by (induction s) (auto split: list.splits)

text \<open>The lines of a text whose lines have no newline and do not end in a carriage return.\<close>

lemma lines_concat:
  assumes "list_all (\<lambda>l. CHR 0x0A \<notin> set l \<and> (l = [] \<or> last l \<noteq> CHR 0x0D)) ls"
  shows "lines (concat (map (\<lambda>l. l @ [CHR 0x0A]) ls)) = ls"
  using assms
proof (induction ls)
  case (Cons l ls)
  let ?t = "concat (map (\<lambda>l. l @ [CHR 0x0A]) ls)"
  have "split_on CHR 0x0A (concat (map (\<lambda>l. l @ [CHR 0x0A]) (l # ls))) = l # split_on CHR 0x0A ?t"
    using Cons.prems split_on_sep [of "CHR 0x0A" l ?t] by simp
  moreover have "lines_of (l # xs) = strip_cr l # lines_of xs" if "xs \<noteq> []" for xs
    using that by (cases xs) simp_all
  ultimately show ?case using Cons by (auto simp: lines_def strip_cr_def)
qed (simp add: lines_def)

section \<open>Numbers\<close>

lemma parse_digits_snoc: "parse_digits (s @ [c]) = 10 * parse_digits s + digit_value c"
  by (simp add: parse_digits_def)

lemma digit_props: "d < 10 \<Longrightarrow> is_ascii_digit (digit d) \<and> digit_value (digit d) = d"
  by (simp add: digit_def is_ascii_digit_def digit_value_def)

lemma dec_digits: "dec n \<noteq> [] \<and> list_all is_ascii_digit (dec n) \<and> parse_digits (dec n) = n"
proof (induction n rule: dec.induct)
  case (1 n)
  show ?case
  proof (cases "n < 10")
    case True
    then show ?thesis using digit_props [of n] by (simp add: dec.simps [of n] parse_digits_def)
  next
    case False
    with 1 have IH: "dec (n div 10) \<noteq> [] \<and> list_all is_ascii_digit (dec (n div 10)) \<and> parse_digits (dec (n div 10)) = n div 10"
      by blast
    have "dec n = dec (n div 10) @ [digit (n mod 10)]" using False by (simp add: dec.simps [of n])
    with IH digit_props [of "n mod 10"] show ?thesis by (simp add: parse_digits_snoc)
  qed
qed

lemma parse_uint_dec: "n < bound \<Longrightarrow> parse_uint bound (dec n) = Some n"
proof -
  assume "n < bound"
  obtain c r where cr: "dec n = c # r" "is_ascii_digit c" using dec_digits [of n] by (cases "dec n") auto
  then have "c \<noteq> CHR ''+''" by (auto simp: is_ascii_digit_def)
  with cr \<open>n < bound\<close> dec_digits [of n] show ?thesis by (auto simp: parse_uint_def Let_def)
qed

lemma digit_graphic: "is_ascii_digit c \<Longrightarrow> is_ascii_graphic c"
  by (simp add: is_ascii_digit_def is_ascii_graphic_def)

lemma alphanumeric_graphic: "is_ascii_alphanumeric c \<Longrightarrow> is_ascii_graphic c"
  by (auto simp: is_ascii_alphanumeric_def is_ascii_digit_def is_ascii_lowercase_def is_ascii_uppercase_def is_ascii_graphic_def)

lemma word_dec: "word (dec n)"
  using dec_digits [of n] by (auto simp: word_def list_all_iff intro: digit_graphic)

lemma parse_uint_bound: "parse_uint bound s = Some n \<Longrightarrow> n < bound"
  by (auto simp: parse_uint_def Let_def split: if_splits)

end
