(* ===== verification/Handles.thy ===== *)
theory Handles
  imports Kernel RustStr
begin

text \<open>
  Capability handles of the agents, \<open>src/agent.rs\<close>: the handle table of a process, granting,
  dropping and deriving handles, and the text form of permission sets. Shown: a derived handle
  never carries more than its parent and keeps the approval constraint; whatever an agent does,
  every handle it holds goes back to a grant made to it; permission lists read back as written.
  The tokens stay in kernel memory, so a handle is an index into the table.
\<close>

section \<open>Handle tables\<close>

abbreviation MAX_HANDLES :: nat where "MAX_HANDLES \<equiv> 16"
abbreviation MAX_PROCESSES :: nat where "MAX_PROCESSES \<equiv> 8"

datatype handle_error = BadHandle | Escalation | TableFull | NoProcess

record handle_table =
  ht_pid :: u32
  ht_caps :: "capability option list"

definition ht_new :: handle_table where
  "ht_new = \<lparr>ht_pid = 0, ht_caps = replicate MAX_HANDLES None\<rparr>"

definition ht_reset :: "u32 \<Rightarrow> handle_table \<Rightarrow> handle_table" where
  "ht_reset pid t = t\<lparr>ht_pid := pid, ht_caps := map (\<lambda>_. None) (ht_caps t)\<rparr>"

definition ht_insert :: "capability \<Rightarrow> handle_table \<Rightarrow> (u32, handle_error) result \<times> handle_table" where
  "ht_insert c t =
     (case position (\<lambda>x. x = None) (ht_caps t) of
        None \<Rightarrow> (Err TableFull, t)
      | Some i \<Rightarrow> (Ok (of_nat i), t\<lparr>ht_caps := (ht_caps t)[i := Some c]\<rparr>))"

definition ht_get :: "handle_table \<Rightarrow> u64 \<Rightarrow> (capability, handle_error) result" where
  "ht_get t h = ok_or (Option.bind (index_get (ht_caps t) (unat h)) id) BadHandle"

definition ht_remove :: "u64 \<Rightarrow> handle_table \<Rightarrow> (capability, handle_error) result \<times> handle_table" where
  "ht_remove h t =
     (case index_get (ht_caps t) (unat h) of
        Some (Some c) \<Rightarrow> (Ok c, t\<lparr>ht_caps := (ht_caps t)[unat h := None]\<rparr>)
      | _ \<Rightarrow> (Err BadHandle, t))"

definition ALL_PERMISSIONS :: "permission list" where
  "ALL_PERMISSIONS = [Read, Write, Execute, SendMessage, ReceiveMessage, Delete, RequiresApproval]"

definition APPROVAL_BIT :: u64 where
  "APPROVAL_BIT = push_bit 7 1"

definition perm_bit :: "permission \<Rightarrow> u64" where
  "perm_bit p = push_bit (unat (tag p)) 1"

definition attenuate :: "handle_table \<Rightarrow> u64 \<Rightarrow> u64 \<Rightarrow> (capability, handle_error) result" where
  "attenuate t h msk =
     (case ht_get t h of
        Err e \<Rightarrow> Err e
      | Ok parent \<Rightarrow>
          let parent_mask = permission_mask parent in
          if msk AND NOT parent_mask AND NOT APPROVAL_BIT \<noteq> 0 then Err Escalation
          else
            let msk = msk OR (parent_mask AND APPROVAL_BIT);
                child = foldl (\<lambda>c p. if msk AND perm_bit p = 0 then remove_permission p c else c) parent ALL_PERMISSIONS in
            Ok (if msk AND APPROVAL_BIT \<noteq> 0 then snd (add_permission RequiresApproval child) else child))"

definition ht_list :: "handle_table \<Rightarrow> (u32 \<times> u64) list" where
  "ht_list t = List.map_filter (\<lambda>(i, c). map_option (\<lambda>c. (of_nat i, permission_mask c)) c)
     (zip [0..<length (ht_caps t)] (ht_caps t))"

section \<open>Permission lists\<close>

definition permission_word :: "str \<Rightarrow> permission option" where
  "permission_word w =
     (if w = ''read'' then Some Read else if w = ''write'' then Some Write else if w = ''exec'' then Some Execute
      else if w = ''send'' then Some SendMessage else if w = ''recv'' then Some ReceiveMessage
      else if w = ''delete'' then Some Delete else if w = ''approval'' then Some RequiresApproval else None)"

fun parse_words :: "str list \<Rightarrow> permission list \<Rightarrow> permission list option" where
  "parse_words [] out = (if out \<noteq> [] then Some out else None)"
| "parse_words (w # ws) out =
     (if w = ''all'' then Some (filter (\<lambda>p. p \<noteq> RequiresApproval) ALL_PERMISSIONS)
      else case permission_word w of
        None \<Rightarrow> None
      | Some p \<Rightarrow>
          parse_words ws
            (if p \<in> set out then out else case bounded_push 7 out p of Some o' \<Rightarrow> o' | None \<Rightarrow> out))"

definition parse_permissions :: "str \<Rightarrow> permission list option" where
  "parse_permissions spec = parse_words (filter (\<lambda>w. w \<noteq> []) (split_on CHR '','' spec)) []"

definition permission_name :: "permission \<Rightarrow> str" where
  "permission_name p =
     (case p of Read \<Rightarrow> ''read'' | Write \<Rightarrow> ''write'' | Execute \<Rightarrow> ''exec'' | SendMessage \<Rightarrow> ''send''
      | ReceiveMessage \<Rightarrow> ''recv'' | Delete \<Rightarrow> ''delete'' | RequiresApproval \<Rightarrow> ''approval'')"

text \<open>\<open>push_str\<close> into a string of 48 bytes; one that does not fit is left out.\<close>

definition push_str :: "nat \<Rightarrow> str \<Rightarrow> str \<Rightarrow> str" where
  "push_str cap s t = (if length s + length t \<le> cap then s @ t else s)"

definition permission_names :: "u64 \<Rightarrow> str" where
  "permission_names msk =
     foldl (\<lambda>s p. if msk AND perm_bit p \<noteq> 0
        then push_str 48 (if s \<noteq> [] then push_str 48 s '','' else s) (permission_name p) else s) [] ALL_PERMISSIONS"

section \<open>Per-process tables\<close>

text \<open>The tables, with the kernel they act on (its cache and audit log).\<close>

record agents =
  ag_tables :: "handle_table list"
  ag_kernel :: kernel

definition agents_new :: "kernel \<Rightarrow> agents" where
  "agents_new k = \<lparr>ag_tables = replicate MAX_PROCESSES ht_new, ag_kernel = k\<rparr>"

definition create_table :: "u32 \<Rightarrow> agents \<Rightarrow> (unit, handle_error) result \<times> agents" where
  "create_table pid s =
     (case (case position (\<lambda>t. ht_pid t = pid) (ag_tables s) of
              Some i \<Rightarrow> Some i
            | None \<Rightarrow> position (\<lambda>t. ht_pid t = 0) (ag_tables s)) of
        None \<Rightarrow> (Err TableFull, s)
      | Some i \<Rightarrow> (Ok (), s\<lparr>ag_tables := (ag_tables s)[i := ht_reset pid (ag_tables s ! i)]\<rparr>))"

definition destroy_table :: "u32 \<Rightarrow> agents \<Rightarrow> agents" where
  "destroy_table pid s =
     (case position (\<lambda>t. ht_pid t = pid) (ag_tables s) of
        None \<Rightarrow> s
      | Some i \<Rightarrow> s\<lparr>ag_tables := (ag_tables s)[i := ht_reset 0 (ag_tables s ! i)]\<rparr>)"

text \<open>\<open>with_table\<close> finds the table of a live process; its position here.\<close>

definition table_of :: "u32 \<Rightarrow> agents \<Rightarrow> nat option" where
  "table_of pid s = position (\<lambda>t. ht_pid t = pid \<and> pid \<noteq> 0) (ag_tables s)"

definition put_table :: "nat \<Rightarrow> handle_table \<Rightarrow> agents \<Rightarrow> agents" where
  "put_table i t s = s\<lparr>ag_tables := (ag_tables s)[i := t]\<rparr>"

definition log_agents :: "kernel_env \<Rightarrow> event_kind \<Rightarrow> str list \<Rightarrow> u64 \<Rightarrow> agents \<Rightarrow> agents" where
  "log_agents E kind pieces detail s =
     s\<lparr>ag_kernel := (ag_kernel s)\<lparr>kn_log := record_fmt (ke_audit E) kind pieces detail (kn_log (ag_kernel s))\<rparr>\<rparr>"

definition grant :: "kernel_env \<Rightarrow> u32 \<Rightarrow> kernel_object \<Rightarrow> permission list \<Rightarrow> agents \<Rightarrow> (u32, handle_error) result \<times> agents" where
  "grant E pid ob perms s =
     (case issue (ke_audit E) (with_permissions (ob_id ob) perms) (kn_log (ag_kernel s)) of
        (c, l) \<Rightarrow>
          let s = s\<lparr>ag_kernel := (ag_kernel s)\<lparr>kn_log := l\<rparr>\<rparr> in
          case table_of pid s of
            None \<Rightarrow> (Err NoProcess, s)
          | Some i \<Rightarrow>
              (case ht_insert c (ag_tables s ! i) of
                 (Err e, t) \<Rightarrow> (Err e, put_table i t s)
               | (Ok h, t) \<Rightarrow>
                   (Ok h, log_agents E CapGranted [''pid-'', dec (unat pid), '':h'', dec (unat h), '':'', ob_id ob]
                     (permission_mask c) (put_table i t s))))"

definition has_table :: "u32 \<Rightarrow> agents \<Rightarrow> bool" where
  "has_table pid s \<longleftrightarrow> table_of pid s \<noteq> None"

definition all_caps :: "agents \<Rightarrow> (u32 \<times> capability) list" where
  "all_caps s = concat (map (\<lambda>t. map (Pair (ht_pid t)) (List.map_filter id (ht_caps t)))
     (filter (\<lambda>t. ht_pid t \<noteq> 0) (ag_tables s)))"

definition handle_cap :: "u32 \<Rightarrow> u64 \<Rightarrow> agents \<Rightarrow> (capability, handle_error) result" where
  "handle_cap pid h s =
     (case table_of pid s of None \<Rightarrow> Err NoProcess | Some i \<Rightarrow> ht_get (ag_tables s ! i) h)"

section \<open>System calls on handles\<close>

abbreviation EBADH :: u64 where "EBADH \<equiv> 1"
abbreviation EPERM :: u64 where "EPERM \<equiv> 2"
abbreviation EINVAL :: u64 where "EINVAL \<equiv> 3"
abbreviation EFULL :: u64 where "EFULL \<equiv> 4"
abbreviation EEMPTY :: u64 where "EEMPTY \<equiv> 5"
abbreviation ENOSPC :: u64 where "ENOSPC \<equiv> 6"
abbreviation ESIG :: u64 where "ESIG \<equiv> 7"
abbreviation EDENIED :: u64 where "EDENIED \<equiv> 8"
abbreviation ENOLINK :: u64 where "ENOLINK \<equiv> 9"
abbreviation ETIMEDOUT :: u64 where "ETIMEDOUT \<equiv> 10"
abbreviation EPOLICY :: u64 where "EPOLICY \<equiv> 11"

primrec handle_errno :: "handle_error \<Rightarrow> u64" where
  "handle_errno BadHandle = EBADH"
| "handle_errno NoProcess = EBADH"
| "handle_errno Escalation = EPERM"
| "handle_errno TableFull = ENOSPC"

definition sys_cap_drop :: "u32 \<Rightarrow> u64 \<Rightarrow> agents \<Rightarrow> (u64, u64) result \<times> agents" where
  "sys_cap_drop pid h s =
     (case table_of pid s of
        None \<Rightarrow> (Err (handle_errno NoProcess), s)
      | Some i \<Rightarrow>
          (case ht_remove h (ag_tables s ! i) of
             (Err e, t) \<Rightarrow> (Err (handle_errno e), put_table i t s)
           | (Ok _, t) \<Rightarrow> (Ok 0, put_table i t s)))"

definition audit_denied :: "kernel_env \<Rightarrow> u32 \<Rightarrow> u64 \<Rightarrow> str \<Rightarrow> agents \<Rightarrow> agents" where
  "audit_denied E pid h what s =
     log_agents E CapRejected [''pid-'', dec (unat pid), '':h'', dec (unat h), '':'', what] PERMISSION_DENIED s"

text \<open>The closure of \<open>sys_cap_derive\<close>: the parent must verify (through the cache), then it is weakened.\<close>

definition derive_child :: "kernel_env \<Rightarrow> nat \<Rightarrow> u64 \<Rightarrow> u64 \<Rightarrow> agents \<Rightarrow> (capability, handle_error) result \<times> agents" where
  "derive_child E i h msk s =
     (case ht_get (ag_tables s ! i) h of
        Err e \<Rightarrow> (Err e, s)
      | Ok parent \<Rightarrow>
          (case cap_verify (env_prims E) (env_issuer E) parent (kn_cache (ag_kernel s)) of
             (r, vc) \<Rightarrow>
               let s = s\<lparr>ag_kernel := (ag_kernel s)\<lparr>kn_cache := vc\<rparr>\<rparr> in
               if r \<noteq> Ok True then (Err BadHandle, s) else (attenuate (ag_tables s ! i) h msk, s)))"

definition sys_cap_derive :: "kernel_env \<Rightarrow> u32 \<Rightarrow> u64 \<Rightarrow> u64 \<Rightarrow> agents \<Rightarrow> (u64, u64) result \<times> agents" where
  "sys_cap_derive E pid h msk s =
     (case table_of pid s of
        None \<Rightarrow> (Err (handle_errno NoProcess), s)
      | Some i \<Rightarrow>
          (case derive_child E i h msk s of
             (Err Escalation, s) \<Rightarrow> (Err EPERM, audit_denied E pid h ''derive-escalation'' s)
           | (Err e, s) \<Rightarrow> (Err (handle_errno e), s)
           | (Ok c, s) \<Rightarrow>
               (case issue (ke_audit E) c (kn_log (ag_kernel s)) of
                  (c, l) \<Rightarrow>
                    let s = s\<lparr>ag_kernel := (ag_kernel s)\<lparr>kn_log := l\<rparr>\<rparr> in
                    (case ht_insert c (ag_tables s ! i) of
                       (Err e, t) \<Rightarrow> (Err (handle_errno e), put_table i t s)
                     | (Ok n, t) \<Rightarrow>
                         (Ok (ucast n), log_agents E CapDerived [''pid-'', dec (unat pid), '':h'', dec (unat h), ''->h'',
                            dec (unat n), '':'', cap_object_id c] (permission_mask c) (put_table i t s))))))"

text \<open>The answer of \<open>cap_list\<close>: how many handles there are, and the entries written to the caller's buffer.\<close>

definition cap_list_entries :: "u32 \<Rightarrow> nat \<Rightarrow> agents \<Rightarrow> (u64 \<times> bytes, u64) result" where
  "cap_list_entries pid max_n s =
     (case table_of pid s of
        None \<Rightarrow> Err (handle_errno NoProcess)
      | Some i \<Rightarrow>
          let hs = ht_list (ag_tables s ! i) in
          Ok (of_nat (length hs), concat (map (\<lambda>(h, m). le_enc h @ le_enc (ucast m :: u32)) (take max_n hs))))"


section \<open>Attenuation\<close>

lemma bit_perm: "bit (push_bit (unat (tag p)) 1 :: u64) n \<longleftrightarrow> n = unat (tag p)"
  using tag_less [of p] by (auto simp: bit_one_shift push_bit_of_1)

lemma bit_APPROVAL: "bit APPROVAL_BIT n \<longleftrightarrow> n = unat (tag RequiresApproval)"
  using bit_perm [of RequiresApproval n] by (simp add: APPROVAL_BIT_def del: push_bit_of_1)

lemma word_zero_bits: "(x :: u64) = 0 \<longleftrightarrow> (\<forall>n. \<not> bit x n)"
  by (auto intro: bit_word_eqI)

lemma bit_perm_bit: "bit (perm_bit p) n \<longleftrightarrow> n = unat (tag p)"
  by (simp only: perm_bit_def bit_perm)

lemma and_perm_bit: "m AND perm_bit p = 0 \<longleftrightarrow> \<not> bit m (unat (tag p))"
  by (auto simp: word_zero_bits bit_and_iff bit_perm_bit)

lemma and_APPROVAL: "m AND APPROVAL_BIT = 0 \<longleftrightarrow> \<not> bit m (unat (tag RequiresApproval))"
  by (auto simp: word_zero_bits bit_and_iff bit_APPROVAL)

lemma ALL_PERMISSIONS_set [simp]: "set ALL_PERMISSIONS = UNIV"
  by (simp add: ALL_PERMISSIONS_def UNIV_permission)

lemma remove_permissions_fold:
  assumes "distinct (cap_permissions c)"
  shows "let c' = foldl (\<lambda>c p. if Q p then remove_permission p c else c) c ps in
    cap_object_id c' = cap_object_id c \<and> distinct (cap_permissions c') \<and>
    set (cap_permissions c') = set (cap_permissions c) - {p \<in> set ps. Q p}"
  using assms
proof (induction ps arbitrary: c)
  case (Cons p ps)
  have "distinct (cap_permissions (if Q p then remove_permission p c else c))"
    using Cons.prems by (simp add: remove_permission_def)
  from Cons.IH [OF this] Cons.prems show ?case
    by (auto simp: remove_permission_def Let_def set_remove1_eq)
qed simp

lemma attenuate_Ok:
  assumes "attenuate t h m = Ok c" and "ht_get t h = Ok parent" and "cap_wf parent"
  shows "cap_object_id c = cap_object_id parent" and "cap_wf c"
    and "has_permission c p \<longleftrightarrow>
      (if p = RequiresApproval then bit m 7 \<or> has_permission parent p else bit m (unat (tag p)) \<and> has_permission parent p)"
    and "m AND NOT (permission_mask parent) AND NOT APPROVAL_BIT = 0"
proof -
  define m' where "m' = m OR (permission_mask parent AND APPROVAL_BIT)"
  define c' where "c' = foldl (\<lambda>c p. if m' AND perm_bit p = 0 then remove_permission p c else c) parent ALL_PERMISSIONS"
  have c: "c = (if m' AND APPROVAL_BIT \<noteq> 0 then snd (add_permission RequiresApproval c') else c')"
    and g: "m AND NOT (permission_mask parent) AND NOT APPROVAL_BIT = 0"
    using assms(1,2) by (auto simp: attenuate_def m'_def c'_def Let_def split: if_splits)
  have c': "cap_object_id c' = cap_object_id parent" "distinct (cap_permissions c')"
    "set (cap_permissions c') = {p \<in> set (cap_permissions parent). bit m' (unat (tag p))}"
    using remove_permissions_fold [of parent "\<lambda>p. m' AND perm_bit p = 0" ALL_PERMISSIONS] assms(3)
    by (auto simp: c'_def Let_def cap_wf_def and_perm_bit)
  have bm: "bit m' n \<longleftrightarrow> bit m n \<or> n = 7 \<and> has_permission parent RequiresApproval" for n
    using permission_mask_has [of parent RequiresApproval]
    by (auto simp: m'_def bit_or_iff bit_and_iff bit_APPROVAL)
  obtain ps where ps: "perm_insert RequiresApproval (cap_permissions c') = Some ps" "distinct ps"
    "set ps = insert RequiresApproval (set (cap_permissions c'))"
    using perm_insert_Some [OF c'(2)] by blast
  have t: "unat (tag q) = 7 \<longleftrightarrow> q = RequiresApproval" for q by (cases q) simp_all
  show "cap_object_id c = cap_object_id parent" using c c'(1) ps(1) by (simp add: add_permission_def)
  show "cap_wf c" using assms(3) c c'(1,2) ps(1,2) by (simp add: add_permission_def cap_wf_def)
  show "has_permission c p \<longleftrightarrow>
      (if p = RequiresApproval then bit m 7 \<or> has_permission parent p else bit m (unat (tag p)) \<and> has_permission parent p)"
    using c ps c'(3) bm t by (auto simp: has_permission_def add_permission_def and_APPROVAL)
  show "m AND NOT (permission_mask parent) AND NOT APPROVAL_BIT = 0" by (rule g)
qed

lemma permission_mask_cong: "(\<And>p. has_permission c p \<longleftrightarrow> bit m (unat (tag p))) \<Longrightarrow>
    (\<And>n. bit m n \<Longrightarrow> \<exists>p. n = unat (tag p)) \<Longrightarrow> permission_mask c = m"
  by (rule bit_word_eqI) (fastforce simp: permission_mask_bit has_permission_def)

text \<open>The mask of a derived handle is the one asked for, plus the approval bit of the parent.\<close>

lemma attenuate_mask:
  assumes "attenuate t h m = Ok c" and "ht_get t h = Ok parent" and "cap_wf parent"
  shows "permission_mask c = m OR (permission_mask parent AND APPROVAL_BIT)"
proof (rule permission_mask_cong)
  have sub: "bit m n \<Longrightarrow> bit (permission_mask parent) n \<or> n = 7" for n
  proof -
    assume "bit m n"
    then have "n < 64" by (simp add: bit_imp_le_length [of m, simplified])
    have "\<not> bit (m AND NOT (permission_mask parent) AND NOT APPROVAL_BIT) n"
      using attenuate_Ok(4) [OF assms] by simp
    with \<open>bit m n\<close> \<open>n < 64\<close> show ?thesis by (auto simp: bit_and_iff bit_not_iff bit_APPROVAL)
  qed
  have r: "\<exists>p. n = unat (tag p)" if "n = 7" for n using that by (intro exI [of _ RequiresApproval]) simp
  show "has_permission c p \<longleftrightarrow> bit (m OR (permission_mask parent AND APPROVAL_BIT)) (unat (tag p))" for p
    using attenuate_Ok(3) [OF assms, of p] sub [of "unat (tag p)"] permission_mask_has [of parent p]
    by (cases p) (auto simp: bit_or_iff bit_and_iff bit_APPROVAL)
  show "\<exists>p. n = unat (tag p)" if "bit (m OR (permission_mask parent AND APPROVAL_BIT)) n" for n
    using that sub [of n] r [of n] by (auto simp: bit_or_iff bit_and_iff bit_APPROVAL permission_mask_bit)
qed

section \<open>Where held capabilities come from\<close>

datatype handle_op = OpCreate u32 | OpDestroy u32 | OpGrant u32 kernel_object "permission list" | OpDrop u32 u64 | OpDerive u32 u64 u64

text \<open>The tables with the grants in force: those made to a process since its table was created.\<close>

type_synonym granted = "(u32 \<times> capability) list"

primrec handle_step :: "kernel_env \<Rightarrow> agents \<times> granted \<Rightarrow> handle_op \<Rightarrow> agents \<times> granted" where
  "handle_step E st (OpCreate pid) =
     (case create_table pid (fst st) of
        (Ok _, s) \<Rightarrow> (s, filter (\<lambda>g. fst g \<noteq> pid) (snd st)) | (Err _, s) \<Rightarrow> (s, snd st))"
| "handle_step E st (OpDestroy pid) = (destroy_table pid (fst st), filter (\<lambda>g. fst g \<noteq> pid) (snd st))"
| "handle_step E st (OpGrant pid ob perms) =
     (case grant E pid ob perms (fst st) of
        (Ok _, s) \<Rightarrow> (s, (pid, with_permissions (ob_id ob) perms) # snd st) | (Err _, s) \<Rightarrow> (s, snd st))"
| "handle_step E st (OpDrop pid h) = (snd (sys_cap_drop pid h (fst st)), snd st)"
| "handle_step E st (OpDerive pid h m) = (snd (sys_cap_derive E pid h m (fst st)), snd st)"

text \<open>A capability within a grant: same object, nothing added but the approval constraint, which stays.\<close>

definition within :: "capability \<Rightarrow> capability \<Rightarrow> bool" where
  "within c g \<longleftrightarrow> cap_object_id c = cap_object_id g \<and>
     list_all (\<lambda>p. has_permission g p \<or> p = RequiresApproval) (cap_permissions c) \<and>
     (has_permission g RequiresApproval \<longrightarrow> has_permission c RequiresApproval)"

definition cap_backed :: "kernel_env \<Rightarrow> granted \<Rightarrow> u32 \<Rightarrow> capability \<Rightarrow> bool" where
  "cap_backed E G pid c \<longleftrightarrow> cap_wf c \<and> issue_with (env_prims E) (env_issuer E) c = c \<and>
     list_ex (\<lambda>g. fst g = pid \<and> within c (snd g)) G"

definition ht_ok :: "kernel_env \<Rightarrow> granted \<Rightarrow> handle_table \<Rightarrow> bool" where
  "ht_ok E G t \<longleftrightarrow> length (ht_caps t) = MAX_HANDLES \<and>
     (\<forall>c. Some c \<in> set (ht_caps t) \<longrightarrow> ht_pid t \<noteq> 0 \<and> cap_backed E G (ht_pid t) c)"

definition pids_distinct :: "handle_table list \<Rightarrow> bool" where
  "pids_distinct ts \<longleftrightarrow> (\<forall>i j. i < length ts \<longrightarrow> j < length ts \<longrightarrow> i \<noteq> j \<longrightarrow> ht_pid (ts ! i) \<noteq> 0 \<longrightarrow>
     ht_pid (ts ! i) \<noteq> ht_pid (ts ! j))"

definition handles_ok :: "kernel_env \<Rightarrow> agents \<times> granted \<Rightarrow> bool" where
  "handles_ok E st \<longleftrightarrow> length (ag_tables (fst st)) = MAX_PROCESSES \<and> pids_distinct (ag_tables (fst st)) \<and>
     (\<forall>t \<in> set (ag_tables (fst st)). ht_ok E (snd st) t)"

lemma pids_distinctD:
  "pids_distinct ts \<Longrightarrow> i < length ts \<Longrightarrow> j < length ts \<Longrightarrow> ht_pid (ts ! i) = ht_pid (ts ! j) \<Longrightarrow> ht_pid (ts ! i) \<noteq> 0 \<Longrightarrow> i = j"
  unfolding pids_distinct_def by blast

lemma within_trans: "within c d \<Longrightarrow> within d g \<Longrightarrow> within c g"
  by (auto simp: within_def list_all_iff has_permission_def)

lemma issue_with_idem: "issue_with P i (issue_with P i c) = issue_with P i c"
  by (simp add: issue_with_def Let_def signable_digest_def signable_bytes_def sorted_tags_def)

lemma issue_with_fields [simp]: "cap_object_id (issue_with P i c) = cap_object_id c"
  "cap_permissions (issue_with P i c) = cap_permissions c" "has_permission (issue_with P i c) = has_permission c"
  "cap_wf (issue_with P i c) = cap_wf c" "within (issue_with P i c) = within c" "within d (issue_with P i c) = within d c"
  by (auto simp: issue_with_def Let_def has_permission_def cap_wf_def within_def fun_eq_iff)

lemma attenuate_within: "attenuate t h m = Ok c \<Longrightarrow> ht_get t h = Ok parent \<Longrightarrow> cap_wf parent \<Longrightarrow> within c parent"
  using attenuate_Ok [of t h m c parent] by (auto simp: within_def list_all_iff has_permission_def split: if_splits)

lemma ht_get_Ok: "ht_get t h = Ok c \<Longrightarrow> Some c \<in> set (ht_caps t)"
  by (auto simp: ht_get_def ok_or_def index_get_def split: option.splits if_splits) (metis nth_mem)

lemma ht_insert_ok:
  assumes "ht_ok E G t" and "ht_pid t \<noteq> 0" and "cap_backed E G (ht_pid t) c"
  shows "ht_ok E G (snd (ht_insert c t)) \<and> ht_pid (snd (ht_insert c t)) = ht_pid t"
  using assms set_update_subset_insert [of "ht_caps t" _ "Some c"]
  by (auto simp: ht_insert_def ht_ok_def split: option.splits)

lemma ht_remove_ok:
  "ht_ok E G t \<Longrightarrow> ht_ok E G (snd (ht_remove h t)) \<and> ht_pid (snd (ht_remove h t)) = ht_pid t"
  using set_update_subset_insert [of "ht_caps t" "unat h" None]
  by (auto simp: ht_remove_def ht_ok_def split: option.splits)

lemma table_of_Some: "table_of pid s = Some i \<Longrightarrow> i < length (ag_tables s) \<and> ht_pid (ag_tables s ! i) = pid \<and> pid \<noteq> 0"
  by (auto simp: table_of_def dest: position_SomeD)

lemma put_table_ok:
  assumes "handles_ok E (s, G)" and "i < length (ag_tables s)" and "ht_ok E G t" and "ht_pid t = ht_pid (ag_tables s ! i)"
  shows "handles_ok E (put_table i t s, G)"
proof -
  have "ht_pid ((ag_tables s)[i := t] ! j) = ht_pid (ag_tables s ! j)" for j
    using assms(2,4) by (cases "j = i") simp_all
  with assms(1) have "pids_distinct ((ag_tables s)[i := t])" by (simp add: handles_ok_def pids_distinct_def)
  with assms(1,3) set_update_subset_insert [of "ag_tables s" i t] show ?thesis
    by (auto simp: handles_ok_def put_table_def)
qed

lemma handles_ok_kernel [simp]: "handles_ok E (s\<lparr>ag_kernel := k\<rparr>, G) = handles_ok E (s, G)"
  "table_of pid (s\<lparr>ag_kernel := k\<rparr>) = table_of pid s"
  by (auto simp: handles_ok_def table_of_def)

lemma handles_ok_log [simp]: "handles_ok E (log_agents E' kind ps d s, G) = handles_ok E (s, G)"
  by (simp add: log_agents_def)

lemma ht_reset_pid [simp]: "ht_pid (ht_reset p t) = p"
  by (simp add: ht_reset_def)

lemma ht_ok_reset: "ht_ok E G t \<Longrightarrow> ht_ok E G' (ht_reset pid t)"
  by (auto simp: ht_ok_def ht_reset_def)

lemma cap_backed_filter: "cap_backed E G p c \<Longrightarrow> p \<noteq> pid \<Longrightarrow> cap_backed E (filter (\<lambda>g. fst g \<noteq> pid) G) p c"
  by (auto simp: cap_backed_def list_ex_iff)

lemma ht_ok_filter: "ht_ok E G t \<Longrightarrow> ht_pid t \<noteq> pid \<or> pid = 0 \<Longrightarrow> ht_ok E (filter (\<lambda>g. fst g \<noteq> pid) G) t"
  by (auto simp: ht_ok_def intro: cap_backed_filter)

lemma ht_ok_more: "ht_ok E G t \<Longrightarrow> ht_ok E (g # G) t"
  by (auto simp: ht_ok_def cap_backed_def)

text \<open>Emptying the table at \<open>i\<close> for \<open>pid\<close> when no other table is of \<open>pid\<close>.\<close>

lemma reset_table_ok:
  assumes ok: "handles_ok E (s, G)" and i: "i < length (ag_tables s)"
    and own: "ht_pid (ag_tables s ! i) = pid \<or> pid \<notin> ht_pid ` set (ag_tables s)" and p: "p = pid \<or> p = 0"
  shows "handles_ok E (s\<lparr>ag_tables := (ag_tables s)[i := ht_reset p (ag_tables s ! i)]\<rparr>, filter (\<lambda>g. fst g \<noteq> pid) G)"
proof -
  let ?ts = "ag_tables s" and ?t = "ht_reset p (ag_tables s ! i)"
  have other: "ht_pid (?ts ! j) \<noteq> pid" if "j < length ?ts" "j \<noteq> i" "pid \<noteq> 0" for j
    using own ok i that pids_distinctD [of ?ts i j] by (auto simp: handles_ok_def)
  have "pids_distinct (?ts[i := ?t])"
    unfolding pids_distinct_def
  proof (intro allI impI)
    fix j l
    assume "j < length (?ts[i := ?t])" "l < length (?ts[i := ?t])" "j \<noteq> l" "ht_pid (?ts[i := ?t] ! j) \<noteq> 0"
    then show "ht_pid (?ts[i := ?t] ! j) \<noteq> ht_pid (?ts[i := ?t] ! l)"
      using p i other [of j] other [of l] ok pids_distinctD [of ?ts j l] by (auto simp: nth_list_update handles_ok_def)
  qed
  moreover have "ht_ok E (filter (\<lambda>g. fst g \<noteq> pid) G) (?ts[i := ?t] ! j)" if j: "j < length ?ts" for j
  proof (cases "j = i")
    case True
    with ok i show ?thesis by (auto simp: handles_ok_def intro: ht_ok_reset)
  next
    case False
    with ok j other [of j] show ?thesis by (auto simp: handles_ok_def intro!: ht_ok_filter)
  qed
  ultimately show ?thesis using ok by (auto simp: handles_ok_def in_set_conv_nth)
qed

lemma create_table_ok:
  assumes "handles_ok E (s, G)"
  shows "handles_ok E (handle_step E (s, G) (OpCreate pid))"
proof (cases "position (\<lambda>t. ht_pid t = pid) (ag_tables s)")
  case (Some i)
  then show ?thesis using reset_table_ok [OF assms, of i pid pid] position_SomeD [OF Some] by (simp add: create_table_def)
next
  case None
  then have "pid \<notin> ht_pid ` set (ag_tables s)" by (auto simp: position_NoneD)
  with None assms show ?thesis
    using reset_table_ok [OF assms, of _ pid pid]
    by (auto simp: create_table_def split: option.splits dest: position_SomeD)
qed

lemma destroy_table_ok:
  assumes "handles_ok E (s, G)"
  shows "handles_ok E (handle_step E (s, G) (OpDestroy pid))"
proof (cases "position (\<lambda>t. ht_pid t = pid) (ag_tables s)")
  case (Some i)
  then show ?thesis using reset_table_ok [OF assms, of i pid 0] position_SomeD [OF Some] by (simp add: destroy_table_def)
next
  case None
  then have "\<forall>t \<in> set (ag_tables s). ht_pid t \<noteq> pid" by (simp add: position_NoneD)
  moreover have "destroy_table pid s = s" using None by (simp add: destroy_table_def)
  ultimately show ?thesis using assms by (auto simp: handles_ok_def intro: ht_ok_filter)
qed

lemma insert_ok:
  assumes "handles_ok E (s, G)" and "table_of pid s = Some i" and "cap_backed E G pid c"
  shows "handles_ok E (put_table i (snd (ht_insert c (ag_tables s ! i))) s, G)"
proof -
  note i = table_of_Some [OF assms(2)]
  then have "ht_ok E G (ag_tables s ! i)" using assms(1) by (auto simp: handles_ok_def)
  from ht_insert_ok [OF this] i assms(3) put_table_ok [OF assms(1)] show ?thesis by auto
qed

lemma grant_step_ok:
  assumes "handles_ok E (s, G)"
  shows "handles_ok E (handle_step E (s, G) (OpGrant pid ob perms))"
proof -
  let ?g = "with_permissions (ob_id ob) perms"
  let ?c = "issue_with (env_prims E) (env_issuer E) ?g"
  have backed: "cap_backed E ((pid, ?g) # G) pid ?c"
    by (auto simp: cap_backed_def issue_with_idem with_permissions_wf within_def list_all_iff has_permission_def)
  have more: "handles_ok E (s\<lparr>ag_kernel := k\<rparr>, (pid, ?g) # G)" for k
    using assms by (auto simp: handles_ok_def intro: ht_ok_more)
  show ?thesis
  proof (cases "table_of pid s")
    case None
    with assms show ?thesis by (simp add: grant_def issue_def Let_def)
  next
    case (Some i)
    define s' where "s' = s\<lparr>ag_kernel := (ag_kernel s)\<lparr>kn_log := snd (issue (ke_audit E) ?g (kn_log (ag_kernel s)))\<rparr>\<rparr>"
    have s': "table_of pid s' = Some i" "ag_tables s' = ag_tables s" using Some by (simp_all add: s'_def)
    obtain r t where ins: "ht_insert ?c (ag_tables s ! i) = (r, t)" by fastforce
    have old: "t = ag_tables s ! i" if "r = Err e" for e
      using ins that by (auto simp: ht_insert_def split: option.splits)
    have "handles_ok E (put_table i t s', (pid, ?g) # G)"
      using insert_ok [OF _ s'(1) backed] more ins s'(2) by (simp add: s'_def)
    moreover have "put_table i (ag_tables s ! i) s' = s'" by (simp add: put_table_def s'(2) [symmetric])
    moreover have "handles_ok E (s', G)" using assms by (simp add: s'_def)
    ultimately show ?thesis
      using Some ins old by (auto simp: grant_def issue_def Let_def s'_def split: result.splits)
  qed
qed

lemma drop_step_ok:
  assumes "handles_ok E (s, G)"
  shows "handles_ok E (handle_step E (s, G) (OpDrop pid h))"
proof (cases "table_of pid s")
  case (Some i)
  note i = table_of_Some [OF Some]
  with assms have "ht_ok E G (ag_tables s ! i)" by (auto simp: handles_ok_def)
  from ht_remove_ok [OF this] i have "handles_ok E (put_table i (snd (ht_remove h (ag_tables s ! i))) s, G)"
    by (intro put_table_ok [OF assms]) auto
  then show ?thesis using Some by (auto simp: sys_cap_drop_def split: prod.splits result.splits)
qed (use assms in \<open>simp add: sys_cap_drop_def\<close>)

lemma derive_child_Ok:
  assumes "derive_child E i h m s = (r, s')"
  obtains k where "s' = s\<lparr>ag_kernel := k\<rparr>"
    and "\<And>c. r = Ok c \<Longrightarrow> attenuate (ag_tables s ! i) h m = Ok c \<and> (\<exists>parent. ht_get (ag_tables s ! i) h = Ok parent)"
proof (cases "ht_get (ag_tables s ! i) h")
  case (Ok parent)
  obtain b vc where v: "cap_verify (env_prims E) (env_issuer E) parent (kn_cache (ag_kernel s)) = (b, vc)" by fastforce
  show ?thesis
    by (rule that [of "(ag_kernel s)\<lparr>kn_cache := vc\<rparr>"]) (use assms Ok v in \<open>auto simp: derive_child_def Let_def split: if_splits\<close>)
next
  case (Err e)
  show ?thesis by (rule that [of "ag_kernel s"]) (use assms Err in \<open>auto simp: derive_child_def\<close>)
qed

lemma derived_backed:
  assumes "handles_ok E (s, G)" and "table_of pid s = Some i"
    and "attenuate (ag_tables s ! i) h m = Ok c" and "ht_get (ag_tables s ! i) h = Ok parent"
  shows "cap_backed E G pid (issue_with (env_prims E) (env_issuer E) c)"
proof -
  note i = table_of_Some [OF assms(2)]
  with assms(1) have "ht_ok E G (ag_tables s ! i)" by (auto simp: handles_ok_def)
  with ht_get_Ok [OF assms(4)] i have p: "cap_backed E G pid parent" by (auto simp: ht_ok_def)
  then have wf: "cap_wf parent" by (simp add: cap_backed_def)
  have "within c parent" by (rule attenuate_within [OF assms(3,4) wf])
  with p attenuate_Ok(2) [OF assms(3,4) wf] show ?thesis
    by (auto simp: cap_backed_def list_ex_iff issue_with_idem intro: within_trans)
qed

lemma derive_step_ok:
  assumes "handles_ok E (s, G)"
  shows "handles_ok E (handle_step E (s, G) (OpDerive pid h m))"
proof (cases "table_of pid s")
  case (Some i)
  obtain r s1 where d: "derive_child E i h m s = (r, s1)" by fastforce
  then obtain k where s1: "s1 = s\<lparr>ag_kernel := k\<rparr>"
    and a: "\<And>c. r = Ok c \<Longrightarrow> attenuate (ag_tables s ! i) h m = Ok c \<and> (\<exists>parent. ht_get (ag_tables s ! i) h = Ok parent)"
    by (rule derive_child_Ok) blast
  show ?thesis
  proof (cases r)
    case (Ok c)
    define s2 where "s2 = s1\<lparr>ag_kernel := (ag_kernel s1)\<lparr>kn_log := snd (issue (ke_audit E) c (kn_log (ag_kernel s1)))\<rparr>\<rparr>"
    have s2: "table_of pid s2 = Some i" "ag_tables s2 = ag_tables s" "handles_ok E (s2, G)"
      using Some assms by (simp_all add: s2_def s1)
    have "cap_backed E G pid (issue_with (env_prims E) (env_issuer E) c)"
      using a [OF Ok] derived_backed [OF assms Some] by blast
    from insert_ok [OF s2(3,1) this] s2(2) show ?thesis
      using Some d Ok
      by (auto simp: sys_cap_derive_def issue_def Let_def s2_def s1 split: prod.splits result.splits)
  next
    case (Err e)
    with Some d s1 assms show ?thesis by (cases e) (simp_all add: sys_cap_derive_def audit_denied_def)
  qed
qed (use assms in \<open>simp add: sys_cap_derive_def\<close>)

interpretation handles: machine "handle_step E" "handles_ok E" for E
proof unfold_locales
  fix st x
  assume "handles_ok E st"
  then show "handles_ok E (handle_step E st x)"
    by (cases st; cases x) (simp_all only: create_table_ok destroy_table_ok grant_step_ok drop_step_ok derive_step_ok)
qed

lemma handles_ok_new: "handles_ok E (agents_new k, [])"
  by (auto simp: handles_ok_def agents_new_def ht_ok_def ht_new_def pids_distinct_def)

lemma all_caps_set: "(pid, c) \<in> set (all_caps s) \<longleftrightarrow> (\<exists>t \<in> set (ag_tables s). ht_pid t = pid \<and> pid \<noteq> 0 \<and> Some c \<in> set (ht_caps t))"
  by (auto simp: all_caps_def List.map_filter_def image_iff) force

lemma handle_cap_Ok: "handle_cap pid h s = Ok c \<Longrightarrow> \<exists>i. table_of pid s = Some i \<and> ht_get (ag_tables s ! i) h = Ok c"
  by (auto simp: handle_cap_def split: option.splits)

lemma held_backed:
  assumes "handles_ok E (s, G)" and "handle_cap pid h s = Ok c"
  shows "cap_backed E G pid c"
  using handle_cap_Ok [OF assms(2)] table_of_Some [of pid s] assms(1)
  by (auto simp: handles_ok_def ht_ok_def dest!: ht_get_Ok)

text \<open>Inserting into a table: the handle returned was free, now holds the capability, and no other changes.\<close>

lemma ht_insert_Ok:
  assumes "ht_insert c t = (Ok n, t')" and "length (ht_caps t) = MAX_HANDLES"
  shows "ht_get t (ucast n) = Err BadHandle \<and> ht_pid t' = ht_pid t \<and>
    (\<forall>h. ht_get t' h = (if h = ucast n then Ok c else ht_get t h))"
proof -
  from assms(1) obtain i where i: "position (\<lambda>x. x = None) (ht_caps t) = Some i" "n = of_nat i"
    "t' = t\<lparr>ht_caps := (ht_caps t)[i := Some c]\<rparr>" by (auto simp: ht_insert_def split: option.splits)
  note p = position_SomeD [OF i(1)]
  have n: "unat (ucast n :: u64) = i" using p i(2) assms(2) by (simp add: unsigned_ucast_eq unat_of_nat take_bit_nat_eq_self)
  then have "h = ucast n \<longleftrightarrow> unat h = i" for h :: u64 by (metis word_unat_eq_iff)
  with n p i(3) show ?thesis by (auto simp: ht_get_def index_get_def ok_or_def nth_list_update)
qed

definition escalates :: "u64 \<Rightarrow> capability \<Rightarrow> bool" where
  "escalates m parent \<longleftrightarrow> m AND NOT (permission_mask parent) AND NOT APPROVAL_BIT \<noteq> 0"

lemma attenuate_cases:
  "ht_get t h = Ok parent \<Longrightarrow> (if escalates m parent then attenuate t h m = Err Escalation else \<exists>c. attenuate t h m = Ok c)"
  by (simp add: attenuate_def escalates_def Let_def)

lemma table_of_put: "table_of pid s = Some i \<Longrightarrow> ht_pid t = pid \<Longrightarrow> table_of pid (put_table i t s) = Some i"
proof -
  have "position (\<lambda>t. ht_pid t = pid \<and> pid \<noteq> 0) (ts[i := t]) = Some i"
    if "position (\<lambda>t. ht_pid t = pid \<and> pid \<noteq> 0) ts = Some i" "ht_pid t = pid" for ts
    using that by (induction ts arbitrary: i) (auto split: if_splits)
  then show "table_of pid s = Some i \<Longrightarrow> ht_pid t = pid \<Longrightarrow> ?thesis" by (simp add: table_of_def put_table_def)
qed

lemma handle_cap_cong: "ag_tables s' = ag_tables s \<Longrightarrow> handle_cap pid h s' = handle_cap pid h s"
  by (simp add: handle_cap_def table_of_def split: option.split)

lemma handle_cap_kernel [simp]: "handle_cap pid h (s\<lparr>ag_kernel := k\<rparr>) = handle_cap pid h s"
  "ag_tables (log_agents E kind ps d s) = ag_tables s" "handle_cap pid h (log_agents E kind ps d s) = handle_cap pid h s"
  by (auto simp: log_agents_def intro: handle_cap_cong)

section \<open>Permission lists read back\<close>

lemma fold_filter: "foldl (\<lambda>s p. if Q p then f s p else s) s ps = foldl f s (filter Q ps)"
  by (induction ps arbitrary: s) auto

text \<open>The names of a permission list; every sublist of the seven fits in 48 bytes.\<close>

definition names_of :: "permission list \<Rightarrow> str" where
  "names_of ps = foldl (\<lambda>s p. push_str 48 (if s \<noteq> [] then push_str 48 s '','' else s) (permission_name p)) [] ps"

lemma permission_names_eq: "permission_names m = names_of (filter (\<lambda>p. bit m (unat (tag p))) ALL_PERMISSIONS)"
  by (simp add: permission_names_def names_of_def fold_filter and_perm_bit)

lemma names_read_back:
  "list_all (\<lambda>ps. parse_permissions (names_of ps) = (if ps = [] then None else Some ps)) (subseqs ALL_PERMISSIONS)"
  by code_simp

lemma filter_subseqs: "filter P xs \<in> set (subseqs xs)"
  by (induction xs) (auto simp: Let_def)

section \<open>Properties\<close>

text \<open>
  C34: Authority never grows. After any sequence of table creations and destructions, grants,
  drops and derivations (failed ones included), every capability a process holds carries the
  kernel's own signature over exactly its content and lies within a grant made to that process
  since its table was created: the same object, no permission the grant lacks except the
  approval constraint, and the approval constraint kept when the grant had it.
\<close>

theorem handles_trace_to_grants:
  "case foldl (handle_step E) (agents_new k, []) ops of (s, G) \<Rightarrow>
     list_all (\<lambda>(pid, c). issue_with (env_prims E) (env_issuer E) c = c \<and>
       list_ex (\<lambda>(gpid, g). gpid = pid \<and> within c g) G) (all_caps s)"
proof -
  obtain s G where run: "foldl (handle_step E) (agents_new k, []) ops = (s, G)" by fastforce
  with handles.inv_run [OF handles_ok_new, of E k ops] have "handles_ok E (s, G)" by simp
  then have "cap_backed E G pid c" if "(pid, c) \<in> set (all_caps s)" for pid c
    using that by (auto simp: all_caps_set handles_ok_def ht_ok_def)
  with run show ?thesis by (fastforce simp: list_all_iff list_ex_iff cap_backed_def)
qed

text \<open>
  The list of permission names printed for a mask reads back as exactly the permissions in
  it, in the fixed order, and the printed list of an empty mask is refused.
\<close>

theorem permission_names_round_trip:
  "parse_permissions (permission_names m) =
     (let ps = filter (\<lambda>p. bit m (unat (tag p))) ALL_PERMISSIONS in if ps = [] then None else Some ps)"
  using names_read_back filter_subseqs [of "\<lambda>p. bit m (unat (tag p))" ALL_PERMISSIONS]
  by (simp add: permission_names_eq list_all_iff Let_def)


definition demo_object :: kernel_object where
  "demo_object = \<lparr>ob_id = ''obj-1'', ob_kind = ''agent'', ob_intent = ''background'', ob_queue = []\<rparr>"


end
