(* ===== verification/Policy.thy ===== *)
theory Policy
  imports Handles ToolMsg Approvals
begin

text \<open>
  Policy rules, \<open>src/policy.rs\<close>: labels, the rules \<open>deny\<close>, \<open>separate\<close> and \<open>approval\<close>, the
  violations of a set of grants, the reach diff shown to the operator, the parser of the policy
  file, quorums and peer trust. Shown: the list of violations is empty exactly when every rule
  holds of every agent's handles, the diff is empty exactly when no agent gains anything, a file
  either parses to a well-formed policy or is refused at one of its lines, and a policy written
  as text reads back. The review of changes is in \<open>Review\<close>.
\<close>

section \<open>Rules\<close>

abbreviation MAX_LABEL :: nat where "MAX_LABEL \<equiv> 24"
abbreviation MAX_RULES :: nat where "MAX_RULES \<equiv> 16"
abbreviation MAX_LABELS :: nat where "MAX_LABELS \<equiv> 32"
abbreviation PEER_PREFIX :: str where "PEER_PREFIX \<equiv> ''peer:''"
abbreviation KIND_PREFIX :: str where "KIND_PREFIX \<equiv> ''tool:''"
abbreviation DEFAULT_APPROVAL_TIMEOUT_S :: u16 where "DEFAULT_APPROVAL_TIMEOUT_S \<equiv> 300"
abbreviation POLICY_QUORUM :: str where "POLICY_QUORUM \<equiv> ''policy''"

definition policy_bit :: "permission \<Rightarrow> u64" where
  "policy_bit p = push_bit (case p of Read \<Rightarrow> 1 | Write \<Rightarrow> 2 | Execute \<Rightarrow> 3 | SendMessage \<Rightarrow> 4
     | ReceiveMessage \<Rightarrow> 5 | Delete \<Rightarrow> 6 | RequiresApproval \<Rightarrow> 7) 1"

definition EFFECT_MASK :: u64 where
  "EFFECT_MASK = policy_bit Execute OR policy_bit SendMessage OR policy_bit Write OR policy_bit Delete"

definition APPROVAL :: u64 where
  "APPROVAL = policy_bit RequiresApproval"

datatype rule = Deny str | Separate str str | Approval str

definition label_char :: "char \<Rightarrow> bool" where
  "label_char c \<longleftrightarrow> is_ascii_alphanumeric c \<or> c \<in> set ''-_.:''"

definition label :: "str \<Rightarrow> (str, str) result" where
  "label s =
     (if s = [] \<or> \<not> list_all label_char s then Err ''labels use letters, digits, - _ . :''
      else ok_or (bounded_str MAX_LABEL s) ''label too long (max 24)'')"

definition rule_parse :: "str \<Rightarrow> (rule, str) result" where
  "rule_parse s =
     (let usage = Err ''rules: deny <label> | separate <a> <b> | approval <label>'' in
      case split_whitespace s of
        [w, l] \<Rightarrow>
          if w = ''deny'' then result_bind (label l) (\<lambda>l. Ok (Deny l))
          else if w = ''approval'' then result_bind (label l) (\<lambda>l. Ok (Approval l))
          else usage
      | w # a # b # extra \<Rightarrow>
          if w = ''separate'' \<and> a \<noteq> b then
            result_bind (label a) (\<lambda>a. result_bind (label b) (\<lambda>b.
              if extra \<noteq> [] then Err ''too many words'' else Ok (Separate a b)))
          else usage
      | _ \<Rightarrow> usage)"

primrec rule_display :: "rule \<Rightarrow> str" where
  "rule_display (Deny l) = ''deny '' @ l"
| "rule_display (Separate a b) = ''separate '' @ a @ '' '' @ b"
| "rule_display (Approval l) = ''approval '' @ l"

section \<open>Grants, labels and violations\<close>

record grant_view =
  gv_pid :: u32
  gv_object :: str
  gv_kind :: str
  gv_flags :: u8
  gv_mask :: u64

text \<open>Object ids are ASCII and kinds have at most 32 bytes, so the cuts are at character boundaries.\<close>

definition grant_new :: "u32 \<Rightarrow> str \<Rightarrow> str \<Rightarrow> u8 \<Rightarrow> u64 \<Rightarrow> grant_view" where
  "grant_new pid ob kind flags m =
     \<lparr>gv_pid = pid, gv_object = take 16 ob, gv_kind = take 32 kind, gv_flags = flags, gv_mask = m\<rparr>"

datatype violation =
    ReachDenied u32 str str
  | ReachSeparated u32 str str
  | NeedsApproval u32 str str

record change =
  ch_pid :: u32
  ch_object :: str
  ch_kind :: str
  ch_flags :: u8
  ch_added :: u64
  ch_gated :: bool

record trust =
  tr_node :: str
  tr_object :: str
  tr_mask :: u64

record policy =
  po_rules :: "rule list"
  po_labels :: "(str \<times> str) list"
  po_quorums :: "(str \<times> u8) list"
  po_timeout :: u16
  po_trusts :: "trust list"
  po_sealed :: bool

definition policy_new :: policy where
  "policy_new = \<lparr>po_rules = [], po_labels = [], po_quorums = [], po_timeout = DEFAULT_APPROVAL_TIMEOUT_S,
     po_trusts = [], po_sealed = False\<rparr>"

definition trusted :: "policy \<Rightarrow> str \<Rightarrow> str \<Rightarrow> u64" where
  "trusted p node ob =
     foldl (\<lambda>m t. m OR tr_mask t) 0
       (filter (\<lambda>t. tr_node t = node \<and> (tr_object t = ob \<or> tr_object t = ''*'')) (po_trusts p))"

text \<open>\<open>iter().max().unwrap_or(1)\<close>.\<close>

definition max_or_1 :: "u8 list \<Rightarrow> u8" where
  "max_or_1 ns = (case ns of [] \<Rightarrow> 1 | n # r \<Rightarrow> foldl max n r)"

definition quorum_for :: "policy \<Rightarrow> str list \<Rightarrow> u8" where
  "quorum_for p labels = max_or_1 (map snd (filter (\<lambda>(l, _). l \<in> set labels) (po_quorums p)))"

definition policy_quorum :: "policy \<Rightarrow> u8" where
  "policy_quorum p = (case List.find (\<lambda>(l, _). l = POLICY_QUORUM) (po_quorums p) of None \<Rightarrow> 1 | Some (_, n) \<Rightarrow> n)"

definition max_quorum :: "policy \<Rightarrow> u8" where
  "max_quorum p = max_or_1 (map snd (po_quorums p))"

text \<open>The closure \<open>add\<close> of \<open>labels_of\<close>: twelve labels at most, each once.\<close>

definition add_to :: "str list \<Rightarrow> str \<Rightarrow> str list" where
  "add_to out l =
     (if l \<in> set out then out
      else case bounded_str MAX_LABEL l of
        None \<Rightarrow> out
      | Some l \<Rightarrow> (case bounded_push 12 out l of None \<Rightarrow> out | Some o' \<Rightarrow> o'))"

definition auto_labels :: "str \<Rightarrow> u8 \<Rightarrow> str list" where
  "auto_labels kind flags =
     (if starts_with KIND_PREFIX kind then [''tool''] else []) @
     (if starts_with MODEL_PREFIX kind then [''model''] else []) @
     (if flags AND FLAG_CREDENTIAL \<noteq> 0 then [''credential''] else []) @
     (if flags AND FLAG_REMOTE \<noteq> 0 then [''remote''] else []) @
     (case strip_prefix PEER_PREFIX kind of
        None \<Rightarrow> []
      | Some rest \<Rightarrow>
          ''peer'' # (let node = hd (split_on CHR ''/'' rest) in if 5 + length node \<le> 24 then [PEER_PREFIX @ node] else []))"

definition labels_of :: "policy \<Rightarrow> str \<Rightarrow> str \<Rightarrow> u8 \<Rightarrow> str list" where
  "labels_of p ob kind flags =
     foldl add_to (foldl add_to [] (auto_labels kind flags))
       (map snd (filter (\<lambda>(sel, _). sel = ob \<or> sel = kind) (po_labels p)))"

definition has_label :: "policy \<Rightarrow> grant_view \<Rightarrow> str \<Rightarrow> bool" where
  "has_label p g l \<longleftrightarrow> l \<in> set (labels_of p (gv_object g) (gv_kind g) (gv_flags g))"

definition pids_in_order :: "grant_view list \<Rightarrow> u32 list" where
  "pids_in_order gs = foldl (\<lambda>ps g. if gv_pid g \<in> set ps then ps else ps @ [gv_pid g]) [] gs"

definition ungated_effect :: "grant_view \<Rightarrow> bool" where
  "ungated_effect g \<longleftrightarrow> gv_mask g AND EFFECT_MASK \<noteq> 0 \<and> gv_mask g AND APPROVAL = 0"

primrec rule_violations :: "policy \<Rightarrow> grant_view list \<Rightarrow> rule \<Rightarrow> violation list" where
  "rule_violations p gs (Deny l) =
     map (\<lambda>g. ReachDenied (gv_pid g) (gv_object g) l) (filter (\<lambda>g. gv_mask g \<noteq> 0 \<and> has_label p g l) gs)"
| "rule_violations p gs (Approval l) =
     map (\<lambda>g. NeedsApproval (gv_pid g) (gv_object g) l) (filter (\<lambda>g. ungated_effect g \<and> has_label p g l) gs)"
| "rule_violations p gs (Separate a b) =
     map (\<lambda>pid. ReachSeparated pid a b)
       (filter (\<lambda>pid. let mine = filter (\<lambda>g. gv_pid g = pid \<and> gv_mask g \<noteq> 0) gs in
          list_ex (\<lambda>g. has_label p g a) mine \<and> list_ex (\<lambda>g. has_label p g b) mine) (pids_in_order gs))"

definition violations :: "policy \<Rightarrow> grant_view list \<Rightarrow> violation list" where
  "violations p gs = concat (map (rule_violations p gs) (po_rules p))"

section \<open>Reach diff\<close>

definition reach_mask :: "grant_view list \<Rightarrow> u32 \<Rightarrow> str \<Rightarrow> u64" where
  "reach_mask gs pid ob = foldl (\<lambda>m g. m OR gv_mask g) 0 (filter (\<lambda>g. gv_pid g = pid \<and> gv_object g = ob) gs)"

definition ungated :: "grant_view list \<Rightarrow> u32 \<Rightarrow> str \<Rightarrow> bool" where
  "ungated gs pid ob \<longleftrightarrow> list_ex (\<lambda>g. gv_pid g = pid \<and> gv_object g = ob \<and> ungated_effect g) gs"

definition diff_one :: "grant_view list \<Rightarrow> grant_view list \<Rightarrow> change list \<Rightarrow> grant_view \<Rightarrow> change list" where
  "diff_one bef aft out g =
     (let pid = gv_pid g; ob = gv_object g in
      if list_ex (\<lambda>c. ch_pid c = pid \<and> ch_object c = ob) out then out
      else
        let now = reach_mask aft pid ob;
            added = now AND NOT (reach_mask bef pid ob) AND NOT APPROVAL;
            ungated_now = ungated aft pid ob;
            ungated_before = ungated bef pid ob in
        if added \<noteq> 0 \<or> ungated_now \<and> \<not> ungated_before then
          out @ [\<lparr>ch_pid = pid, ch_object = ob, ch_kind = gv_kind g, ch_flags = gv_flags g,
            ch_added = (if added \<noteq> 0 then added else now AND EFFECT_MASK), ch_gated = (\<not> ungated_now)\<rparr>]
        else out)"

definition diff :: "grant_view list \<Rightarrow> grant_view list \<Rightarrow> change list" where
  "diff bef aft = foldl (diff_one bef aft) [] aft"

definition policy_digest :: "prims \<Rightarrow> str \<Rightarrow> u64" where
  "policy_digest P t = be_prefix (sha256 P (as_bytes t))"

section \<open>Policy files\<close>

definition valid_node_name :: "str \<Rightarrow> bool" where
  "valid_node_name s \<longleftrightarrow> s \<noteq> [] \<and> length s \<le> 16 \<and>
     list_all (\<lambda>c. is_ascii_lowercase c \<or> is_ascii_digit c \<or> c \<in> set ''-_'') s"

definition valid_object_name :: "str \<Rightarrow> bool" where
  "valid_object_name s \<longleftrightarrow> s \<noteq> [] \<and> length s \<le> 10 \<and>
     list_all (\<lambda>c. is_ascii_alphanumeric c \<or> c \<in> set ''-_.'') s"

definition add_rule :: "rule \<Rightarrow> policy \<Rightarrow> (policy, str) result" where
  "add_rule r p =
     (if r \<in> set (po_rules p) then Err ''rule already present''
      else case bounded_push MAX_RULES (po_rules p) r of
        None \<Rightarrow> Err ''too many rules'' | Some rs \<Rightarrow> Ok (p\<lparr>po_rules := rs\<rparr>))"

definition add_label :: "str \<Rightarrow> str \<Rightarrow> policy \<Rightarrow> (policy, str) result" where
  "add_label selector l p =
     result_bind (ok_or (bounded_str 32 selector) ''object selector too long'') (\<lambda>sel.
     result_bind (label l) (\<lambda>l.
       if (sel, l) \<in> set (po_labels p) then Err ''label already present''
       else case bounded_push MAX_LABELS (po_labels p) (sel, l) of
         None \<Rightarrow> Err ''too many labels'' | Some ls \<Rightarrow> Ok (p\<lparr>po_labels := ls\<rparr>)))"

definition remove_label :: "str \<Rightarrow> str \<Rightarrow> policy \<Rightarrow> (policy, str) result" where
  "remove_label selector l p =
     (case position (\<lambda>(s, x). s = selector \<and> x = l) (po_labels p) of
        None \<Rightarrow> Err ''no such label''
      | Some i \<Rightarrow> Ok (p\<lparr>po_labels := take i (po_labels p) @ drop (Suc i) (po_labels p)\<rparr>))"

definition parse_quorum :: "str \<Rightarrow> policy \<Rightarrow> (policy, str) result" where
  "parse_quorum rest p =
     (case split_whitespace rest of
        [l, n] \<Rightarrow>
          (case parse_uint 256 n of
             Some n \<Rightarrow>
               if 1 \<le> n \<and> n \<le> 8 then
                 result_bind (label l) (\<lambda>l.
                   if l \<in> fst ` set (po_quorums p) then Err ''quorum for this label already set''
                   else case bounded_push 8 (po_quorums p) (l, of_nat n) of
                     None \<Rightarrow> Err ''too many quorum rules'' | Some qs \<Rightarrow> Ok (p\<lparr>po_quorums := qs\<rparr>))
               else Err ''quorum must be 1..=8''
           | None \<Rightarrow> Err ''quorum must be 1..=8'')
      | _ \<Rightarrow> Err ''quorum <label|policy> <n>'')"

definition parse_timeout :: "str \<Rightarrow> policy \<Rightarrow> (policy, str) result" where
  "parse_timeout rest p =
     (case parse_uint 65536 (trim rest) of
        Some n \<Rightarrow>
          if 10 \<le> n \<and> n \<le> 3600 then Ok (p\<lparr>po_timeout := of_nat n\<rparr>)
          else Err ''approval-timeout must be 10..=3600 seconds''
      | None \<Rightarrow> Err ''approval-timeout must be 10..=3600 seconds'')"

definition parse_require :: "str \<Rightarrow> policy \<Rightarrow> (policy, str) result" where
  "parse_require rest p =
     (if trim rest = ''sealed-store'' then Ok (p\<lparr>po_sealed := True\<rparr>) else Err ''require sealed-store'')"

definition parse_trust :: "str \<Rightarrow> policy \<Rightarrow> (policy, str) result" where
  "parse_trust rest p =
     (case split_whitespace rest of
        [node, ob, perms] \<Rightarrow>
          if \<not> valid_node_name node then Err ''node names: a-z 0-9 - _ (at most 16)''
          else if ob \<noteq> ''*'' \<and> \<not> valid_object_name ob then
            Err ''object names: letters, digits, - _ . (at most 10), or *''
          else
            (case parse_permissions perms of
               None \<Rightarrow> Err ''perms: read,write,exec,send,recv,delete,approval''
             | Some ps \<Rightarrow>
                 (case (bounded_str 16 node, bounded_str 16 ob) of
                    (Some node, Some ob) \<Rightarrow>
                      (case bounded_push 16 (po_trusts p)
                          \<lparr>tr_node = node, tr_object = ob, tr_mask = foldl (\<lambda>m q. m OR policy_bit q) 0 ps\<rparr> of
                         None \<Rightarrow> Err ''too many trust rules'' | Some ts \<Rightarrow> Ok (p\<lparr>po_trusts := ts\<rparr>))
                  | (None, _) \<Rightarrow> Err ''node name''
                  | (_, None) \<Rightarrow> Err ''object name''))
      | _ \<Rightarrow> Err ''trust <node> <object|*> <perms>'')"

definition parse_label :: "str \<Rightarrow> policy \<Rightarrow> (policy, str) result" where
  "parse_label rest p =
     (case split_whitespace rest of
        [sel, l] \<Rightarrow> add_label sel l p
      | _ \<Rightarrow> Err ''label <object-or-kind> <label>'')"

text \<open>One line of the file, comment and surrounding space removed.\<close>

definition parse_entry :: "str \<Rightarrow> policy \<Rightarrow> (policy, str) result" where
  "parse_entry line p =
     (case strip_prefix ''quorum '' line of
        Some rest \<Rightarrow> parse_quorum rest p
      | None \<Rightarrow>
     (case strip_prefix ''approval-timeout '' line of
        Some rest \<Rightarrow> parse_timeout rest p
      | None \<Rightarrow>
     (case strip_prefix ''require '' line of
        Some rest \<Rightarrow> parse_require rest p
      | None \<Rightarrow>
     (case strip_prefix ''trust '' line of
        Some rest \<Rightarrow> parse_trust rest p
      | None \<Rightarrow>
     (case strip_prefix ''label '' line of
        Some rest \<Rightarrow> parse_label rest p
      | None \<Rightarrow> result_bind (rule_parse line) (\<lambda>r. add_rule r p))))))"

fun parse_lines :: "nat \<Rightarrow> str list \<Rightarrow> policy \<Rightarrow> (policy, nat \<times> str) result" where
  "parse_lines i [] p = Ok p"
| "parse_lines i (l # ls) p =
     (let line = trim (hd (split_on CHR ''#'' l)) in
      if line = [] then parse_lines (Suc i) ls p
      else case parse_entry line p of
        Err m \<Rightarrow> Err (i + 1, m)
      | Ok p \<Rightarrow> parse_lines (Suc i) ls p)"

definition policy_parse :: "str \<Rightarrow> (policy, nat \<times> str) result" where
  "policy_parse t = parse_lines 0 (lines t) policy_new"

definition trust_display :: "trust \<Rightarrow> str" where
  "trust_display t = ''trust '' @ tr_node t @ '' '' @ tr_object t @ '' '' @ permission_names (tr_mask t)"

section \<open>The kernel's policy state\<close>

record policy_state =
  ps_policy :: policy
  ps_review :: bool
  ps_broken :: bool
  ps_loaded :: bool
  ps_staged :: "(u32 \<times> str \<times> str) list option"

definition policy_state_new :: policy_state where
  "policy_state_new = \<lparr>ps_policy = policy_new, ps_review = True, ps_broken = False, ps_loaded = False, ps_staged = None\<rparr>"

definition policy_begin :: "policy_state \<Rightarrow> (unit, str) result \<times> policy_state" where
  "policy_begin s =
     (if ps_staged s \<noteq> None then (Err ''a batch is already open (policy commit / policy abort)'', s)
      else (Ok (), s\<lparr>ps_staged := Some []\<rparr>))"

definition stage :: "u32 \<Rightarrow> str \<Rightarrow> str \<Rightarrow> policy_state \<Rightarrow> (nat, str) result \<times> policy_state" where
  "stage pid ob perms s =
     (case ps_staged s of
        None \<Rightarrow> (Err ''no open batch'', s)
      | Some batch \<Rightarrow>
          (case (bounded_str 32 ob, bounded_str 48 perms) of
             (None, _) \<Rightarrow> (Err ''object reference too long'', s)
           | (_, None) \<Rightarrow> (Err ''permissions too long'', s)
           | (Some ob', Some p) \<Rightarrow>
               (case bounded_push 16 batch (pid, ob', p) of
                  None \<Rightarrow> (Err ''batch full (16)'', s)
                | Some b \<Rightarrow> (Ok (length b), s\<lparr>ps_staged := Some b\<rparr>))))"

definition take_batch :: "policy_state \<Rightarrow> (u32 \<times> str \<times> str) list option \<times> policy_state" where
  "take_batch s = (ps_staged s, s\<lparr>ps_staged := None\<rparr>)"

section \<open>Labels and violations\<close>

text \<open>Every label that applies to a grant, before the limit of twelve.\<close>

definition applicable :: "policy \<Rightarrow> grant_view \<Rightarrow> str list" where
  "applicable p g = auto_labels (gv_kind g) (gv_flags g) @
     map snd (filter (\<lambda>(sel, _). sel = gv_object g \<or> sel = gv_kind g) (po_labels p))"

lemma add_to_fold:
  assumes "list_all (\<lambda>l. length l \<le> MAX_LABEL) ls" and "distinct out" and "card (set out \<union> set ls) \<le> 12"
  shows "set (foldl add_to out ls) = set out \<union> set ls"
  using assms
proof (induction ls arbitrary: out)
  case (Cons l ls)
  show ?case
  proof (cases "l \<in> set out")
    case True
    with Cons.IH [of out] Cons.prems show ?thesis by (simp add: add_to_def insert_absorb)
  next
    case False
    have "card (insert l (set out)) \<le> card (set out \<union> set (l # ls))" by (intro card_mono) auto
    with Cons.prems(2,3) False have "length out < 12" by (simp add: distinct_card)
    with False Cons.prems(1) have "add_to out l = out @ [l]" by (simp add: add_to_def bounded_str_def bounded_push_def)
    with Cons.IH [of "out @ [l]"] Cons.prems False show ?thesis by simp
  qed
qed simp

lemma auto_labels_short: "list_all (\<lambda>l. length l \<le> MAX_LABEL) (auto_labels kind flags)"
  by (auto simp: auto_labels_def Let_def split: option.splits)

text \<open>Without a thirteenth label, the label list is exactly the labels that apply.\<close>

lemma has_label_applicable:
  assumes "list_all (\<lambda>(_, l). length l \<le> MAX_LABEL) (po_labels p)" and "card (set (applicable p g)) \<le> 12"
  shows "has_label p g l \<longleftrightarrow> l \<in> set (applicable p g)"
proof -
  have "list_all (\<lambda>l. length l \<le> MAX_LABEL) (applicable p g)"
    using assms(1) auto_labels_short by (auto simp: applicable_def list_all_iff)
  from add_to_fold [OF this, of "[]"] assms(2) show ?thesis by (simp add: has_label_def labels_of_def applicable_def)
qed

text \<open>What a rule means for the handles of all agents.\<close>

primrec rule_holds :: "policy \<Rightarrow> grant_view list \<Rightarrow> rule \<Rightarrow> bool" where
  "rule_holds p gs (Deny l) \<longleftrightarrow> (\<forall>g \<in> set gs. l \<in> set (applicable p g) \<longrightarrow> gv_mask g = 0)"
| "rule_holds p gs (Approval l) \<longleftrightarrow>
     (\<forall>g \<in> set gs. l \<in> set (applicable p g) \<longrightarrow> gv_mask g AND EFFECT_MASK \<noteq> 0 \<longrightarrow> gv_mask g AND APPROVAL \<noteq> 0)"
| "rule_holds p gs (Separate a b) \<longleftrightarrow>
     (\<forall>g \<in> set gs. \<forall>h \<in> set gs. gv_pid g = gv_pid h \<longrightarrow> gv_mask g \<noteq> 0 \<longrightarrow> gv_mask h \<noteq> 0 \<longrightarrow>
        a \<in> set (applicable p g) \<longrightarrow> b \<notin> set (applicable p h))"

lemma pids_in_order_set: "set (pids_in_order gs) = gv_pid ` set gs"
proof -
  have "set (foldl (\<lambda>ps g. if gv_pid g \<in> set ps then ps else ps @ [gv_pid g]) ps gs) = set ps \<union> gv_pid ` set gs" for ps
    by (induction gs arbitrary: ps) auto
  then show ?thesis by (simp add: pids_in_order_def)
qed

lemma rule_violations_Nil:
  assumes "\<And>g l. g \<in> set gs \<Longrightarrow> has_label p g l \<longleftrightarrow> l \<in> set (applicable p g)"
  shows "rule_violations p gs r = [] \<longleftrightarrow> rule_holds p gs r"
proof (cases r)
  case (Separate a b)
  define Q where "Q pid l \<longleftrightarrow> (\<exists>g \<in> set gs. gv_pid g = pid \<and> gv_mask g \<noteq> 0 \<and> l \<in> set (applicable p g))" for pid l
  have mine: "list_ex (\<lambda>g. has_label p g l) (filter (\<lambda>g. gv_pid g = pid \<and> gv_mask g \<noteq> 0) gs) \<longleftrightarrow> Q pid l" for pid l
    using assms by (auto simp: Q_def list_ex_iff)
  have "rule_violations p gs r = [] \<longleftrightarrow> (\<forall>pid \<in> gv_pid ` set gs. \<not> (Q pid a \<and> Q pid b))"
    by (simp add: Separate filter_empty_conv pids_in_order_set mine Let_def)
  also have "\<dots> \<longleftrightarrow> (\<forall>pid. \<not> (Q pid a \<and> Q pid b))" by (auto simp: Q_def)
  also have "\<dots> \<longleftrightarrow> rule_holds p gs r" unfolding Separate Q_def rule_holds.simps by metis
  finally show ?thesis .
next
  case (Deny l)
  have "(\<forall>g \<in> set gs. \<not> (gv_mask g \<noteq> 0 \<and> has_label p g l)) \<longleftrightarrow> rule_holds p gs r" unfolding Deny using assms by simp blast
  then show ?thesis by (simp add: Deny filter_empty_conv)
next
  case (Approval l)
  have "(\<forall>g \<in> set gs. \<not> (ungated_effect g \<and> has_label p g l)) \<longleftrightarrow> rule_holds p gs r"
    unfolding Approval ungated_effect_def using assms by simp blast
  then show ?thesis by (simp add: Approval filter_empty_conv)
qed

section \<open>The reach diff\<close>

text \<open>What it means that \<open>pid\<close> gains something on \<open>ob\<close>.\<close>

definition holds_bit :: "grant_view list \<Rightarrow> u32 \<Rightarrow> str \<Rightarrow> nat \<Rightarrow> bool" where
  "holds_bit gs pid ob n \<longleftrightarrow> list_ex (\<lambda>g. gv_pid g = pid \<and> gv_object g = ob \<and> bit (gv_mask g) n) gs"

definition gains :: "grant_view list \<Rightarrow> grant_view list \<Rightarrow> u32 \<Rightarrow> str \<Rightarrow> bool" where
  "gains bef aft pid ob \<longleftrightarrow>
     (\<exists>n < 64. n \<noteq> 7 \<and> holds_bit aft pid ob n \<and> \<not> holds_bit bef pid ob n) \<or> ungated aft pid ob \<and> \<not> ungated bef pid ob"

lemma bit_reach_mask: "bit (reach_mask gs pid ob) n \<longleftrightarrow> holds_bit gs pid ob n"
proof -
  have "bit (foldl (\<lambda>m g. m OR gv_mask g) m gs) n \<longleftrightarrow> bit m n \<or> list_ex (\<lambda>g. bit (gv_mask g) n) gs" for m :: u64 and gs
    by (induction gs arbitrary: m) (auto simp: bit_or_iff)
  from this [of 0 "filter (\<lambda>g. gv_pid g = pid \<and> gv_object g = ob) gs"] show ?thesis
    by (auto simp: reach_mask_def holds_bit_def list_ex_iff)
qed

lemma bit_APPROVAL_mask: "bit APPROVAL n \<longleftrightarrow> n = 7"
  using bit_APPROVAL [of n] by (simp add: APPROVAL_def policy_bit_def APPROVAL_BIT_def)

lemma bit_added: "bit (reach_mask aft pid ob AND NOT (reach_mask bef pid ob) AND NOT APPROVAL) n \<longleftrightarrow>
    n < 64 \<and> n \<noteq> 7 \<and> holds_bit aft pid ob n \<and> \<not> holds_bit bef pid ob n"
proof -
  have "n < 64" if "holds_bit aft pid ob n"
    using that bit_reach_mask [of aft pid ob n] bit_imp_le_length [of "reach_mask aft pid ob" n] by simp
  then show ?thesis by (auto simp: bit_and_iff bit_not_iff bit_reach_mask bit_APPROVAL_mask)
qed

lemma added_gains: "reach_mask aft pid ob AND NOT (reach_mask bef pid ob) AND NOT APPROVAL \<noteq> 0 \<longleftrightarrow>
    (\<exists>n < 64. n \<noteq> 7 \<and> holds_bit aft pid ob n \<and> \<not> holds_bit bef pid ob n)"
  unfolding word_zero_bits [of "_ AND _"] bit_added by blast

text \<open>What a change shows: every permission gained, and whether the reach is gated.\<close>

definition change_shows :: "grant_view list \<Rightarrow> grant_view list \<Rightarrow> change \<Rightarrow> bool" where
  "change_shows bef aft c \<longleftrightarrow>
     (\<forall>n. n < 64 \<and> n \<noteq> 7 \<and> holds_bit aft (ch_pid c) (ch_object c) n \<and> \<not> holds_bit bef (ch_pid c) (ch_object c) n \<longrightarrow>
        bit (ch_added c) n) \<and>
     ch_gated c = (\<not> ungated aft (ch_pid c) (ch_object c))"

definition change_key :: "change \<Rightarrow> u32 \<times> str" where
  "change_key c = (ch_pid c, ch_object c)"

lemma diff_one_cases:
  obtains "diff_one bef aft out g = out" and "(gv_pid g, gv_object g) \<in> change_key ` set out \<or> \<not> gains bef aft (gv_pid g) (gv_object g)"
  | c where "diff_one bef aft out g = out @ [c]" and "change_key c = (gv_pid g, gv_object g)"
      and "(gv_pid g, gv_object g) \<notin> change_key ` set out" and "gains bef aft (gv_pid g) (gv_object g)" and "change_shows bef aft c"
proof -
  let ?pid = "gv_pid g" and ?ob = "gv_object g"
  let ?added = "reach_mask aft ?pid ?ob AND NOT (reach_mask bef ?pid ?ob) AND NOT APPROVAL"
  have seen: "list_ex (\<lambda>c. ch_pid c = ?pid \<and> ch_object c = ?ob) out \<longleftrightarrow> (?pid, ?ob) \<in> change_key ` set out"
    by (induction out) (auto simp: change_key_def)
  have gains: "gains bef aft ?pid ?ob \<longleftrightarrow> ?added \<noteq> 0 \<or> ungated aft ?pid ?ob \<and> \<not> ungated bef ?pid ?ob"
    unfolding gains_def added_gains ..
  define c where "c = \<lparr>ch_pid = ?pid, ch_object = ?ob, ch_kind = gv_kind g, ch_flags = gv_flags g,
    ch_added = (if ?added \<noteq> 0 then ?added else reach_mask aft ?pid ?ob AND EFFECT_MASK), ch_gated = (\<not> ungated aft ?pid ?ob)\<rparr>"
  have d: "diff_one bef aft out g = (if (?pid, ?ob) \<in> change_key ` set out then out
      else if gains bef aft ?pid ?ob then out @ [c] else out)"
    unfolding diff_one_def Let_def seen gains c_def ..
  have key: "change_key c = (?pid, ?ob)" by (simp add: c_def change_key_def)
  have "change_shows bef aft c"
    unfolding change_shows_def
  proof (intro conjI allI impI)
    fix n
    assume n: "n < 64 \<and> n \<noteq> 7 \<and> holds_bit aft (ch_pid c) (ch_object c) n \<and> \<not> holds_bit bef (ch_pid c) (ch_object c) n"
    then have b: "bit ?added n" unfolding bit_added by (simp add: c_def)
    then have "?added \<noteq> 0" unfolding word_zero_bits [of "_ AND _"] by blast
    then have "ch_added c = ?added" by (simp only: c_def change.simps if_True not_False_eq_True)
    with b show "bit (ch_added c) n" by (simp only:)
  qed (simp add: c_def)
  note shows_c = this
  show thesis
  proof (cases "(?pid, ?ob) \<in> change_key ` set out \<or> \<not> gains bef aft ?pid ?ob")
    case True
    with d have "diff_one bef aft out g = out" by (simp split: if_splits)
    then show thesis using True by (rule that(1))
  next
    case False
    with d have "diff_one bef aft out g = out @ [c]" by simp
    then show thesis by (rule that(2)) (use False key shows_c in simp_all)
  qed
qed

lemma diff_fold:
  assumes "distinct (map change_key out)" and "list_all (change_shows bef aft) out"
    and "\<And>k. k \<in> change_key ` set out \<Longrightarrow> gains bef aft (fst k) (snd k)"
  shows "distinct (map change_key (foldl (diff_one bef aft) out gs)) \<and>
    list_all (change_shows bef aft) (foldl (diff_one bef aft) out gs) \<and>
    change_key ` set (foldl (diff_one bef aft) out gs) = change_key ` set out \<union>
      {(gv_pid g, gv_object g) | g. g \<in> set gs \<and> gains bef aft (gv_pid g) (gv_object g)}"
  using assms
proof (induction gs arbitrary: out)
  case (Cons g gs)
  show ?case
  proof (cases rule: diff_one_cases [of bef aft out g])
    case 1
    with Cons.IH [of out] Cons.prems show ?thesis by auto
  next
    case (2 c)
    have "distinct (map change_key (out @ [c]))" "list_all (change_shows bef aft) (out @ [c])"
      using 2 Cons.prems by auto
    moreover have "k \<in> change_key ` set (out @ [c]) \<Longrightarrow> gains bef aft (fst k) (snd k)" for k
      using 2 Cons.prems(3) by auto
    ultimately have IH: "distinct (map change_key (foldl (diff_one bef aft) (out @ [c]) gs)) \<and>
        list_all (change_shows bef aft) (foldl (diff_one bef aft) (out @ [c]) gs) \<and>
        change_key ` set (foldl (diff_one bef aft) (out @ [c]) gs) = change_key ` set (out @ [c]) \<union>
        {(gv_pid g, gv_object g) | g. g \<in> set gs \<and> gains bef aft (gv_pid g) (gv_object g)}"
      by (rule Cons.IH)
    with 2 show ?thesis by auto
  qed
qed auto

lemma gains_listed: "gains bef aft pid ob \<Longrightarrow> \<exists>g \<in> set aft. gv_pid g = pid \<and> gv_object g = ob"
  by (auto simp: gains_def holds_bit_def ungated_def list_ex_iff)

lemma diff_keys: "change_key ` set (diff bef aft) = {(pid, ob). gains bef aft pid ob}"
proof -
  have "change_key ` set (diff bef aft) = {(gv_pid g, gv_object g) | g. g \<in> set aft \<and> gains bef aft (gv_pid g) (gv_object g)}"
    using diff_fold [of "[]" bef aft aft] by (simp add: diff_def)
  also have "\<dots> = {(pid, ob). gains bef aft pid ob}" using gains_listed [of bef aft] by (fastforce simp: set_eq_iff)
  finally show ?thesis .
qed

section \<open>What the parser accepts\<close>

definition label_wf :: "str \<Rightarrow> bool" where
  "label_wf l \<longleftrightarrow> l \<noteq> [] \<and> length l \<le> MAX_LABEL \<and> list_all label_char l"

primrec rule_wf :: "rule \<Rightarrow> bool" where
  "rule_wf (Deny l) \<longleftrightarrow> label_wf l"
| "rule_wf (Approval l) \<longleftrightarrow> label_wf l"
| "rule_wf (Separate a b) \<longleftrightarrow> label_wf a \<and> label_wf b \<and> a \<noteq> b"

definition mask_of :: "permission list \<Rightarrow> u64" where
  "mask_of ps = foldl (\<lambda>m q. m OR policy_bit q) 0 ps"

definition trust_wf :: "trust \<Rightarrow> bool" where
  "trust_wf t \<longleftrightarrow> valid_node_name (tr_node t) \<and> (tr_object t = ''*'' \<or> valid_object_name (tr_object t)) \<and>
     (\<exists>ps. ps \<noteq> [] \<and> tr_mask t = mask_of ps)"

definition policy_wf :: "policy \<Rightarrow> bool" where
  "policy_wf p \<longleftrightarrow>
     length (po_rules p) \<le> MAX_RULES \<and> distinct (po_rules p) \<and> list_all rule_wf (po_rules p) \<and>
     length (po_labels p) \<le> MAX_LABELS \<and> distinct (po_labels p) \<and>
     list_all (\<lambda>(sel, l). sel \<noteq> [] \<and> length sel \<le> 32 \<and> label_wf l) (po_labels p) \<and>
     length (po_quorums p) \<le> 8 \<and> distinct (map fst (po_quorums p)) \<and>
     list_all (\<lambda>(l, n). label_wf l \<and> 1 \<le> n \<and> n \<le> 8) (po_quorums p) \<and>
     10 \<le> po_timeout p \<and> po_timeout p \<le> 3600 \<and>
     length (po_trusts p) \<le> 16 \<and> list_all trust_wf (po_trusts p)"

lemma label_Ok: "label s = Ok l \<longleftrightarrow> label_wf s \<and> l = s"
  by (auto simp: label_def label_wf_def ok_or_def bounded_str_def split: if_splits)

lemma result_bind_Ok: "result_bind r f = Ok y \<longleftrightarrow> (\<exists>x. r = Ok x \<and> f x = Ok y)"
  by (cases r) simp_all

lemma ok_or_Ok: "ok_or x e = Ok y \<longleftrightarrow> x = Some y"
  by (cases x) (simp_all add: ok_or_def)

lemma rule_parse_wf: "rule_parse s = Ok r \<Longrightarrow> rule_wf r"
  by (auto simp: rule_parse_def Let_def result_bind_Ok label_Ok split: list.splits if_splits)

lemma add_rule_wf: "add_rule r p = Ok p' \<Longrightarrow> rule_wf r \<Longrightarrow> policy_wf p \<Longrightarrow> policy_wf p'"
  by (auto simp: add_rule_def policy_wf_def bounded_push_def split: option.splits if_splits)

lemma add_label_wf: "add_label sel l p = Ok p' \<Longrightarrow> sel \<noteq> [] \<Longrightarrow> policy_wf p \<Longrightarrow> policy_wf p'"
  by (auto simp: add_label_def policy_wf_def result_bind_Ok ok_or_Ok label_Ok bounded_push_def
      dest!: bounded_str_SomeD split: option.splits if_splits)

lemma split_ws_words: "w \<in> set (split_ws v s) \<Longrightarrow> w \<noteq> []"
proof (induction v s rule: split_ws.induct)
  case (1 v s)
  from 1(3) have "w \<in> set (if s = [] then (if v = [] then [] else [v])
      else if ws_len s > 0 then (if v = [] then [] else [v]) @ split_ws [] (drop (ws_len s) s)
      else split_ws (v @ [hd s]) (tl s))" by (simp only: split_ws.simps [of v s])
  with 1(1,2) show ?case by (auto split: if_splits)
qed

lemma split_whitespace_nonempty: "w \<in> set (split_whitespace s) \<Longrightarrow> w \<noteq> []"
  unfolding split_whitespace_def by (rule split_ws_words)

lemma parse_words_nonempty: "parse_words ws out = Some ps \<Longrightarrow> ps \<noteq> []"
  by (induction ws arbitrary: out) (auto simp: ALL_PERMISSIONS_def split: if_splits option.splits)

lemma quorum_word: "1 \<le> n \<Longrightarrow> n \<le> 8 \<Longrightarrow> 1 \<le> (of_nat n :: u8) \<and> (of_nat n :: u8) \<le> 8"
  by (auto simp: word_le_nat_alt unat_of_nat)

lemma timeout_word: "10 \<le> n \<Longrightarrow> n \<le> 3600 \<Longrightarrow> 10 \<le> (of_nat n :: u16) \<and> (of_nat n :: u16) \<le> 3600"
  by (auto simp: word_le_nat_alt unat_of_nat)

lemma parse_quorum_wf: "parse_quorum rest p = Ok p' \<Longrightarrow> policy_wf p \<Longrightarrow> policy_wf p'"
  by (auto simp: parse_quorum_def policy_wf_def result_bind_Ok label_Ok bounded_push_def quorum_word
      split: list.splits option.splits if_splits)

lemma parse_timeout_wf: "parse_timeout rest p = Ok p' \<Longrightarrow> policy_wf p \<Longrightarrow> policy_wf p'"
  by (auto simp: parse_timeout_def policy_wf_def timeout_word split: option.splits if_splits)

lemma parse_require_wf: "parse_require rest p = Ok p' \<Longrightarrow> policy_wf p \<Longrightarrow> policy_wf p'"
  by (auto simp: parse_require_def policy_wf_def split: if_splits)

lemma parse_trust_wf: "parse_trust rest p = Ok p' \<Longrightarrow> policy_wf p \<Longrightarrow> policy_wf p'"
  by (auto simp: parse_trust_def policy_wf_def trust_wf_def mask_of_def [symmetric] bounded_push_def parse_permissions_def
      dest!: bounded_str_SomeD parse_words_nonempty split: list.splits option.splits if_splits)

lemma parse_label_wf: "parse_label rest p = Ok p' \<Longrightarrow> policy_wf p \<Longrightarrow> policy_wf p'"
  using split_whitespace_nonempty [of _ rest]
  by (auto simp: parse_label_def dest: add_label_wf split: list.splits)

lemma parse_entry_wf: "parse_entry line p = Ok p' \<Longrightarrow> policy_wf p \<Longrightarrow> policy_wf p'"
  by (auto simp: parse_entry_def result_bind_Ok split: option.splits intro: add_rule_wf rule_parse_wf
      dest: parse_quorum_wf parse_timeout_wf parse_require_wf parse_trust_wf parse_label_wf)

lemma parse_lines_wf:
  "policy_wf p \<Longrightarrow> case parse_lines i ls p of Ok p' \<Rightarrow> policy_wf p' | Err (n, m) \<Rightarrow> i < n \<and> n \<le> i + length ls"
proof (induction ls arbitrary: i p)
  case (Cons l ls)
  let ?line = "trim (hd (split_on CHR ''#'' l))"
  show ?case
  proof (cases "?line = []")
    case True
    with Cons.IH [of p "Suc i"] Cons.prems show ?thesis by (auto split: result.splits)
  next
    case False
    show ?thesis
    proof (cases "parse_entry ?line p")
      case (Ok p')
      with Cons.prems parse_entry_wf have "policy_wf p'" by blast
      from Cons.IH [OF this, of "Suc i"] False Ok show ?thesis by (auto split: result.splits)
    qed (use False in simp)
  qed
qed simp

section \<open>Policies as text\<close>

definition NL :: char where "NL = CHR 0x0A"

definition policy_lines :: "policy \<Rightarrow> str list" where
  "policy_lines p = map rule_display (po_rules p) @ map (\<lambda>(sel, l). ''label '' @ sel @ '' '' @ l) (po_labels p) @
     map (\<lambda>(l, n). ''quorum '' @ l @ '' '' @ dec (unat n)) (po_quorums p) @
     map (\<lambda>n. ''approval-timeout '' @ dec (unat n)) [po_timeout p] @
     map (\<lambda>_. ''require sealed-store'') (if po_sealed p then [()] else []) @ map trust_display (po_trusts p)"

definition policy_text :: "policy \<Rightarrow> str" where
  "policy_text p = concat (map (\<lambda>l. l @ [NL]) (policy_lines p))"

text \<open>A token of a policy file: a word without the comment sign.\<close>

definition token :: "str \<Rightarrow> bool" where
  "token w \<longleftrightarrow> word w \<and> CHR ''#'' \<notin> set w"

definition clean_line :: "str \<Rightarrow> bool" where
  "clean_line l \<longleftrightarrow> l \<noteq> [] \<and> is_ascii_graphic (hd l) \<and> is_ascii_graphic (last l) \<and> CHR ''#'' \<notin> set l \<and> NL \<notin> set l"

lemma graphic_not_NL: "is_ascii_graphic c \<Longrightarrow> c \<noteq> NL \<and> c \<noteq> CHR 0x0D"
  by (auto simp: is_ascii_graphic_def NL_def)

lemma token_clean: "token w \<Longrightarrow> clean_line w"
  by (cases w rule: rev_cases) (auto simp: token_def word_def clean_line_def list_all_iff hd_append dest: graphic_not_NL)

lemma clean_words: "token w \<Longrightarrow> clean_line l \<Longrightarrow> clean_line (w @ CHR '' '' # l)"
  by (cases w) (auto simp: token_def word_def clean_line_def list_all_iff NL_def is_ascii_graphic_def)

lemma label_char_token: "label_char c \<Longrightarrow> is_ascii_graphic c \<and> c \<noteq> CHR ''#''"
  by (auto simp: label_char_def is_ascii_alphanumeric_def is_ascii_digit_def is_ascii_lowercase_def
      is_ascii_uppercase_def is_ascii_graphic_def)

lemma label_token: "label_wf l \<Longrightarrow> token l"
  by (auto simp: label_wf_def token_def word_def list_all_iff dest: label_char_token)

lemma dec_token: "token (dec n)"
  using word_dec [of n] dec_digits [of n] by (auto simp: token_def list_all_iff is_ascii_digit_def)

lemma token_word: "token w \<Longrightarrow> word w"
  by (simp add: token_def)

text \<open>A clean line goes to its entry; a block of lines builds up one field.\<close>

lemma parse_lines_clean:
  "clean_line l \<Longrightarrow> parse_entry l p = Ok p' \<Longrightarrow> parse_lines i (l # ls) p = parse_lines (Suc i) ls p'"
  by (simp add: clean_line_def split_on_none trim_word)

lemma parse_lines_block:
  assumes "\<And>k. k < length xs \<Longrightarrow> clean_line (f (xs ! k)) \<and> parse_entry (f (xs ! k)) (g (take k xs)) = Ok (g (take (Suc k) xs))"
  shows "parse_lines i (map f xs @ ls) (g []) = parse_lines (i + length xs) ls (g xs)"
proof -
  have "n \<le> length xs \<Longrightarrow> parse_lines i (map f (take n xs) @ ls') (g []) = parse_lines (i + n) ls' (g (take n xs))" for n ls'
  proof (induction n arbitrary: ls')
    case (Suc n)
    then have "parse_lines i (map f (take (Suc n) xs) @ ls') (g []) = parse_lines (i + n) (f (xs ! n) # ls') (g (take n xs))"
      by (simp add: take_Suc_conv_app_nth)
    also have "\<dots> = parse_lines (i + Suc n) ls' (g (take (Suc n) xs))"
      using assms [of n] Suc.prems parse_lines_clean by simp
    finally show ?case .
  qed simp
  from this [of "length xs" ls] show ?thesis by simp
qed

lemma distinct_take_nth: "distinct xs \<Longrightarrow> k < length xs \<Longrightarrow> xs ! k \<notin> set (take k xs)"
  by (auto simp: in_set_conv_nth nth_eq_iff_index_eq)

lemma bounded_push_take: "length xs \<le> n \<Longrightarrow> k < length xs \<Longrightarrow> bounded_push n (take k xs) (xs ! k) = Some (take (Suc k) xs)"
  by (simp add: bounded_push_def take_Suc_conv_app_nth)

lemma strip_prefix_app [simp]: "strip_prefix p (p @ s) = Some s"
  by (simp add: strip_prefix_def)

lemma token_lit [simp]: "token ''deny''" "token ''approval''" "token ''separate''" "token ''label''" "token ''quorum''"
  "token ''approval-timeout''" "token ''require''" "token ''sealed-store''" "token ''trust''"
  by (simp_all add: token_def word_def is_ascii_graphic_def)

lemma rule_round_trip: "rule_wf r \<Longrightarrow> rule_parse (rule_display r) = Ok r \<and> clean_line (rule_display r)"
proof (cases r)
  case (Separate a b)
  assume wf: "rule_wf r"
  then have t: "token a" "token b" using Separate by (auto intro: label_token)
  have "split_whitespace (rule_display r) = [''separate'', a, b]"
    using Separate t split_whitespace_words [of "''separate''" "a @ CHR '' '' # b"] split_whitespace_words [of a b]
      token_word [of "''separate''"] by (simp add: split_whitespace_word token_word)
  then show ?thesis
    using wf Separate t clean_words [of "''separate''", OF _ clean_words [OF t(1) token_clean [OF t(2)]]]
    by (simp add: rule_parse_def Let_def label_Ok)
next
  case (Deny l)
  assume wf: "rule_wf r"
  then have t: "token l" using Deny by (auto intro: label_token)
  have "split_whitespace (rule_display r) = [''deny'', l]"
    using Deny t split_whitespace_words [of "''deny''" l] token_word [of "''deny''"] by (simp add: split_whitespace_word token_word)
  then show ?thesis
    using wf Deny t clean_words [of "''deny''", OF _ token_clean [OF t]] by (simp add: rule_parse_def Let_def label_Ok)
next
  case (Approval l)
  assume wf: "rule_wf r"
  then have t: "token l" using Approval by (auto intro: label_token)
  have "split_whitespace (rule_display r) = [''approval'', l]"
    using Approval t split_whitespace_words [of "''approval''" l] token_word [of "''approval''"]
    by (simp add: split_whitespace_word token_word)
  then show ?thesis
    using wf Approval t clean_words [of "''approval''", OF _ token_clean [OF t]] by (simp add: rule_parse_def Let_def label_Ok)
qed

lemma label_self: "label_wf l \<Longrightarrow> label l = Ok l"
  by (simp add: label_Ok)

lemma rule_entry:
  assumes "rule_wf r" and "r \<notin> set (po_rules p)" and "bounded_push MAX_RULES (po_rules p) r = Some rs"
  shows "clean_line (rule_display r)" and "parse_entry (rule_display r) p = Ok (p\<lparr>po_rules := rs\<rparr>)"
proof -
  note rt = rule_round_trip [OF assms(1)]
  then show "clean_line (rule_display r)" ..
  have "strip_prefix w (rule_display r) = None"
    if "w \<in> {''quorum '', ''approval-timeout '', ''require '', ''trust '', ''label ''}" for w
    using that by (cases r) (auto simp: strip_prefix_def)
  then show "parse_entry (rule_display r) p = Ok (p\<lparr>po_rules := rs\<rparr>)"
    using rt assms(2,3) by (simp add: parse_entry_def add_rule_def)
qed

lemma label_entry:
  assumes "token sel" and "length sel \<le> 32" and "label_wf l" and "(sel, l) \<notin> set (po_labels p)"
    and "bounded_push MAX_LABELS (po_labels p) (sel, l) = Some ls"
  shows "clean_line (''label '' @ sel @ '' '' @ l)" and "parse_entry (''label '' @ sel @ '' '' @ l) p = Ok (p\<lparr>po_labels := ls\<rparr>)"
proof -
  show "clean_line (''label '' @ sel @ '' '' @ l)"
    using clean_words [of "''label''", OF _ clean_words [OF assms(1) token_clean [OF label_token [OF assms(3)]]]] by simp
  have "split_whitespace (sel @ CHR '' '' # l) = [sel, l]"
    using assms(1) label_token [OF assms(3)] by (simp add: split_whitespace_words split_whitespace_word token_word)
  then have "parse_label (sel @ CHR '' '' # l) p = Ok (p\<lparr>po_labels := ls\<rparr>)"
    using assms(2,4,5) label_self [OF assms(3)] by (simp add: parse_label_def add_label_def bounded_str_def ok_or_def)
  then show "parse_entry (''label '' @ sel @ '' '' @ l) p = Ok (p\<lparr>po_labels := ls\<rparr>)"
    by (simp add: parse_entry_def strip_prefix_def)
qed

lemma quorum_entry:
  assumes "label_wf l" and "1 \<le> n" and "n \<le> 8" and "l \<notin> fst ` set (po_quorums p)"
    and "bounded_push 8 (po_quorums p) (l, n) = Some qs"
  shows "clean_line (''quorum '' @ l @ '' '' @ dec (unat n))"
    and "parse_entry (''quorum '' @ l @ '' '' @ dec (unat n)) p = Ok (p\<lparr>po_quorums := qs\<rparr>)"
proof -
  have t: "token l" "token (dec (unat n))" using label_token [OF assms(1)] dec_token by blast+
  show "clean_line (''quorum '' @ l @ '' '' @ dec (unat n))"
    using clean_words [of "''quorum''", OF _ clean_words [OF t(1) token_clean [OF t(2)]]] by simp
  have "split_whitespace (l @ CHR '' '' # dec (unat n)) = [l, dec (unat n)]"
    using t by (simp add: split_whitespace_words split_whitespace_word token_word)
  moreover have "1 \<le> unat n" "unat n \<le> 8" using assms(2,3) by (simp_all add: word_le_nat_alt)
  ultimately have "parse_quorum (l @ CHR '' '' # dec (unat n)) p = Ok (p\<lparr>po_quorums := qs\<rparr>)"
    using assms(4,5) label_self [OF assms(1)] by (simp add: parse_quorum_def parse_uint_dec)
  then show "parse_entry (''quorum '' @ l @ '' '' @ dec (unat n)) p = Ok (p\<lparr>po_quorums := qs\<rparr>)"
    by (simp add: parse_entry_def strip_prefix_def)
qed

lemma timeout_entry:
  assumes "10 \<le> n" and "n \<le> 3600"
  shows "clean_line (''approval-timeout '' @ dec (unat n))"
    and "parse_entry (''approval-timeout '' @ dec (unat n)) p = Ok (p\<lparr>po_timeout := n\<rparr>)"
proof -
  have c: "clean_line (dec (unat n))" by (rule token_clean [OF dec_token])
  show "clean_line (''approval-timeout '' @ dec (unat n))"
    using clean_words [of "''approval-timeout''", OF _ c] by simp
  have "trim (dec (unat n)) = dec (unat n)" using c by (simp add: clean_line_def trim_word)
  moreover have "10 \<le> unat n" "unat n \<le> 3600" using assms by (simp_all add: word_le_nat_alt)
  ultimately have "parse_timeout (dec (unat n)) p = Ok (p\<lparr>po_timeout := n\<rparr>)"
    by (simp add: parse_timeout_def parse_uint_dec)
  then show "parse_entry (''approval-timeout '' @ dec (unat n)) p = Ok (p\<lparr>po_timeout := n\<rparr>)"
    by (simp add: parse_entry_def strip_prefix_def)
qed

lemma require_entry:
  "clean_line ''require sealed-store''" "parse_entry ''require sealed-store'' p = Ok (p\<lparr>po_sealed := True\<rparr>)"
  using trim_word [of "''sealed-store''"]
  by (simp_all add: clean_line_def is_ascii_graphic_def NL_def parse_entry_def strip_prefix_def parse_require_def)

lemma policy_bit_eq: "policy_bit p = perm_bit p"
  by (cases p) (simp_all add: policy_bit_def perm_bit_def)

lemma bit_mask_of: "bit (mask_of ps) n \<longleftrightarrow> (\<exists>p \<in> set ps. n = unat (tag p))"
proof -
  have "bit (foldl (\<lambda>m q. m OR policy_bit q) m ps) n \<longleftrightarrow> bit m n \<or> (\<exists>p \<in> set ps. n = unat (tag p))" for m
    by (induction ps arbitrary: m) (auto simp: bit_or_iff policy_bit_eq bit_perm_bit)
  then show ?thesis by (simp add: mask_of_def)
qed

lemma mask_of_cong: "set ps = set qs \<Longrightarrow> mask_of ps = mask_of qs"
  by (rule bit_word_eqI) (simp add: bit_mask_of)

text \<open>The permissions of a mask, printed and read back.\<close>

lemma mask_names:
  assumes "ps \<noteq> []"
  shows "\<exists>qs. parse_permissions (permission_names (mask_of ps)) = Some qs \<and> mask_of qs = mask_of ps"
proof -
  let ?qs = "filter (\<lambda>p. bit (mask_of ps) (unat (tag p))) ALL_PERMISSIONS"
  have qs: "set ?qs = set ps" by (auto simp: bit_mask_of)
  then have "?qs \<noteq> []" using assms by force
  then have "parse_permissions (permission_names (mask_of ps)) = Some ?qs"
    using names_read_back filter_subseqs [of "\<lambda>p. bit (mask_of ps) (unat (tag p))" ALL_PERMISSIONS]
    by (simp add: permission_names_eq list_all_iff)
  moreover have "mask_of ?qs = mask_of ps" by (rule mask_of_cong [OF qs])
  ultimately show ?thesis by blast
qed

lemma push_str_set: "set (push_str n s t) \<subseteq> set s \<union> set t"
  by (auto simp: push_str_def)

lemma names_chars: "list_all (\<lambda>c. is_ascii_graphic c \<and> c \<noteq> CHR ''#'') (names_of ps)"
proof -
  have name: "list_all (\<lambda>c. is_ascii_graphic c \<and> c \<noteq> CHR ''#'') (permission_name p)" for p
    by (cases p) (simp_all add: permission_name_def is_ascii_graphic_def)
  have "list_all (\<lambda>c. is_ascii_graphic c \<and> c \<noteq> CHR ''#'')
      (foldl (\<lambda>s p. push_str 48 (if s \<noteq> [] then push_str 48 s '','' else s) (permission_name p)) s ps)"
    if "list_all (\<lambda>c. is_ascii_graphic c \<and> c \<noteq> CHR ''#'') s" for s
    using that
  proof (induction ps arbitrary: s)
    case (Cons p ps)
    have "list_all (\<lambda>c. is_ascii_graphic c \<and> c \<noteq> CHR ''#'') (push_str 48 (if s \<noteq> [] then push_str 48 s '','' else s) (permission_name p))"
      using Cons.prems name [of p] by (simp add: push_str_def is_ascii_graphic_def)
    from Cons.IH [OF this] show ?case by simp
  qed simp
  from this [of "[]"] show ?thesis by (simp add: names_of_def)
qed

lemma tokenI: "s \<noteq> [] \<Longrightarrow> (\<And>c. c \<in> set s \<Longrightarrow> is_ascii_graphic c \<and> c \<noteq> CHR ''#'') \<Longrightarrow> token s"
  unfolding token_def word_def list_all_iff by blast

lemma names_token: "parse_permissions (permission_names m) \<noteq> None \<Longrightarrow> token (permission_names m)"
proof (rule tokenI)
  show "parse_permissions (permission_names m) \<noteq> None \<Longrightarrow> permission_names m \<noteq> []" by (auto simp: parse_permissions_def)
  show "c \<in> set (permission_names m) \<Longrightarrow> is_ascii_graphic c \<and> c \<noteq> CHR ''#''" for c
    using names_chars unfolding permission_names_eq list_all_iff by blast
qed

lemma name_char: "is_ascii_lowercase c \<or> is_ascii_digit c \<or> c \<in> set ''-_'' \<Longrightarrow> is_ascii_graphic c \<and> c \<noteq> CHR ''#''"
  "is_ascii_alphanumeric c \<or> c \<in> set ''-_.'' \<Longrightarrow> is_ascii_graphic c \<and> c \<noteq> CHR ''#''"
  using label_char_token [of c] by (auto simp: label_char_def is_ascii_alphanumeric_def)

lemma node_token: "valid_node_name s \<Longrightarrow> token s \<and> length s \<le> 16"
proof -
  assume v: "valid_node_name s"
  then have "token s" by (intro tokenI name_char(1)) (auto simp: valid_node_name_def list_all_iff)
  with v show ?thesis by (simp add: valid_node_name_def)
qed

lemma object_token: "s = ''*'' \<or> valid_object_name s \<Longrightarrow> token s \<and> length s \<le> 16"
proof (elim disjE)
  show "s = ''*'' \<Longrightarrow> ?thesis" by (simp add: token_def word_def is_ascii_graphic_def)
  assume v: "valid_object_name s"
  then have "token s" by (intro tokenI name_char(2)) (auto simp: valid_object_name_def list_all_iff)
  with v show ?thesis by (simp add: valid_object_name_def)
qed

lemma trust_entry:
  assumes "trust_wf t" and "bounded_push 16 (po_trusts p) t = Some ts"
  shows "clean_line (trust_display t)" and "parse_entry (trust_display t) p = Ok (p\<lparr>po_trusts := ts\<rparr>)"
proof -
  from assms(1) obtain ps where ps: "ps \<noteq> []" "tr_mask t = mask_of ps" by (auto simp: trust_wf_def)
  from mask_names [OF ps(1)] obtain qs where qs: "parse_permissions (permission_names (tr_mask t)) = Some qs" "mask_of qs = tr_mask t"
    using ps(2) by auto
  have w: "token (tr_node t)" "token (tr_object t)" "token (permission_names (tr_mask t))"
    "length (tr_node t) \<le> 16" "length (tr_object t) \<le> 16"
    using assms(1) node_token [of "tr_node t"] object_token [of "tr_object t"] names_token [of "tr_mask t"] qs(1)
    by (auto simp: trust_wf_def)
  show "clean_line (trust_display t)"
    using clean_words [of "''trust''", OF _ clean_words [OF w(1) clean_words [OF w(2) token_clean [OF w(3)]]]]
    by (simp add: trust_display_def)
  let ?rest = "tr_node t @ CHR '' '' # tr_object t @ CHR '' '' # permission_names (tr_mask t)"
  have "split_whitespace ?rest = [tr_node t, tr_object t, permission_names (tr_mask t)]"
    using w by (simp add: split_whitespace_words split_whitespace_word token_word)
  moreover have "\<lparr>tr_node = tr_node t, tr_object = tr_object t, tr_mask = mask_of qs\<rparr> = t" using qs(2) by simp
  ultimately have "parse_trust ?rest p = Ok (p\<lparr>po_trusts := ts\<rparr>)"
    using assms qs(1) w(4,5) by (auto simp: parse_trust_def trust_wf_def bounded_str_def mask_of_def [symmetric])
  then show "parse_entry (trust_display t) p = Ok (p\<lparr>po_trusts := ts\<rparr>)"
    by (simp add: parse_entry_def strip_prefix_def trust_display_def)
qed

lemma clean_line_lines: "clean_line l \<Longrightarrow> NL \<notin> set l \<and> (l = [] \<or> last l \<noteq> CHR 0x0D)"
  using graphic_not_NL [of "last l"] by (auto simp: clean_line_def)

text \<open>The six blocks of a policy text, each building up its field.\<close>

lemma rules_block:
  assumes "policy_wf p"
  shows "parse_lines i (map rule_display (po_rules p) @ ls) policy_new = parse_lines (i + length (po_rules p)) ls (policy_new\<lparr>po_rules := po_rules p\<rparr>)"
    and "list_all clean_line (map rule_display (po_rules p))"
proof -
  have e: "clean_line (rule_display (po_rules p ! k)) \<and>
      parse_entry (rule_display (po_rules p ! k)) (policy_new\<lparr>po_rules := take k (po_rules p)\<rparr>) =
        Ok (policy_new\<lparr>po_rules := take (Suc k) (po_rules p)\<rparr>)" if "k < length (po_rules p)" for k
    using assms that rule_entry [of "po_rules p ! k" "policy_new\<lparr>po_rules := take k (po_rules p)\<rparr>"]
      distinct_take_nth [of "po_rules p" k] bounded_push_take [of "po_rules p" MAX_RULES k]
    by (simp add: policy_wf_def list_all_length)
  from parse_lines_block [of "po_rules p" rule_display "\<lambda>xs. policy_new\<lparr>po_rules := xs\<rparr>" i ls, OF e]
  show "parse_lines i (map rule_display (po_rules p) @ ls) policy_new =
      parse_lines (i + length (po_rules p)) ls (policy_new\<lparr>po_rules := po_rules p\<rparr>)" by (simp add: policy_new_def)
  show "list_all clean_line (map rule_display (po_rules p))" using e by (simp add: list_all_length)
qed

lemma labels_block:
  assumes "policy_wf p" and "list_all (token \<circ> fst) (po_labels p)" and "po_labels q = []"
  shows "parse_lines i (map (\<lambda>(sel, l). ''label '' @ sel @ '' '' @ l) (po_labels p) @ ls) q =
      parse_lines (i + length (po_labels p)) ls (q\<lparr>po_labels := po_labels p\<rparr>)"
    and "list_all clean_line (map (\<lambda>(sel, l). ''label '' @ sel @ '' '' @ l) (po_labels p))"
proof -
  have q: "q\<lparr>po_labels := []\<rparr> = q" using assms(3) by (cases q) simp
  let ?f = "\<lambda>(sel, l). ''label '' @ sel @ '' '' @ l"
  have e: "clean_line (?f (po_labels p ! k)) \<and>
      parse_entry (?f (po_labels p ! k)) (q\<lparr>po_labels := take k (po_labels p)\<rparr>) = Ok (q\<lparr>po_labels := take (Suc k) (po_labels p)\<rparr>)"
    if k: "k < length (po_labels p)" for k
  proof -
    obtain sel l where sl: "po_labels p ! k = (sel, l)" by fastforce
    then have "token sel" "length sel \<le> 32" "label_wf l"
      using assms(1,2) k by (auto simp: policy_wf_def list_all_length dest: spec [of _ k])
    then show ?thesis
      using label_entry [of sel l "q\<lparr>po_labels := take k (po_labels p)\<rparr>"] sl k assms(1)
        distinct_take_nth [of "po_labels p" k] bounded_push_take [of "po_labels p" MAX_LABELS k]
      by (simp add: policy_wf_def)
  qed
  from parse_lines_block [of "po_labels p" ?f "\<lambda>xs. q\<lparr>po_labels := xs\<rparr>" i ls, OF e] q
  show "parse_lines i (map ?f (po_labels p) @ ls) q = parse_lines (i + length (po_labels p)) ls (q\<lparr>po_labels := po_labels p\<rparr>)"
    by simp
  show "list_all clean_line (map ?f (po_labels p))" using e by (simp add: list_all_length)
qed

lemma quorums_block:
  assumes "policy_wf p" and "po_quorums q = []"
  shows "parse_lines i (map (\<lambda>(l, n). ''quorum '' @ l @ '' '' @ dec (unat n)) (po_quorums p) @ ls) q =
      parse_lines (i + length (po_quorums p)) ls (q\<lparr>po_quorums := po_quorums p\<rparr>)"
    and "list_all clean_line (map (\<lambda>(l, n). ''quorum '' @ l @ '' '' @ dec (unat n)) (po_quorums p))"
proof -
  have q: "q\<lparr>po_quorums := []\<rparr> = q" using assms(2) by (cases q) simp
  let ?f = "\<lambda>(l, n :: u8). ''quorum '' @ l @ '' '' @ dec (unat n)"
  have e: "clean_line (?f (po_quorums p ! k)) \<and>
      parse_entry (?f (po_quorums p ! k)) (q\<lparr>po_quorums := take k (po_quorums p)\<rparr>) = Ok (q\<lparr>po_quorums := take (Suc k) (po_quorums p)\<rparr>)"
    if k: "k < length (po_quorums p)" for k
  proof -
    obtain l n where sl: "po_quorums p ! k = (l, n)" by fastforce
    then have "label_wf l" "1 \<le> n" "n \<le> 8" using assms(1) k by (auto simp: policy_wf_def list_all_length dest: spec [of _ k])
    moreover have "l \<notin> fst ` set (take k (po_quorums p))"
      using distinct_take_nth [of "map fst (po_quorums p)" k] assms(1) k sl by (simp add: policy_wf_def take_map)
    ultimately show ?thesis
      using quorum_entry [of l n "q\<lparr>po_quorums := take k (po_quorums p)\<rparr>"] sl k assms(1)
        bounded_push_take [of "po_quorums p" 8 k] by (simp add: policy_wf_def)
  qed
  from parse_lines_block [of "po_quorums p" ?f "\<lambda>xs. q\<lparr>po_quorums := xs\<rparr>" i ls, OF e] q
  show "parse_lines i (map ?f (po_quorums p) @ ls) q = parse_lines (i + length (po_quorums p)) ls (q\<lparr>po_quorums := po_quorums p\<rparr>)"
    by simp
  show "list_all clean_line (map ?f (po_quorums p))" using e by (simp add: list_all_length)
qed

lemma trusts_block:
  assumes "policy_wf p" and "po_trusts q = []"
  shows "parse_lines i (map trust_display (po_trusts p)) q = Ok (q\<lparr>po_trusts := po_trusts p\<rparr>)"
    and "list_all clean_line (map trust_display (po_trusts p))"
proof -
  have q: "q\<lparr>po_trusts := []\<rparr> = q" using assms(2) by (cases q) simp
  have e: "clean_line (trust_display (po_trusts p ! k)) \<and>
      parse_entry (trust_display (po_trusts p ! k)) (q\<lparr>po_trusts := take k (po_trusts p)\<rparr>) = Ok (q\<lparr>po_trusts := take (Suc k) (po_trusts p)\<rparr>)"
    if "k < length (po_trusts p)" for k
    using assms(1) that trust_entry [of "po_trusts p ! k" "q\<lparr>po_trusts := take k (po_trusts p)\<rparr>"]
      bounded_push_take [of "po_trusts p" 16 k] by (simp add: policy_wf_def list_all_length)
  from parse_lines_block [of "po_trusts p" trust_display "\<lambda>xs. q\<lparr>po_trusts := xs\<rparr>" i "[]", OF e] q
  show "parse_lines i (map trust_display (po_trusts p)) q = Ok (q\<lparr>po_trusts := po_trusts p\<rparr>)" by simp
  show "list_all clean_line (map trust_display (po_trusts p))" using e by (simp add: list_all_length)
qed

lemma policy_lines_parse:
  assumes "policy_wf p" and "list_all (token \<circ> fst) (po_labels p)"
  shows "parse_lines 0 (policy_lines p) policy_new = Ok p" and "list_all clean_line (policy_lines p)"
proof -
  define q where "q = policy_new\<lparr>po_rules := po_rules p, po_labels := po_labels p, po_quorums := po_quorums p\<rparr>"
  let ?tail = "map (\<lambda>n. ''approval-timeout '' @ dec (unat n)) [po_timeout p] @
    map (\<lambda>_. ''require sealed-store'') (if po_sealed p then [()] else []) @ map trust_display (po_trusts p)"
  have t: "10 \<le> po_timeout p" "po_timeout p \<le> 3600" using assms(1) by (simp_all add: policy_wf_def)
  have q1: "po_trusts (q\<lparr>po_timeout := po_timeout p\<rparr>) = []" "po_trusts (q\<lparr>po_timeout := po_timeout p, po_sealed := True\<rparr>) = []"
    by (simp_all add: q_def policy_new_def)
  have "parse_lines i ?tail q = Ok p" for i
  proof (cases "po_sealed p")
    case True
    have "parse_lines i ?tail q = parse_lines (Suc (Suc i)) (map trust_display (po_trusts p)) (q\<lparr>po_timeout := po_timeout p, po_sealed := True\<rparr>)"
      using True parse_lines_clean [OF timeout_entry [OF t]] parse_lines_clean [OF require_entry] by simp
    with trusts_block(1) [OF assms(1) q1(2)] True show ?thesis by (simp add: q_def policy_new_def)
  next
    case False
    have "parse_lines i ?tail q = parse_lines (Suc i) (map trust_display (po_trusts p)) (q\<lparr>po_timeout := po_timeout p\<rparr>)"
      using False parse_lines_clean [OF timeout_entry [OF t]] by simp
    with trusts_block(1) [OF assms(1) q1(1)] False show ?thesis by (simp add: q_def policy_new_def)
  qed
  then show "parse_lines 0 (policy_lines p) policy_new = Ok p"
    unfolding policy_lines_def rules_block(1) [OF assms(1)]
    by (subst labels_block(1) [OF assms], simp add: policy_new_def)
      (subst quorums_block(1) [OF assms(1)], simp_all add: policy_new_def q_def)
  show "list_all clean_line (policy_lines p)"
    using rules_block(2) [OF assms(1)] labels_block(2) [OF assms, of "policy_new"] quorums_block(2) [OF assms(1), of policy_new]
      trusts_block(2) [OF assms(1), of policy_new] timeout_entry(1) [OF t] require_entry(1)
    by (simp add: policy_lines_def policy_new_def)
qed

section \<open>Properties\<close>


definition demo_policy :: policy where
  "demo_policy = policy_new\<lparr>po_rules := [Deny ''secret'', Separate ''web'' ''customer''],
     po_labels := [(''obj-2'', ''secret''), (''obj-3'', ''web''), (''tool:crm'', ''customer'')],
     po_quorums := [(''secret'', 2)], po_sealed := True,
     po_trusts := [\<lparr>tr_node = ''lab-b'', tr_object = ''*'', tr_mask = mask_of [SendMessage, RequiresApproval]\<rparr>]\<rparr>"


text \<open>
  C37: The reach diff shows every gain and nothing else. There is one change for exactly the
  agents and objects for which the new handles add a permission the old ones did not give, or
  an ungated effect where all effects were gated; each change lists every permission gained and
  says whether the reach is gated.
\<close>

theorem diff_exact:
  "change_key ` set (diff bef aft) = {(pid, ob). gains bef aft pid ob} \<and> distinct (map change_key (diff bef aft)) \<and>
   list_all (change_shows bef aft) (diff bef aft)"
  using diff_keys [of bef aft] diff_fold [of "[]" bef aft aft] by (simp add: diff_def)

text \<open>
  C38: Whatever the text of a policy file, it either parses to a policy within all bounds (at
  most 16 distinct rules over well-formed labels, 32 labels, 8 quorums of 1 to 8 operators, a
  time-out of 10 to 3600 seconds, 16 trust rules for valid names that give something), or is
  refused with the number of one of its lines.
\<close>

theorem policy_parse_bounds:
  "case policy_parse t of Ok p \<Rightarrow> policy_wf p | Err (n, m) \<Rightarrow> 1 \<le> n \<and> n \<le> length (lines t)"
proof -
  have "policy_wf policy_new" by (simp add: policy_wf_def policy_new_def)
  from parse_lines_wf [OF this, of 0 "lines t"] show ?thesis by (auto simp: policy_parse_def split: result.splits)
qed

text \<open>
  C39: Every well-formed policy whose selectors are single words can be written as a policy file
  that reads back as exactly that policy.
\<close>

theorem policy_text_round_trip:
  assumes "policy_wf p" and "list_all (token \<circ> fst) (po_labels p)"
  shows "policy_parse (policy_text p) = Ok p"
proof -
  note pl = policy_lines_parse [OF assms]
  have "list_all (\<lambda>l. CHR 0x0A \<notin> set l \<and> (l = [] \<or> last l \<noteq> CHR 0x0D)) (policy_lines p)"
    using pl(2) clean_line_lines unfolding list_all_iff NL_def by blast
  from lines_concat [OF this] pl(1) show ?thesis by (simp add: policy_parse_def policy_text_def NL_def)
qed

lemma demo_policy_wf: "policy_wf demo_policy" "list_all (token \<circ> fst) (po_labels demo_policy)"
  by (auto simp: policy_wf_def demo_policy_def policy_new_def label_wf_def trust_wf_def valid_node_name_def token_def word_def
      label_char_def is_ascii_alphanumeric_def is_ascii_lowercase_def is_ascii_uppercase_def is_ascii_digit_def is_ascii_graphic_def)

theorem policy_text_round_trip_witness: "policy_parse (policy_text demo_policy) = Ok demo_policy"
  by (rule policy_text_round_trip [OF demo_policy_wf])

text \<open>
  C40: An object's label list stops at twelve, so a rule on a later label is not enforced: there is
  a well-formed policy denying a label that an object carries, under which an agent's handle
  on that object counts as no violation.
\<close>

theorem thirteenth_label_ignored:
  "\<exists>p g l. policy_wf p \<and> Deny l \<in> set (po_rules p) \<and> (gv_object g, l) \<in> set (po_labels p) \<and> gv_mask g \<noteq> 0 \<and> violations p [g] = []"
proof -
  define p where "p = policy_new\<lparr>po_rules := [Deny ''m''], po_labels := map (\<lambda>l. (''obj-1'', [l])) ''abcdefghijklm''\<rparr>"
  define g where "g = grant_new 1 ''obj-1'' ''agent'' 0 8"
  have "policy_wf p"
    by (simp add: policy_wf_def p_def policy_new_def label_wf_def label_char_def is_ascii_alphanumeric_def is_ascii_lowercase_def)
  moreover have "violations p [g] = []" by (simp add: p_def g_def) code_simp
  ultimately show ?thesis by (intro exI [of _ p] exI [of _ g] exI [of _ "''m''"]) (simp add: p_def g_def grant_new_def)
qed

end
