(* ===== verification/Allocator.thy ===== *)
theory Allocator
  imports Prelude
begin

text \<open>
  The physical frame allocator, \<open>src/allocator.rs\<close>: one bit per 4 KiB frame, set up from the
  memory map, with single, contiguous and permanent reservations. Shown: every operation
  implements the obvious one on the set of free frames (take the lowest, take a run, give one
  back, remove a range), the free counter is the size of that set, and boot leaves free exactly
  the frames that touch a usable region above the first megabyte.
\<close>

unbundle bit_operations_syntax

section \<open>Definitions\<close>

abbreviation FRAME_SIZE :: u64 where "FRAME_SIZE \<equiv> 4096"
abbreviation MAX_FRAMES :: nat where "MAX_FRAMES \<equiv> 131072"
abbreviation BITMAP_WORDS :: nat where "BITMAP_WORDS \<equiv> 2048"
abbreviation LOW_MEMORY_RESERVED :: u64 where "LOW_MEMORY_RESERVED \<equiv> 0x100000"

datatype alloc_error = AllocOutOfMemory | AlreadyFree | OutOfRange

record frame_allocator =
  fa_bitmap :: "u64 list"
  fa_total :: nat
  fa_free :: nat
  fa_reserved :: nat

definition fa_new :: frame_allocator where
  "fa_new = \<lparr>fa_bitmap = replicate BITMAP_WORDS (- 1), fa_total = 0, fa_free = 0, fa_reserved = 0\<rparr>"

definition set_used :: "nat \<Rightarrow> frame_allocator \<Rightarrow> frame_allocator" where
  "set_used frame a =
     a\<lparr>fa_bitmap := (fa_bitmap a)[frame div 64 := fa_bitmap a ! (frame div 64) OR push_bit (frame mod 64) 1]\<rparr>"

definition set_free :: "nat \<Rightarrow> frame_allocator \<Rightarrow> frame_allocator" where
  "set_free frame a =
     a\<lparr>fa_bitmap := (fa_bitmap a)[frame div 64 := fa_bitmap a ! (frame div 64) AND NOT (push_bit (frame mod 64) 1)]\<rparr>"

definition is_used :: "nat \<Rightarrow> frame_allocator \<Rightarrow> bool" where
  "is_used frame a \<longleftrightarrow> drop_bit (frame mod 64) (fa_bitmap a ! (frame div 64)) AND 1 = 1"

definition count_zeros :: "u64 \<Rightarrow> nat" where
  "count_zeros w = length (filter (\<lambda>n. \<not> bit w n) [0..<64])"

definition count_free :: "frame_allocator \<Rightarrow> nat" where
  "count_free a =
     (if fa_total a = 0 then 0
      else
        let full_words = fa_total a div 64;
            remainder = fa_total a mod 64;
            n = sum_list (map count_zeros (take full_words (fa_bitmap a))) in
        if remainder > 0 then
          let m = push_bit remainder 1 - 1 in
          n + (count_zeros (fa_bitmap a ! full_words AND m) - (64 - remainder))
        else n)"

definition saturating_add :: "u64 \<Rightarrow> u64 \<Rightarrow> u64" where
  "saturating_add a b = (if a + b < a then - 1 else a + b)"

definition region_top :: "(u64 \<times> u64 \<times> bool) list \<Rightarrow> u64" where
  "region_top regions = foldl (\<lambda>top (base, len, _). let e = saturating_add base len in if e > top then e else top) 0 regions"

definition free_region :: "frame_allocator \<Rightarrow> u64 \<times> u64 \<times> bool \<Rightarrow> frame_allocator" where
  "free_region a = (\<lambda>(base, len, usable).
     if \<not> usable \<or> len = 0 then a
     else
       let first = unat (base div FRAME_SIZE);
           last = unat ((if base + len = 0 then 0 else base + len - 1) div FRAME_SIZE) in
       foldl (\<lambda>a frame. if frame < fa_total a then set_free frame a else a) a [first..<Suc last])"

definition init_from_regions :: "(u64 \<times> u64 \<times> bool) list \<Rightarrow> frame_allocator \<Rightarrow> frame_allocator" where
  "init_from_regions regions a =
     (let max_frame = unat ((region_top regions + FRAME_SIZE - 1) div FRAME_SIZE);
          a = a\<lparr>fa_total := min max_frame MAX_FRAMES\<rparr>;
          a = foldl (\<lambda>a i. set_used i a) a [0..<fa_total a];
          a = foldl free_region a regions;
          a = a\<lparr>fa_free := count_free a\<rparr> in
      a\<lparr>fa_reserved := fa_total a - fa_free a\<rparr>)"

text \<open>The loop of \<open>reserve_range\<close>, with how many frames were taken.\<close>

definition reserve_one :: "frame_allocator \<times> nat \<Rightarrow> nat \<Rightarrow> frame_allocator \<times> nat" where
  "reserve_one = (\<lambda>(a, taken) frame. if \<not> is_used frame a then (set_used frame a, taken + 1) else (a, taken))"

definition div_ceil :: "u64 \<Rightarrow> u64 \<Rightarrow> u64" where
  "div_ceil a b = (if a mod b > 0 then a div b + 1 else a div b)"

definition reserve_range :: "u64 \<Rightarrow> u64 \<Rightarrow> frame_allocator \<Rightarrow> nat \<times> frame_allocator" where
  "reserve_range start end' a =
     (let first = unat (start div FRAME_SIZE);
          last = min (unat (div_ceil end' FRAME_SIZE)) (fa_total a) in
      case foldl reserve_one (a, 0) [first..<last] of
        (a, taken) \<Rightarrow> (taken, a\<lparr>fa_free := fa_free a - taken, fa_reserved := fa_reserved a + taken\<rparr>))"

definition trailing_ones :: "u64 \<Rightarrow> nat" where
  "trailing_ones w = length (takeWhile (bit w) [0..<64])"

fun alloc_scan :: "nat \<Rightarrow> nat \<Rightarrow> u64 list \<Rightarrow> nat option" where
  "alloc_scan tot idx [] = None"
| "alloc_scan tot idx (w # ws) =
     (if w = - 1 then alloc_scan tot (Suc idx) ws
      else
        let frame = idx * 64 + trailing_ones w in
        if frame \<ge> tot then None else Some frame)"

definition fa_alloc :: "frame_allocator \<Rightarrow> (u64, alloc_error) result \<times> frame_allocator" where
  "fa_alloc a =
     (case alloc_scan (fa_total a) 0 (fa_bitmap a) of
        None \<Rightarrow> (Err AllocOutOfMemory, a)
      | Some frame \<Rightarrow>
          (Ok (of_nat frame * FRAME_SIZE), (set_used frame a)\<lparr>fa_free := fa_free a - 1\<rparr>))"

text \<open>
  The search of \<open>alloc_contiguous\<close>: at \<open>start\<close>, a run of free frames, or the first used frame,
  after which it goes on.
\<close>

function find_run :: "frame_allocator \<Rightarrow> nat \<Rightarrow> nat \<Rightarrow> nat \<Rightarrow> nat option" where
  "find_run a count limit start =
     (if start > limit then None
      else case position (\<lambda>i. is_used (start + i) a) [0..<count] of
        Some i \<Rightarrow> find_run a count limit (start + i + 1)
      | None \<Rightarrow> Some start)"
  by pat_completeness auto
termination by (relation "measure (\<lambda>(a, count, limit, start). Suc limit - start)") auto

declare find_run.simps [simp del]

definition alloc_contiguous :: "nat \<Rightarrow> frame_allocator \<Rightarrow> (u64, alloc_error) result \<times> frame_allocator" where
  "alloc_contiguous count a =
     (if count = 0 then (Err AllocOutOfMemory, a)
      else if count > fa_free a then (Err AllocOutOfMemory, a)
      else case find_run a count (fa_total a - count) 0 of
        None \<Rightarrow> (Err AllocOutOfMemory, a)
      | Some start \<Rightarrow>
          (Ok (of_nat start * FRAME_SIZE),
           (foldl (\<lambda>a i. set_used (start + i) a) a [0..<count])\<lparr>fa_free := fa_free a - count\<rparr>))"

definition fa_free_frame :: "u64 \<Rightarrow> frame_allocator \<Rightarrow> (unit, alloc_error) result \<times> frame_allocator" where
  "fa_free_frame frame a =
     (let idx = unat (frame div FRAME_SIZE) in
      if idx \<ge> fa_total a then (Err OutOfRange, a)
      else if \<not> is_used idx a then (Err AlreadyFree, a)
      else (Ok (), (set_free idx a)\<lparr>fa_free := fa_free a + 1\<rparr>))"

definition usable_bytes :: "frame_allocator \<Rightarrow> u64" where
  "usable_bytes a = of_nat (fa_total a - fa_reserved a) * FRAME_SIZE"

definition free_bytes :: "frame_allocator \<Rightarrow> u64" where
  "free_bytes a = of_nat (fa_free a) * FRAME_SIZE"

text \<open>Boot: the memory map as \<open>(start, end, usable)\<close>, of which 64 regions are kept.\<close>

definition boot_init :: "(u64 \<times> u64 \<times> bool) list \<Rightarrow> frame_allocator \<Rightarrow> frame_allocator" where
  "boot_init regions a =
     (let entries = map (\<lambda>(s, e, usable). (s, e - s, usable)) (take 64 regions) in
      snd (reserve_range 0 LOW_MEMORY_RESERVED (init_from_regions entries a)))"

section \<open>The set of free frames\<close>

definition free_set :: "frame_allocator \<Rightarrow> nat set" where
  "free_set a = {f. f < fa_total a \<and> \<not> is_used f a}"

text \<open>The bitmap has its size, frames beyond the tracked ones are used, and the counter counts.\<close>

definition bitmap_ok :: "frame_allocator \<Rightarrow> bool" where
  "bitmap_ok a \<longleftrightarrow> length (fa_bitmap a) = BITMAP_WORDS \<and> fa_total a \<le> MAX_FRAMES \<and>
     (\<forall>f. fa_total a \<le> f \<longrightarrow> f < MAX_FRAMES \<longrightarrow> is_used f a)"

definition fa_ok :: "frame_allocator \<Rightarrow> bool" where
  "fa_ok a \<longleftrightarrow> bitmap_ok a \<and> fa_free a = card (free_set a)"

lemma and_one_bit: "drop_bit n w AND 1 = (1 :: u64) \<longleftrightarrow> bit w n"
  by (simp add: and_one_eq bit_iff_odd_drop_bit odd_iff_mod_2_eq_one)

lemma is_used_bit: "is_used f a \<longleftrightarrow> bit (fa_bitmap a ! (f div 64)) (f mod 64)"
  by (simp add: is_used_def and_one_bit)

lemma bit_one_at: "n < 64 \<Longrightarrow> bit (push_bit n 1 :: u64) k \<longleftrightarrow> k = n"
  by (auto simp: bit_exp_iff)

lemma set_used_used:
  assumes "length (fa_bitmap a) = BITMAP_WORDS" and "f < MAX_FRAMES"
  shows "is_used g (set_used f a) \<longleftrightarrow> g = f \<or> is_used g a"
proof (cases "g div 64 = f div 64")
  case True
  then have "g = f \<longleftrightarrow> g mod 64 = f mod 64" by (metis mod_mult_div_eq)
  with True assms bit_one_at [of "f mod 64" "g mod 64"] show ?thesis
    by (auto simp: is_used_bit set_used_def bit_or_iff simp del: push_bit_of_1)
next
  case False
  then have "g \<noteq> f" by auto
  with False show ?thesis by (simp add: is_used_bit set_used_def)
qed

lemma set_free_used:
  assumes "length (fa_bitmap a) = BITMAP_WORDS" and "f < MAX_FRAMES"
  shows "is_used g (set_free f a) \<longleftrightarrow> g \<noteq> f \<and> is_used g a"
proof (cases "g div 64 = f div 64")
  case True
  then have "g = f \<longleftrightarrow> g mod 64 = f mod 64" by (metis mod_mult_div_eq)
  with True assms bit_one_at [of "f mod 64" "g mod 64"] show ?thesis
    by (auto simp: is_used_bit set_free_def bit_and_iff bit_not_iff simp del: push_bit_of_1)
next
  case False
  then have "g \<noteq> f" by auto
  with False show ?thesis by (simp add: is_used_bit set_free_def)
qed

lemma set_used_fields [simp]: "length (fa_bitmap (set_used f a)) = length (fa_bitmap a)" "fa_total (set_used f a) = fa_total a"
  "fa_free (set_used f a) = fa_free a" "fa_reserved (set_used f a) = fa_reserved a"
  by (simp_all add: set_used_def)

lemma set_free_fields [simp]: "length (fa_bitmap (set_free f a)) = length (fa_bitmap a)" "fa_total (set_free f a) = fa_total a"
  "fa_free (set_free f a) = fa_free a" "fa_reserved (set_free f a) = fa_reserved a"
  by (simp_all add: set_free_def)

lemma is_used_fields [simp]: "is_used f (a\<lparr>fa_free := n\<rparr>) = is_used f a" "is_used f (a\<lparr>fa_reserved := n\<rparr>) = is_used f a"
  "is_used f (a\<lparr>fa_total := n\<rparr>) = is_used f a"
  by (simp_all add: is_used_def)

lemma free_set_fields [simp]: "free_set (a\<lparr>fa_free := n\<rparr>) = free_set a" "free_set (a\<lparr>fa_reserved := n\<rparr>) = free_set a"
  "bitmap_ok (a\<lparr>fa_free := n\<rparr>) = bitmap_ok a" "bitmap_ok (a\<lparr>fa_reserved := n\<rparr>) = bitmap_ok a"
  by (simp_all add: free_set_def bitmap_ok_def)

lemma free_set_finite [simp]: "finite (free_set a)"
  by (rule finite_subset [of _ "{..<fa_total a}"]) (auto simp: free_set_def)

lemma set_used_ok:
  assumes "bitmap_ok a" and "f < MAX_FRAMES"
  shows "bitmap_ok (set_used f a)" and "free_set (set_used f a) = free_set a - {f}"
  using assms set_used_used [of a f] by (auto simp: bitmap_ok_def free_set_def)

lemma set_free_ok:
  assumes "bitmap_ok a" and "f < fa_total a"
  shows "bitmap_ok (set_free f a)" and "free_set (set_free f a) = insert f (free_set a)"
  using assms set_free_used [of a f] by (auto simp: bitmap_ok_def free_set_def)

lemma set_used_all:
  "bitmap_ok a \<Longrightarrow> list_all (\<lambda>f. f < MAX_FRAMES) fs \<Longrightarrow>
     bitmap_ok (foldl (\<lambda>a f. set_used f a) a fs) \<and> free_set (foldl (\<lambda>a f. set_used f a) a fs) = free_set a - set fs \<and>
     fa_total (foldl (\<lambda>a f. set_used f a) a fs) = fa_total a \<and> fa_free (foldl (\<lambda>a f. set_used f a) a fs) = fa_free a"
  by (induction fs arbitrary: a) (auto simp: set_used_ok)

section \<open>Allocation\<close>

lemma trailing_ones_first:
  assumes "w \<noteq> (- 1 :: u64)"
  shows "trailing_ones w < 64 \<and> \<not> bit w (trailing_ones w) \<and> (\<forall>n < trailing_ones w. bit w n)"
proof -
  have "\<exists>n < 64. \<not> bit w n"
  proof (rule ccontr)
    assume "\<not> (\<exists>n < 64. \<not> bit w n)"
    then have "w = - 1" by (intro bit_word_eqI) (auto simp: bit_minus_1_iff)
    with assms show False by simp
  qed
  then have "\<exists>n \<in> set [0..<64]. \<not> bit w n" by auto
  then have l: "trailing_ones w < length [0..<64]"
    unfolding trailing_ones_def
    by (metis takeWhile_eq_all_conv takeWhile_eq_take take_all_iff length_takeWhile_le le_neq_implies_less order_refl)
  then have "\<not> bit w ([0..<64] ! trailing_ones w)" unfolding trailing_ones_def by (rule nth_length_takeWhile)
  moreover have "bit w n" if "n < trailing_ones w" for n
    using that l takeWhile_nth [of n "bit w" "[0..<64]"] nth_mem [of n "takeWhile (bit w) [0..<64]"] set_takeWhileD [of "takeWhile (bit w) [0..<64] ! n" "bit w" "[0..<64]"]
    by (simp add: trailing_ones_def)
  ultimately show ?thesis using l by simp
qed

text \<open>The scan finds the lowest clear bit below the limit, or there is none.\<close>

lemma alloc_scan_first:
  "case alloc_scan tot idx ws of
     None \<Rightarrow> \<forall>f. idx * 64 \<le> f \<longrightarrow> f < tot \<longrightarrow> f < (idx + length ws) * 64 \<longrightarrow> bit (ws ! (f div 64 - idx)) (f mod 64)
   | Some g \<Rightarrow> idx * 64 \<le> g \<and> g < tot \<and> g < (idx + length ws) * 64 \<and> \<not> bit (ws ! (g div 64 - idx)) (g mod 64) \<and>
       (\<forall>f. idx * 64 \<le> f \<longrightarrow> f < g \<longrightarrow> bit (ws ! (f div 64 - idx)) (f mod 64))"
proof (induction ws arbitrary: idx)
  case (Cons w ws)
  have split: "f div 64 = idx \<or> Suc idx * 64 \<le> f" if "idx * 64 \<le> f" for f
  proof -
    have "idx \<le> f div 64" using that by (simp add: less_eq_div_iff_mult_less_eq)
    then show ?thesis by (cases "f div 64 = idx") (simp_all add: less_eq_div_iff_mult_less_eq [symmetric])
  qed
  have later: "(w # ws) ! (f div 64 - idx) = ws ! (f div 64 - Suc idx)" if "Suc idx * 64 \<le> f" for f
  proof -
    have "Suc idx \<le> f div 64" using that by (simp add: less_eq_div_iff_mult_less_eq)
    then show ?thesis by (simp add: nth_Cons')
  qed
  show ?case
  proof (cases "w = - 1")
    case True
    have w: "bit w (f mod 64)" for f by (simp add: True bit_minus_1_iff)
    have up: "bit ((w # ws) ! (f div 64 - idx)) (f mod 64)"
      if "idx * 64 \<le> f" "Suc idx * 64 \<le> f \<Longrightarrow> bit (ws ! (f div 64 - Suc idx)) (f mod 64)" for f
      using split [OF that(1)] that(2) later [of f] w [of f] by auto
    show ?thesis
    proof (cases "alloc_scan tot (Suc idx) ws")
      case None
      with Cons.IH [of "Suc idx"] True show ?thesis by (auto intro!: up [unfolded True])
    next
      case (Some g)
      with Cons.IH [of "Suc idx"] True later [of g] show ?thesis by (auto intro!: up [unfolded True])
    qed
  next
    case False
    note t = trailing_ones_first [OF False]
    let ?g = "idx * 64 + trailing_ones w"
    have g: "?g div 64 = idx" "?g mod 64 = trailing_ones w" using t by simp_all
    have low: "bit ((w # ws) ! (f div 64 - idx)) (f mod 64)" if "idx * 64 \<le> f" "f < ?g" for f
    proof -
      have "f div 64 = idx" using that t by (auto intro: div_nat_eqI)
      moreover have "f mod 64 < trailing_ones w" using that calculation by (metis add_less_cancel_left div_mult_mod_eq)
      ultimately show ?thesis using t by simp
    qed
    show ?thesis using False t g low by (auto simp: Let_def)
  qed
qed simp

lemma alloc_scan_min:
  assumes "bitmap_ok a"
  shows "case alloc_scan (fa_total a) 0 (fa_bitmap a) of
      None \<Rightarrow> free_set a = {}
    | Some g \<Rightarrow> g \<in> free_set a \<and> (\<forall>f \<in> free_set a. g \<le> f)"
proof (cases "alloc_scan (fa_total a) 0 (fa_bitmap a)")
  case None
  have "f \<notin> free_set a" for f
    using None alloc_scan_first [where tot = "fa_total a" and idx = 0 and ws = "fa_bitmap a"] assms
    by (auto simp: free_set_def is_used_bit bitmap_ok_def)
  with None show ?thesis by auto
next
  case (Some g)
  have g: "g < fa_total a" "\<not> bit (fa_bitmap a ! (g div 64)) (g mod 64)"
    "\<And>f. f < g \<Longrightarrow> bit (fa_bitmap a ! (f div 64)) (f mod 64)"
    using Some alloc_scan_first [where tot = "fa_total a" and idx = 0 and ws = "fa_bitmap a"] by auto
  have "g \<le> f" if "f \<in> free_set a" for f
    using that g(3) [of f] by (auto simp: free_set_def is_used_bit not_less [symmetric])
  with Some g(1,2) show ?thesis by (auto simp: free_set_def is_used_bit)
qed

lemma fa_alloc_spec:
  assumes "fa_ok a"
  shows "case fa_alloc a of
      (Err e, a') \<Rightarrow> free_set a = {} \<and> a' = a
    | (Ok p, a') \<Rightarrow> fa_ok a' \<and> fa_total a' = fa_total a \<and>
        (\<exists>f. p = of_nat f * FRAME_SIZE \<and> f \<in> free_set a \<and> (\<forall>g \<in> free_set a. f \<le> g) \<and> free_set a' = free_set a - {f})"
proof (cases "alloc_scan (fa_total a) 0 (fa_bitmap a)")
  case None
  with alloc_scan_min [of a] assms show ?thesis by (simp add: fa_alloc_def fa_ok_def)
next
  case (Some f)
  with alloc_scan_min [of a] assms have f: "f \<in> free_set a" "\<forall>g \<in> free_set a. f \<le> g" by (simp_all add: fa_ok_def)
  then have "f < MAX_FRAMES" using assms by (auto simp: free_set_def fa_ok_def bitmap_ok_def)
  with assms set_used_ok [of a f] f Some show ?thesis
    by (auto simp: fa_alloc_def fa_ok_def intro!: exI [of _ f])
qed

lemma fa_free_spec:
  assumes "fa_ok a"
  shows "case fa_free_frame p a of
      (Err e, a') \<Rightarrow> a' = a \<and> (unat (p div FRAME_SIZE) \<ge> fa_total a \<or> unat (p div FRAME_SIZE) \<in> free_set a)
    | (Ok _, a') \<Rightarrow> fa_ok a' \<and> fa_total a' = fa_total a \<and> unat (p div FRAME_SIZE) < fa_total a \<and>
        unat (p div FRAME_SIZE) \<notin> free_set a \<and> free_set a' = insert (unat (p div FRAME_SIZE)) (free_set a)"
proof -
  let ?f = "unat (p div FRAME_SIZE)"
  show ?thesis
  proof (cases "?f < fa_total a \<and> is_used ?f a")
    case True
    then have "?f \<notin> free_set a" by (simp add: free_set_def)
    with True assms set_free_ok [of a ?f] show ?thesis by (auto simp: fa_free_frame_def fa_ok_def Let_def)
  qed (auto simp: fa_free_frame_def Let_def free_set_def)
qed

section \<open>Counting\<close>

lemma count_zeros_card: "count_zeros w = card {n. n < 64 \<and> \<not> bit w n}"
proof -
  have "count_zeros w = card (set (filter (\<lambda>n. \<not> bit w n) [0..<64]))"
    unfolding count_zeros_def by (rule distinct_card [symmetric]) simp
  also have "set (filter (\<lambda>n. \<not> bit w n) [0..<64]) = {n. n < 64 \<and> \<not> bit w n}" by auto
  finally show ?thesis .
qed

definition clear_below :: "u64 list \<Rightarrow> nat \<Rightarrow> nat set" where
  "clear_below bm n = {f. f < n \<and> \<not> bit (bm ! (f div 64)) (f mod 64)}"

lemma clear_below_word:
  assumes "r \<le> 64"
  shows "card (clear_below bm (k * 64 + r)) = card (clear_below bm (k * 64)) + card {n. n < r \<and> \<not> bit (bm ! k) n}"
proof -
  let ?S = "{n. n < r \<and> \<not> bit (bm ! k) n}"
  have fin: "finite (clear_below bm n)" for n by (rule finite_subset [of _ "{..<n}"]) (auto simp: clear_below_def)
  have "clear_below bm (k * 64 + r) = clear_below bm (k * 64) \<union> (\<lambda>n. k * 64 + n) ` ?S"
  proof (rule set_eqI)
    fix f
    show "f \<in> clear_below bm (k * 64 + r) \<longleftrightarrow> f \<in> clear_below bm (k * 64) \<union> (\<lambda>n. k * 64 + n) ` ?S"
    proof (cases "f < k * 64")
      case True
      then show ?thesis by (auto simp: clear_below_def)
    next
      case False
      then obtain n where f: "f = k * 64 + n" by (metis le_Suc_ex not_less)
      have "(k * 64 + n) div 64 = k \<and> (k * 64 + n) mod 64 = n" if "n < r" using that assms by simp
      with f show ?thesis by (auto simp: clear_below_def)
    qed
  qed
  moreover have "clear_below bm (k * 64) \<inter> (\<lambda>n. k * 64 + n) ` ?S = {}" by (auto simp: clear_below_def)
  moreover have "card ((\<lambda>n. k * 64 + n) ` ?S) = card ?S" by (rule card_image) (simp add: inj_on_def)
  ultimately show ?thesis by (simp add: card_Un_disjoint fin)
qed

lemma count_words: "k \<le> length bm \<Longrightarrow> sum_list (map count_zeros (take k bm)) = card (clear_below bm (k * 64))"
proof (induction k)
  case (Suc k)
  then have "sum_list (map count_zeros (take (Suc k) bm)) = card (clear_below bm (k * 64)) + count_zeros (bm ! k)"
    by (simp add: take_Suc_conv_app_nth)
  also have "\<dots> = card (clear_below bm (k * 64 + 64))" by (simp only: clear_below_word count_zeros_card order_refl)
  finally show ?case by (simp add: add.commute)
qed (simp add: clear_below_def)

lemma count_masked:
  assumes "r < 64"
  shows "count_zeros (w AND (push_bit r 1 - 1)) = card {n. n < r \<and> \<not> bit w n} + (64 - r)"
proof -
  have m: "bit (push_bit r 1 - 1 :: u64) n \<longleftrightarrow> n < r" if "n < 64" for n
    using that bit_mask_iff [of r n, where ?'a = u64] by (simp add: mask_eq_exp_minus_1)
  have "{n. n < 64 \<and> \<not> bit (w AND (push_bit r 1 - 1)) n} = {n. n < r \<and> \<not> bit w n} \<union> {r..<64}"
    using assms m by (auto simp: bit_and_iff not_less simp del: push_bit_of_1)
  moreover have "{n. n < r \<and> \<not> bit w n} \<inter> {r..<64} = {}" by auto
  ultimately show ?thesis by (simp add: count_zeros_card card_Un_disjoint del: push_bit_of_1)
qed

lemma count_free_card:
  assumes "bitmap_ok a"
  shows "count_free a = card (free_set a)"
proof -
  let ?q = "fa_total a div 64" and ?r = "fa_total a mod 64"
  have q: "?q \<le> length (fa_bitmap a)" using assms by (simp add: bitmap_ok_def) linarith
  have free: "free_set a = clear_below (fa_bitmap a) (?q * 64 + ?r)"
    by (auto simp: free_set_def clear_below_def is_used_bit)
  have "count_free a = card (clear_below (fa_bitmap a) (?q * 64)) + card {n. n < ?r \<and> \<not> bit (fa_bitmap a ! ?q) n}"
  proof (cases "fa_total a = 0")
    case True
    then show ?thesis by (simp add: count_free_def clear_below_def)
  next
    case False
    have "count_zeros (fa_bitmap a ! ?q AND (push_bit ?r 1 - 1)) - (64 - ?r) = card {n. n < ?r \<and> \<not> bit (fa_bitmap a ! ?q) n}"
      by (subst count_masked) simp_all
    with False count_words [OF q] show ?thesis by (auto simp: count_free_def Let_def simp del: push_bit_of_1)
  qed
  with clear_below_word [of ?r "fa_bitmap a" ?q] free show ?thesis by simp
qed

section \<open>Ranges and boot\<close>

lemma reserve_fold:
  "bitmap_ok a \<Longrightarrow> list_all (\<lambda>f. f < fa_total a) fs \<Longrightarrow>
     (case foldl reserve_one (a, n) fs of (a', n') \<Rightarrow> bitmap_ok a' \<and> fa_total a' = fa_total a \<and> fa_free a' = fa_free a \<and>
        fa_reserved a' = fa_reserved a \<and> free_set a' = free_set a - set fs \<and> n' = n + card (free_set a \<inter> set fs))"
proof (induction fs arbitrary: a n)
  case (Cons f fs)
  show ?case
  proof (cases "is_used f a")
    case True
    then have "free_set a \<inter> set (f # fs) = free_set a \<inter> set fs" "free_set a - set (f # fs) = free_set a - set fs"
      by (auto simp: free_set_def)
    with Cons.IH [of a n] Cons.prems True show ?thesis by (simp add: reserve_one_def)
  next
    case False
    let ?a = "set_used f a"
    have f: "f < MAX_FRAMES" "f \<in> free_set a" using Cons.prems False by (auto simp: bitmap_ok_def free_set_def)
    note u = set_used_ok [OF Cons.prems(1) f(1)]
    have "free_set a \<inter> set (f # fs) = insert f (free_set ?a \<inter> set fs)" using u f by auto
    then have "card (free_set a \<inter> set (f # fs)) = Suc (card (free_set ?a \<inter> set fs))" using u by simp
    moreover have "free_set ?a - set fs = free_set a - set (f # fs)" using u by auto
    moreover have "foldl reserve_one (a, n) (f # fs) = foldl reserve_one (?a, Suc n) fs" using False by (simp add: reserve_one_def)
    moreover have "list_all (\<lambda>f. f < fa_total ?a) fs" using Cons.prems(2) by simp
    ultimately show ?thesis using Cons.IH [OF u(1), of "Suc n"] by (simp only: set_used_fields split_beta) simp
  qed
qed simp

lemma reserve_range_spec:
  assumes "fa_ok a"
  shows "case reserve_range s e a of (taken, a') \<Rightarrow> fa_ok a' \<and> fa_total a' = fa_total a \<and>
    free_set a' = free_set a - {unat (s div FRAME_SIZE)..<unat (div_ceil e FRAME_SIZE)} \<and>
    taken = card (free_set a) - card (free_set a')"
proof -
  let ?fs = "[unat (s div FRAME_SIZE)..<min (unat (div_ceil e FRAME_SIZE)) (fa_total a)]"
  obtain a' n where r: "foldl reserve_one (a, 0) ?fs = (a', n)" by fastforce
  have spec: "bitmap_ok a'" "fa_total a' = fa_total a" "fa_free a' = fa_free a" "free_set a' = free_set a - set ?fs"
    "n = card (free_set a \<inter> set ?fs)"
    using reserve_fold [of a ?fs 0] assms r by (auto simp: fa_ok_def list_all_iff)
  have "free_set a - set ?fs = free_set a - {unat (s div FRAME_SIZE)..<unat (div_ceil e FRAME_SIZE)}"
    by (auto simp: free_set_def)
  moreover have "card (free_set a - set ?fs) = card (free_set a) - n"
    using spec(5) card_Diff_subset_Int [of "free_set a" "set ?fs"] by simp
  moreover have "n \<le> card (free_set a)" using spec(5) by (simp add: card_mono)
  ultimately show ?thesis using r spec assms by (auto simp: reserve_range_def Let_def fa_ok_def)
qed

lemma free_frames_fold:
  "bitmap_ok a \<Longrightarrow>
     (let a' = foldl (\<lambda>a frame. if frame < fa_total a then set_free frame a else a) a fs in
      bitmap_ok a' \<and> fa_total a' = fa_total a \<and> free_set a' = free_set a \<union> {f \<in> set fs. f < fa_total a})"
proof (induction fs arbitrary: a)
  case (Cons f fs)
  show ?case
  proof (cases "f < fa_total a")
    case True
    note u = set_free_ok [OF Cons.prems True]
    from Cons.IH [OF u(1)] u(2) True show ?thesis by (auto simp: Let_def)
  next
    case False
    with Cons.IH [OF Cons.prems] show ?thesis by (auto simp: Let_def)
  qed
qed simp

text \<open>The frames a region touches.\<close>

definition frames_of :: "u64 \<times> u64 \<times> bool \<Rightarrow> nat set" where
  "frames_of = (\<lambda>(base, len, usable).
     if usable \<and> len \<noteq> 0 then {f. unat base < (f + 1) * 4096 \<and> f * 4096 < unat base + unat len} else {})"

definition region_ok :: "u64 \<times> u64 \<times> bool \<Rightarrow> bool" where
  "region_ok = (\<lambda>(base, len, _). unat base + unat len < 2 ^ 64 - 4096)"

lemma unat_div_frame: "unat (p div FRAME_SIZE) = unat p div 4096"
  by (simp add: unat_div)

lemma free_region_spec:
  assumes "bitmap_ok a" and "region_ok r"
  shows "bitmap_ok (free_region a r)" and "fa_total (free_region a r) = fa_total a"
    and "free_set (free_region a r) = free_set a \<union> {f \<in> frames_of r. f < fa_total a}"
proof -
  obtain base len usable where r: "r = (base, len, usable)" by (cases r)
  have "bitmap_ok (free_region a r) \<and> fa_total (free_region a r) = fa_total a \<and>
    free_set (free_region a r) = free_set a \<union> {f \<in> frames_of r. f < fa_total a}"
  proof (cases "usable \<and> len \<noteq> 0")
    case True
    have s: "unat (base + len) = unat base + unat len" using assms(2) r by (simp add: region_ok_def unat_plus_simple [THEN iffD1] unat_word_ariths)
    have pos: "unat len \<noteq> 0" using True by (simp add: unat_eq_zero)
    have nz: "base + len \<noteq> 0" using s pos by (metis add_is_0 unat_0)
    have l: "unat (base + len - 1) = unat base + unat len - 1" using s nz by (simp add: unat_minus_one)
    have "{f \<in> set [unat (base div FRAME_SIZE)..<Suc (unat ((base + len - 1) div FRAME_SIZE))]. f < fa_total a} =
        {f \<in> frames_of r. f < fa_total a}"
    proof (rule Collect_cong, rule conj_cong)
      fix f
      have "unat base div 4096 \<le> f \<longleftrightarrow> unat base < (f + 1) * 4096" using div_less_iff_less_mult [of 4096 "unat base" "f + 1"] by auto
      moreover have "f \<le> (unat base + unat len - 1) div 4096 \<longleftrightarrow> f * 4096 < unat base + unat len"
        using pos by (auto simp: less_eq_div_iff_mult_less_eq)
      ultimately show "f \<in> set [unat (base div FRAME_SIZE)..<Suc (unat ((base + len - 1) div FRAME_SIZE))] \<longleftrightarrow> f \<in> frames_of r"
        using True by (simp add: frames_of_def r unat_div_frame l less_Suc_eq_le del: upt_Suc)
    qed simp
    with free_frames_fold [OF assms(1), of "[unat (base div FRAME_SIZE)..<Suc (unat ((base + len - 1) div FRAME_SIZE))]"] True r nz
    show ?thesis by (simp add: free_region_def Let_def del: upt_Suc)
  qed (use assms(1) in \<open>auto simp: free_region_def frames_of_def r\<close>)
  then show "bitmap_ok (free_region a r)" "fa_total (free_region a r) = fa_total a"
    "free_set (free_region a r) = free_set a \<union> {f \<in> frames_of r. f < fa_total a}" by blast+
qed

definition is_run :: "frame_allocator \<Rightarrow> nat \<Rightarrow> nat \<Rightarrow> bool" where
  "is_run a count s \<longleftrightarrow> {s..<s + count} \<subseteq> free_set a"

text \<open>The run search: nothing between a failed start and the used frame it hit can be a start.\<close>

lemma find_run_first:
  "case find_run a count limit start of
     None \<Rightarrow> \<forall>s. start \<le> s \<longrightarrow> s \<le> limit \<longrightarrow> (\<exists>i < count. is_used (s + i) a)
   | Some s \<Rightarrow> start \<le> s \<and> s \<le> limit \<and> (\<forall>i < count. \<not> is_used (s + i) a) \<and>
       (\<forall>s'. start \<le> s' \<longrightarrow> s' < s \<longrightarrow> (\<exists>i < count. is_used (s' + i) a))"
proof (induction a count limit start rule: find_run.induct)
  case (1 a count limit start)
  show ?case
  proof (cases "start > limit")
    case True
    then show ?thesis by (simp add: find_run.simps)
  next
    case False
    show ?thesis
    proof (cases "position (\<lambda>i. is_used (start + i) a) [0..<count]")
      case None
      then have "\<forall>i < count. \<not> is_used (start + i) a" by (simp add: position_NoneD)
      with False None show ?thesis by (simp add: find_run.simps)
    next
      case (Some i)
      have i: "i < count" "is_used (start + i) a" using position_SomeD [OF Some] by auto
      have skip: "\<exists>j < count. is_used (s + j) a" if "start \<le> s" "s < start + i + 1" for s
        using that i by (intro exI [of _ "start + i - s"]) auto
      have all: "\<exists>j < count. is_used (s + j) a" if "start \<le> s" "start + i + 1 \<le> s \<Longrightarrow> \<exists>j < count. is_used (s + j) a" for s
        using that skip [of s] by (cases "s < start + i + 1") auto
      have eq: "find_run a count limit start = find_run a count limit (start + i + 1)" using False Some by (simp add: find_run.simps)
      note IH = 1 [OF False Some]
      show ?thesis
      proof (cases "find_run a count limit (start + i + 1)")
        case None
        with IH have "\<forall>s. start + i + 1 \<le> s \<longrightarrow> s \<le> limit \<longrightarrow> (\<exists>i < count. is_used (s + i) a)" by (simp only: option.case)
        then have "\<forall>s. start \<le> s \<longrightarrow> s \<le> limit \<longrightarrow> (\<exists>i < count. is_used (s + i) a)" using all by blast
        with eq None show ?thesis by simp
      next
        case (Some t)
        have "start + i + 1 \<le> t \<and> t \<le> limit \<and> (\<forall>i < count. \<not> is_used (t + i) a) \<and>
            (\<forall>s'. start + i + 1 \<le> s' \<longrightarrow> s' < t \<longrightarrow> (\<exists>i < count. is_used (s' + i) a))" using IH unfolding Some option.case .
        moreover from this have "\<forall>s'. start \<le> s' \<longrightarrow> s' < t \<longrightarrow> (\<exists>i < count. is_used (s' + i) a)" using all by blast
        ultimately show ?thesis using eq Some by simp
      qed
    qed
  qed
qed

lemma alloc_contiguous_spec:
  assumes "fa_ok a"
  shows "case alloc_contiguous count a of
      (Err e, a') \<Rightarrow> a' = a \<and> (count = 0 \<or> \<not> (\<exists>s. is_run a count s))
    | (Ok p, a') \<Rightarrow> fa_ok a' \<and> fa_total a' = fa_total a \<and>
        (\<exists>s. p = of_nat s * FRAME_SIZE \<and> is_run a count s \<and> (\<forall>s'. is_run a count s' \<longrightarrow> s \<le> s') \<and>
           free_set a' = free_set a - {s..<s + count})"
proof -
  have run: "is_run a count s \<longleftrightarrow> s + count \<le> fa_total a \<and> (\<forall>i < count. \<not> is_used (s + i) a)" if "count > 0" for s
  proof -
    have "is_run a count s \<longleftrightarrow> (\<forall>i < count. s + i \<in> free_set a)"
      by (auto simp: is_run_def subset_iff) (metis le_Suc_ex nat_add_left_cancel_less)
    also have "\<dots> \<longleftrightarrow> (\<forall>i < count. s + i < fa_total a) \<and> (\<forall>i < count. \<not> is_used (s + i) a)" by (auto simp: free_set_def)
    also have "(\<forall>i < count. s + i < fa_total a) \<longleftrightarrow> s + count \<le> fa_total a"
      using that by (auto dest: spec [of _ "count - 1"])
    finally show ?thesis .
  qed
  have big: "\<not> is_run a count s" if "count > fa_free a" for s
    using that assms card_mono [of "free_set a" "{s..<s + count}"] by (auto simp: is_run_def fa_ok_def)
  have le: "fa_free a \<le> fa_total a"
    using assms card_mono [of "{..<fa_total a}" "free_set a"] by (auto simp: fa_ok_def free_set_def)
  show ?thesis
  proof (cases "count = 0 \<or> count > fa_free a")
    case True
    then show ?thesis using big by (auto simp: alloc_contiguous_def)
  next
    case False
    then have c: "count > 0" "count \<le> fa_total a" using le by auto
    then have lim: "s \<le> fa_total a - count \<longleftrightarrow> s + count \<le> fa_total a" for s by auto
    show ?thesis
    proof (cases "find_run a count (fa_total a - count) 0")
      case None
      with find_run_first [where a = a and count = count and limit = "fa_total a - count" and start = 0] lim run [OF c(1)]
      have "\<not> is_run a count s" for s by auto
      with False None show ?thesis by (simp add: alloc_contiguous_def)
    next
      case (Some s)
      with find_run_first [where a = a and count = count and limit = "fa_total a - count" and start = 0] lim
      have s: "s + count \<le> fa_total a" "\<forall>i < count. \<not> is_used (s + i) a"
        and m: "\<And>s'. s' < s \<Longrightarrow> \<exists>i < count. is_used (s' + i) a" by auto
      have r: "is_run a count s" using s run [OF c(1)] by blast
      have min: "s \<le> s'" if "is_run a count s'" for s' using that run [OF c(1), of s'] m [of s'] not_less by blast
      let ?fs = "map (\<lambda>i. s + i) [0..<count]"
      have fold: "foldl (\<lambda>a i. set_used (s + i) a) b [0..<count] = foldl (\<lambda>a f. set_used f a) b ?fs" for b
        by (simp add: foldl_map)
      have fs: "set ?fs = {s..<s + count}" by (auto simp: image_iff)
      have "list_all (\<lambda>f. f < MAX_FRAMES) ?fs" using s(1) assms by (auto simp: list_all_iff fa_ok_def bitmap_ok_def)
      from set_used_all [OF _ this] assms have u: "bitmap_ok (foldl (\<lambda>a f. set_used f a) a ?fs)"
        "free_set (foldl (\<lambda>a f. set_used f a) a ?fs) = free_set a - {s..<s + count}"
        "fa_total (foldl (\<lambda>a f. set_used f a) a ?fs) = fa_total a" unfolding fs by (simp_all add: fa_ok_def)
      have "card (free_set a - {s..<s + count}) = fa_free a - count"
        using r assms by (subst card_Diff_subset) (auto simp: is_run_def fa_ok_def)
      with False Some u fold r min show ?thesis
        by (auto simp: alloc_contiguous_def fa_ok_def intro!: exI [of _ s])
    qed
  qed
qed

lemma free_regions_fold:
  "bitmap_ok a \<Longrightarrow> list_all region_ok rs \<Longrightarrow>
     bitmap_ok (foldl free_region a rs) \<and> fa_total (foldl free_region a rs) = fa_total a \<and>
     free_set (foldl free_region a rs) = free_set a \<union> {f. f < fa_total a \<and> (\<exists>r \<in> set rs. f \<in> frames_of r)}"
proof (induction rs arbitrary: a)
  case (Cons r rs)
  note s = free_region_spec [OF Cons.prems(1), of r]
  from Cons.prems(2) have r: "region_ok r" "list_all region_ok rs" by simp_all
  from Cons.IH [OF s(1) [OF r(1)] r(2)] s(2,3) [OF r(1)] show ?case by auto
qed simp

lemma saturating_add_ok: "region_ok (base, len, u) \<Longrightarrow> unat (saturating_add base len) = unat base + unat len"
  by (simp add: saturating_add_def region_ok_def word_less_nat_alt unat_word_ariths)

lemma region_top_bounds:
  assumes "list_all region_ok rs"
  shows "unat (region_top rs) < 2 ^ 64 - 4096 \<and> (\<forall>(base, len, u) \<in> set rs. unat base + unat len \<le> unat (region_top rs))"
proof -
  let ?step = "\<lambda>top (base, len, u :: bool). let e = saturating_add base len in if e > top then e else top"
  have "unat t \<le> unat (foldl ?step t rs) \<and> unat (foldl ?step t rs) < 2 ^ 64 - 4096 \<and>
      (\<forall>(base, len, u) \<in> set rs. unat base + unat len \<le> unat (foldl ?step t rs))" if "unat t < 2 ^ 64 - 4096" for t
    using assms that
  proof (induction rs arbitrary: t)
    case (Cons r rs)
    obtain base len u where r: "r = (base, len, u)" by (cases r)
    let ?e = "saturating_add base len"
    have ok: "region_ok (base, len, u)" using Cons.prems(1) r by simp
    have e: "unat ?e = unat base + unat len" by (rule saturating_add_ok [OF ok])
    have t: "unat (?step t r) = max (unat ?e) (unat t)" by (auto simp: r Let_def word_less_nat_alt max_def)
    have "unat (?step t r) < 2 ^ 64 - 4096" unfolding t using Cons.prems(2) ok e by (simp add: region_ok_def)
    from Cons.IH [OF _ this] Cons.prems(1) e t show ?case by (auto simp: r)
  qed simp
  from this [of 0] show ?thesis by (simp add: region_top_def)
qed

lemma all_used_new: "f < MAX_FRAMES \<Longrightarrow> is_used f (fa_new\<lparr>fa_total := n\<rparr>)"
  by (simp add: is_used_bit fa_new_def)

lemma init_spec:
  assumes "list_all region_ok rs"
  shows "fa_ok (init_from_regions rs fa_new)"
    and "free_set (init_from_regions rs fa_new) = {f. f < MAX_FRAMES \<and> (\<exists>r \<in> set rs. f \<in> frames_of r)}"
proof -
  note top = region_top_bounds [OF assms]
  have mf: "unat ((region_top rs + FRAME_SIZE - 1) div FRAME_SIZE) = (unat (region_top rs) + 4095) div 4096"
  proof -
    have "unat (4095 + region_top rs) = unat (region_top rs) + 4095" using top by (simp add: unat_word_ariths)
    then show ?thesis by (simp add: unat_div)
  qed
  define n where "n = min ((unat (region_top rs) + 4095) div 4096) MAX_FRAMES"
  define a where "a = foldl (\<lambda>a i. set_used i a) (fa_new\<lparr>fa_total := n\<rparr>) [0..<n]"
  have "bitmap_ok (fa_new\<lparr>fa_total := n\<rparr>)"
    using all_used_new [where n = n] by (auto simp: bitmap_ok_def n_def) (simp add: fa_new_def)
  moreover have "free_set (fa_new\<lparr>fa_total := n\<rparr>) = {}" using all_used_new [where n = n] by (auto simp: free_set_def n_def)
  moreover have "list_all (\<lambda>f. f < MAX_FRAMES) [0..<n]" by (auto simp: list_all_iff n_def)
  ultimately have a: "bitmap_ok a" "free_set a = {}" "fa_total a = n"
    using set_used_all [of "fa_new\<lparr>fa_total := n\<rparr>" "[0..<n]"] by (simp_all add: a_def)
  note b = free_regions_fold [OF a(1) assms]
  have init: "init_from_regions rs fa_new = (let b = foldl free_region a rs in b\<lparr>fa_free := count_free b, fa_reserved := fa_total b - count_free b\<rparr>)"
    unfolding init_from_regions_def mf Let_def n_def a_def by simp
  show "fa_ok (init_from_regions rs fa_new)"
    using b count_free_card by (simp add: init Let_def fa_ok_def)
  have "f < n" if "f < MAX_FRAMES" "r \<in> set rs" "f \<in> frames_of r" for f r
  proof -
    obtain base len u where r: "r = (base, len, u)" by (cases r)
    with that(3) have "f * 4096 < unat base + unat len" by (auto simp: frames_of_def split: if_splits)
    also have "\<dots> \<le> unat (region_top rs)" using top that(2) r by auto
    finally have "Suc f \<le> (unat (region_top rs) + 4095) div 4096" by (simp add: less_eq_div_iff_mult_less_eq)
    with that(1) show ?thesis by (simp add: n_def)
  qed
  then show "free_set (init_from_regions rs fa_new) = {f. f < MAX_FRAMES \<and> (\<exists>r \<in> set rs. f \<in> frames_of r)}"
    using b a by (auto simp: init Let_def n_def)
qed

section \<open>Properties\<close>

lemma boot_init_spec:
  assumes "list_all (\<lambda>(s, e, _). s \<le> e \<and> unat e < 2 ^ 64 - 4096) regions"
  shows "fa_ok (boot_init regions fa_new) \<and>
    free_set (boot_init regions fa_new) = {f. 256 \<le> f \<and> f < MAX_FRAMES \<and>
      (\<exists>(s, e, usable) \<in> set (take 64 regions). usable \<and> s < e \<and> unat s < (f + 1) * 4096 \<and> f * 4096 < unat e)}"
proof -
  let ?rs = "map (\<lambda>(s, e, usable). (s, e - s, usable)) (take 64 regions)"
  have sub: "unat (e - s) = unat e - unat s" if "s \<le> e" for s e :: u64 using that by (simp add: unat_sub)
  have mem: "s \<le> e \<and> unat e < 2 ^ 64 - 4096" if "(s, e, u) \<in> set (take 64 regions)" for s e u
    using assms in_set_takeD [OF that] by (auto simp: list_all_iff)
  have "list_all region_ok ?rs" using mem by (auto simp: list_all_iff region_ok_def sub word_le_nat_alt)
  note i = init_spec [OF this]
  note r = reserve_range_spec [OF i(1), of 0 LOW_MEMORY_RESERVED]
  have "(\<exists>x \<in> set ?rs. f \<in> frames_of x) \<longleftrightarrow>
      (\<exists>(s, e, usable) \<in> set (take 64 regions). usable \<and> s < e \<and> unat s < (f + 1) * 4096 \<and> f * 4096 < unat e)" for f
  proof -
    have "f \<in> frames_of (s, e - s, u) \<longleftrightarrow> u \<and> s < e \<and> unat s < (f + 1) * 4096 \<and> f * 4096 < unat e"
      if "(s, e, u) \<in> set (take 64 regions)" for s e u
    proof (cases "s = e")
      case False
      then have "unat s \<noteq> unat e" by (simp add: word_unat_eq_iff)
      with False mem [OF that] sub [of s e] show ?thesis by (auto simp: frames_of_def word_le_nat_alt word_less_nat_alt)
    qed (simp add: frames_of_def)
    then show ?thesis by (force simp: split_beta)
  qed
  with r i(2) show ?thesis
    by (cases "reserve_range 0 LOW_MEMORY_RESERVED (init_from_regions ?rs fa_new)")
      (auto simp: boot_init_def div_ceil_def)
qed

text \<open>A machine with three free frames above the first megabyte.\<close>

definition three_frames :: frame_allocator where
  "three_frames = boot_init [(0, 0x9f000, True), (0x100000, 0x103000, True)] fa_new"

lemma three_frames_ok: "fa_ok three_frames" "free_set three_frames = {256, 257, 258}"
proof -
  let ?m = "[(0 :: u64, 0x9f000 :: u64, True), (0x100000, 0x103000, True)]"
  have m: "list_all (\<lambda>(s, e, _). s \<le> e \<and> unat e < 2 ^ 64 - 4096) ?m" by simp
  show "fa_ok three_frames" using boot_init_spec [OF m] by (simp add: three_frames_def)
  have "free_set three_frames = {f. 256 \<le> f \<and> f < MAX_FRAMES \<and> (f * 4096 < 651264 \<or> 1048576 < (f + 1) * 4096 \<and> f * 4096 < 1060864)}"
    using boot_init_spec [OF m] by (simp add: three_frames_def)
  also have "\<dots> = {256, 257, 258}" unfolding set_eq_iff mem_Collect_eq by (intro allI iffI; simp; presburger)
  finally show "free_set three_frames = {256, 257, 258}" .
qed

text \<open>
  C0: The allocator implements a set of free frames. On a well-formed allocator (the bitmap has
  its size, frames past the end are used, the free counter is the size of the set) allocation
  takes the lowest free frame and fails only when there is none; a contiguous allocation takes
  the lowest run of that length and fails only when there is none; freeing puts back exactly one
  tracked, used frame and refuses any other; reserving removes exactly the frames that overlap the range. Each
  keeps the allocator well formed, and a failure changes nothing.
\<close>

theorem allocator_refines_set:
  assumes "fa_ok a"
  shows "(case fa_alloc a of
        (Err e, a') \<Rightarrow> free_set a = {} \<and> a' = a
      | (Ok p, a') \<Rightarrow> fa_ok a' \<and> (\<exists>f. p = of_nat f * FRAME_SIZE \<and> f \<in> free_set a \<and> (\<forall>g \<in> free_set a. f \<le> g) \<and>
          free_set a' = free_set a - {f})) \<and>
     (case alloc_contiguous count a of
        (Err e, a') \<Rightarrow> a' = a \<and> (count = 0 \<or> \<not> (\<exists>s. is_run a count s))
      | (Ok p, a') \<Rightarrow> fa_ok a' \<and> (\<exists>s. p = of_nat s * FRAME_SIZE \<and> is_run a count s \<and> (\<forall>s'. is_run a count s' \<longrightarrow> s \<le> s') \<and>
          free_set a' = free_set a - {s..<s + count})) \<and>
     (case fa_free_frame q a of
        (Err e, a') \<Rightarrow> a' = a \<and> (unat (q div FRAME_SIZE) \<ge> fa_total a \<or> unat (q div FRAME_SIZE) \<in> free_set a)
      | (Ok _, a') \<Rightarrow> fa_ok a' \<and> unat (q div FRAME_SIZE) < fa_total a \<and> unat (q div FRAME_SIZE) \<notin> free_set a \<and>
          free_set a' = insert (unat (q div FRAME_SIZE)) (free_set a)) \<and>
     (case reserve_range s e a of (taken, a') \<Rightarrow> fa_ok a' \<and>
        free_set a' = free_set a - {unat (s div FRAME_SIZE)..<unat (div_ceil e FRAME_SIZE)} \<and>
        taken = card (free_set a) - card (free_set a'))"
  using fa_alloc_spec [OF assms] alloc_contiguous_spec [OF assms, of count] fa_free_spec [OF assms, of q]
    reserve_range_spec [OF assms, of s e]
  by (auto split: prod.splits result.splits)

lemma fa_new_ok: "fa_ok fa_new" "free_set fa_new = {}"
  using all_used_new [where n = 0] by (auto simp: fa_ok_def bitmap_ok_def free_set_def fa_new_def)

theorem allocator_refines_set_witness:
  "fst (fa_alloc three_frames) = Ok 0x100000 \<and> free_set (snd (fa_alloc three_frames)) = {257, 258} \<and>
   fst (fa_free_frame 0x100000 three_frames) = Err AlreadyFree"
proof -
  obtain r a' where r: "fa_alloc three_frames = (r, a')" by fastforce
  note w = allocator_refines_set [OF three_frames_ok(1), of 0 "0x100000" 0 0, THEN conjunct1, unfolded r prod.case]
  have "r = Ok 0x100000 \<and> free_set a' = {257, 258}"
  proof (cases r)
    case (Ok p)
    from w [unfolded Ok result.case] obtain f where f: "p = of_nat f * FRAME_SIZE" "f \<in> free_set three_frames"
      "\<forall>g \<in> free_set three_frames. f \<le> g" "free_set a' = free_set three_frames - {f}" by blast
    then have "f = 256" unfolding three_frames_ok(2) by auto
    with f(1,4) Ok show ?thesis unfolding three_frames_ok(2) by auto
  next
    case (Err e)
    with w show ?thesis by (simp add: three_frames_ok(2))
  qed
  moreover have "256 \<in> free_set three_frames" by (simp add: three_frames_ok(2))
  then have "256 < fa_total three_frames" "\<not> is_used 256 three_frames" unfolding free_set_def by blast+
  then have "fst (fa_free_frame 0x100000 three_frames) = Err AlreadyFree" by (simp add: fa_free_frame_def)
  ultimately show ?thesis using r by simp
qed

text \<open>
  C0: What boot makes available. From a memory map whose regions do not reach the end of the
  address space, the frames left free are exactly the tracked ones (below 512 MiB) that
  overlap one of the first 64 regions marked usable and lie above the first megabyte, and the
  allocator is well formed.
\<close>

theorem boot_frees_usable:
  assumes "list_all (\<lambda>(s, e, _). s \<le> e \<and> unat e < 2 ^ 64 - 4096) regions"
  shows "fa_ok (boot_init regions fa_new) \<and>
    free_set (boot_init regions fa_new) = {f. 256 \<le> f \<and> f < MAX_FRAMES \<and>
      (\<exists>(s, e, usable) \<in> set (take 64 regions). usable \<and> s < e \<and> unat s < (f + 1) * 4096 \<and> f * 4096 < unat e)}"
  using assms by (rule boot_init_spec)

theorem boot_frees_usable_witness:
  "free_set (boot_init [(0, 0x9f000, True), (0x100000, 0x103000, True)] fa_new) = {256, 257, 258}"
proof -
  let ?m = "[(0 :: u64, 0x9f000 :: u64, True), (0x100000, 0x103000, True)]"
  have "list_all (\<lambda>(s, e, _). s \<le> e \<and> unat e < 2 ^ 64 - 4096) ?m" by simp
  from boot_frees_usable [OF this]
  have "free_set (boot_init ?m fa_new) = {f. 256 \<le> f \<and> f < MAX_FRAMES \<and> (f * 4096 < 651264 \<or> 1048576 < (f + 1) * 4096 \<and> f * 4096 < 1060864)}"
    by simp
  also have "\<dots> = {256, 257, 258}" unfolding set_eq_iff mem_Collect_eq by (intro allI iffI; simp; presburger)
  finally show ?thesis .
qed

text \<open>
  C0: Frames that are only partly usable are handed out. A reserved region that shares its
  first frame with the end of a usable one does not keep that frame: boot frees it.
\<close>

theorem shared_frame_is_freed:
  "\<exists>regions f. (0x101800, 0x102000, False) \<in> set regions \<and> unat (0x101800 :: u64) div 4096 = f \<and>
     f \<in> free_set (boot_init regions fa_new)"
proof -
  let ?m = "[(0x101800 :: u64, 0x102000 :: u64, False), (0x100000, 0x101800, True)]"
  have "list_all region_ok (map (\<lambda>(s, e, usable). (s, e - s, usable)) (take 64 ?m))" by (simp add: region_ok_def)
  note i = init_spec [OF this]
  from reserve_range_spec [OF i(1), of 0 LOW_MEMORY_RESERVED] i(2)
  have "257 \<in> free_set (boot_init ?m fa_new)"
    by (cases "reserve_range 0 LOW_MEMORY_RESERVED (init_from_regions (map (\<lambda>(s, e, usable). (s, e - s, usable)) (take 64 ?m)) fa_new)")
      (auto simp: boot_init_def div_ceil_def frames_of_def)
  then show ?thesis by (intro exI [of _ ?m] exI [of _ 257]) simp
qed

end
