(* ===== verification/Spec2Isabelle.thy ===== *)
theory Spec2Isabelle
  imports ToolMsg Approvals Kernel Policy Allocator
begin

text \<open>
  A verification library for the CDK agent trust kernel.
\<close>

end
